theory Spec2Isabelle
  imports Complex_Main "HOL-Library.Monad_Syntax" "HOL-Library.Word"
begin

section \<open>Field elements\<close>

text \<open>
  The decoder is generic in the finite field of its super coder (\<open>field_type\<close>,
  \<open>value_type\<close>). Field elements are the elements of a type of class \<open>field\<close>; the
  compile-time flag \<open>fifi::is_binary<field_type>::value\<close> is the parameter \<open>bin\<close> of
  every function that reads it. For the binary field the type below is used: the two
  elements of GF(2), where addition and subtraction are exclusive or.
\<close>

datatype gf2 = GZero | GOne

instantiation gf2 :: field
begin

definition zero_gf2_def: "0 = GZero"
definition one_gf2_def: "1 = GOne"
definition plus_gf2_def: "a + b = (if a = b then GZero else GOne)"
definition minus_gf2_def: "a - b = (if a = (b::gf2) then GZero else GOne)"
definition uminus_gf2_def: "- a = (a::gf2)"
definition times_gf2_def: "a * b = (if a = GOne \<and> b = GOne then GOne else GZero)"
definition inverse_gf2_def: "inverse a = (a::gf2)"
definition divide_gf2_def: "a div b = (if a = GOne \<and> b = GOne then GOne else GZero)"

instance
proof
  fix a b c :: gf2
  show "a + b + c = a + (b + c)"
    by (cases a; cases b; cases c) (simp_all add: plus_gf2_def)
  show "a + b = b + a"
    by (cases a; cases b) (simp_all add: plus_gf2_def)
  show "0 + a = a"
    by (cases a) (simp_all add: plus_gf2_def zero_gf2_def)
  show "- a + a = 0"
    by (simp add: plus_gf2_def zero_gf2_def uminus_gf2_def)
  show "a - b = a + - b"
    by (simp add: plus_gf2_def minus_gf2_def uminus_gf2_def)
  show "a * b * c = a * (b * c)"
    by (cases a; cases b; cases c) (simp_all add: times_gf2_def)
  show "a * b = b * a"
    by (cases a; cases b) (simp_all add: times_gf2_def)
  show "1 * a = a"
    by (cases a) (simp_all add: times_gf2_def one_gf2_def)
  show "(a + b) * c = a * c + b * c"
    by (cases a; cases b; cases c) (simp_all add: times_gf2_def plus_gf2_def)
  show "(0::gf2) \<noteq> 1"
    by (simp add: zero_gf2_def one_gf2_def)
  show "a \<noteq> 0 \<Longrightarrow> inverse a * a = 1"
    by (cases a) (simp_all add: times_gf2_def inverse_gf2_def zero_gf2_def one_gf2_def)
  show "a div b = a * inverse b"
    by (simp add: times_gf2_def inverse_gf2_def divide_gf2_def)
  show "inverse (0::gf2) = 0"
    by (simp add: inverse_gf2_def)
qed

end

text \<open>
  A payload byte of the binary field packs eight field elements. \<open>octet n\<close> unpacks the
  byte with value \<open>n\<close>, least significant bit first; the bytewise exclusive or of the
  source is the elementwise subtraction of the unpacked rows.
\<close>

fun bits :: "nat \<Rightarrow> nat \<Rightarrow> gf2 list" where
  "bits 0 n = []"
| "bits (Suc l) n = (if odd n then 1 else 0) # bits l (n div 2)"

definition octet :: "nat \<Rightarrow> gf2 list" where
  "octet n = bits 8 n"

definition octets :: "nat list \<Rightarrow> gf2 list" where
  "octets ns = concat (map octet ns)"

section \<open>Rows and the field operations on them\<close>

text \<open>
  Modelled from the spec: \<open>linear_block_vector::coefficient\<close>
  (\<open>linear_block_vector.hpp\<close> is not among the sources). Section 6 of the
  specification: \<open>coefficient(j, row)\<close> reads element \<open>j\<close> of a row and hides any packed
  representation, so a coefficient row is the list of its \<open>k\<close> field elements.
\<close>

definition coefficient :: "nat \<Rightarrow> 'a list \<Rightarrow> 'a" where
  "coefficient i v = v ! i"

text \<open>
  Modelled from the spec: \<open>linear_block_vector::set_coefficient\<close>, missing with the same
  file. Section 6: \<open>set_coefficient(j, row, x)\<close> writes element \<open>j\<close> of a row. The decoder
  calls it with \<open>j\<close> below the length of the row.
\<close>

definition set_coefficient :: "nat \<Rightarrow> 'a list \<Rightarrow> 'a \<Rightarrow> 'a list" where
  "set_coefficient i v x = v[i := x]"

text \<open>
  Modelled from the spec: \<open>subtract\<close> of the finite field layer (\<open>fifi\<close>, not among the
  sources). Section 6: \<open>subtract(dst_row, src_row, len)\<close> subtracts the source row from the
  destination row, element by element. The result is the new contents of the destination;
  both rows have \<open>len\<close> elements.
\<close>

definition subtract :: "'a::field list \<Rightarrow> 'a list \<Rightarrow> 'a list" where
  "subtract dst src = map2 (\<lambda>d s. d - s) dst src"

text \<open>
  Modelled from the spec: \<open>multiply\<close> of the finite field layer, not among the sources.
  Section 6: \<open>multiply(row, scalar, len)\<close> scales every element of the row.
\<close>

definition multiply :: "'a::field list \<Rightarrow> 'a \<Rightarrow> 'a list" where
  "multiply dst c = map (\<lambda>d. d * c) dst"

text \<open>
  Modelled from the spec: \<open>multiply_subtract\<close> of the finite field layer, not among the
  sources. Section 6: \<open>multiply_subtract(dst_row, src_row, scalar, len)\<close> subtracts the
  scaled source row from the destination row.
\<close>

definition multiply_subtract :: "'a::field list \<Rightarrow> 'a list \<Rightarrow> 'a \<Rightarrow> 'a list" where
  "multiply_subtract dst src c = map2 (\<lambda>d s. d - s * c) dst src"

text \<open>
  Modelled from the spec: \<open>invert\<close> of the finite field layer, not among the sources.
  Section 6: \<open>invert(scalar)\<close> is the multiplicative inverse. The decoder calls it in
  \<open>normalize\<close> only, behind the assertion that the scalar is not zero.
\<close>

definition invert :: "'a::field \<Rightarrow> 'a" where
  "invert c = inverse c"

section \<open>The decoder state\<close>

text \<open>
  The members of \<open>linear_block_decoder\<close> together with what it reaches through its
  super coder: the block geometry (\<open>symbols()\<close>, \<open>symbol_length()\<close>), the coefficient
  rows (\<open>SuperCoder::vector(i)\<close>) and the payload storage \<open>m_data\<close>. The decoder is a
  layer over its super coder, so the type of the payload storage is a parameter of the
  record. The counters are \<open>uint32_t\<close> in the source; they never exceed \<open>symbols()\<close>,
  itself a \<open>uint32_t\<close>, so they are natural numbers here.
\<close>

record ('a, 'd) linear_block_decoder =
  symbols :: nat
  symbol_length :: nat
  m_rank :: nat
  m_maximum_pivot :: nat
  m_uncoded :: "bool list"
  m_coded :: "bool list"
  m_vectors :: "'a list list"
  m_data :: 'd

text \<open>
  The decoder over \<open>deep_symbol_storage\<close>: \<open>m_data\<close> is the one vector of that class,
  which holds the payload rows one after the other, and \<open>symbol_size()\<close>, the size of a
  payload row in bytes, is the stride of its address arithmetic. The vector is counted
  here in field elements: a payload row is \<open>symbol_length()\<close> field elements, and they
  lie in \<open>symbol_size()\<close> bytes (eight elements to the byte in the binary field).
\<close>

record 'a decoder = "('a, 'a list) linear_block_decoder" +
  symbol_size :: nat

definition vector :: "('a, 'd, 'z) linear_block_decoder_scheme \<Rightarrow> nat \<Rightarrow> 'a list" where
  "vector st i = m_vectors st ! i"

text \<open>
  \<open>deep_symbol_storage::symbol\<close> returns \<open>&m_data[index * symbol_size()]\<close>. Both factors
  are \<open>uint32_t\<close> and so is their product: the byte offset is the product modulo
  \<open>2 ^ 32\<close>. \<open>symbol_offset\<close> is the position of that byte in \<open>m_data\<close> counted in
  field elements.
\<close>

definition symbol_offset :: "'a decoder \<Rightarrow> nat \<Rightarrow> nat" where
  "symbol_offset st index =
     unat (word_of_nat index * word_of_nat (symbol_size st) :: 32 word)
       * symbol_length st div symbol_size st"

text \<open>
  The payload row of a slot is what the decoder reads through the pointer
  \<open>SuperCoder::symbol(index)\<close>: the \<open>symbol_length()\<close> field elements that start at the
  offset. Rows whose offsets coincide are the same memory. Reading beyond the end of
  \<open>m_data\<close> is undefined in the source; here the row ends where the vector ends.
\<close>

definition symbol :: "'a decoder \<Rightarrow> nat \<Rightarrow> 'a list" where
  "symbol st index = take (symbol_length st) (drop (symbol_offset st index) (m_data st))"

text \<open>
  Writing a row through such a pointer (\<open>std::copy\<close> to it, or a row operation of the
  field layer with the pointer as destination) replaces the elements of \<open>m_data\<close> from
  the offset on. Writing beyond the end of \<open>m_data\<close> is undefined in the source; here
  the part of the row that lies beyond the end is dropped.
\<close>

definition overwrite :: "'a list \<Rightarrow> nat \<Rightarrow> 'a list \<Rightarrow> 'a list" where
  "overwrite data offset row =
     take (length data) (take offset data @ row @ drop (offset + length row) data)"

definition vector_length :: "('a, 'd, 'z) linear_block_decoder_scheme \<Rightarrow> nat" where
  "vector_length st = symbols st"

text \<open>
  \<open>deep_symbol_storage::construct\<close> gives \<open>m_data\<close> the size \<open>max_data_needed\<close> in
  bytes, the \<open>uint32_t\<close> product of its two arguments, and asserts that it is not zero.
\<close>

definition max_data_needed :: "nat \<Rightarrow> nat \<Rightarrow> nat" where
  "max_data_needed max_symbols max_symbol_size =
     unat (word_of_nat max_symbols * word_of_nat max_symbol_size :: 32 word)"

text \<open>
  Modelled from the spec: \<open>initialize\<close> of the coefficient storage of the super coder,
  which is not among the sources. Section 3: re-initialising a decoder resets its rows to
  zero. The result is the \<open>k\<close> coefficient rows of a fresh block, each of \<open>k\<close> elements.
\<close>

definition initialize_vectors :: "nat \<Rightarrow> 'a::field list list" where
  "initialize_vectors k = replicate k (replicate k 0)"

text \<open>
  \<open>initialize\<close>: the bit sets are cleared and the counters reset;
  \<open>deep_symbol_storage::initialize\<close> fills \<open>m_data\<close> with zeros and leaves its size as
  \<open>construct\<close> made it. The first argument is that size in bytes, the second and third
  are the arguments \<open>symbols\<close> and \<open>symbol_size\<close> of the source. The fourth is
  \<open>symbol_length()\<close>, which the super coder derives from the symbol size in a layer that
  is not among the sources. The bit sets and the coefficient storage are sized for the
  largest block at construction; the state holds the part of them that belongs to the
  \<open>k\<close> slots of the current block.
\<close>

definition initialize :: "nat \<Rightarrow> nat \<Rightarrow> nat \<Rightarrow> nat \<Rightarrow> 'a::field decoder" where
  "initialize data_size k row_size m =
     \<lparr> symbols = k, symbol_length = m, m_rank = 0, m_maximum_pivot = 0,
       m_uncoded = replicate k False, m_coded = replicate k False,
       m_vectors = initialize_vectors k,
       m_data = replicate (data_size * m div row_size) 0,
       symbol_size = row_size \<rparr>"


definition rank :: "('a, 'd, 'z) linear_block_decoder_scheme \<Rightarrow> nat" where
  "rank st = m_rank st"

text \<open>
  \<open>symbol_exists\<close> asserts that its index is below \<open>symbols()\<close>. The decoder calls it with
  the loop index of \<open>forward_substitute_to_pivot\<close>, which is below \<open>symbols()\<close>, and with
  that of \<open>forward_substitute_from_pivot\<close>, which is at most \<open>m_maximum_pivot\<close>; the latter
  is below \<open>symbols()\<close> in every reachable state.
\<close>

definition symbol_exists :: "('a, 'd, 'z) linear_block_decoder_scheme \<Rightarrow> nat \<Rightarrow> bool" where
  "symbol_exists st i = (m_coded st ! i \<or> m_uncoded st ! i)"

section \<open>The elimination steps\<close>

text \<open>
  An \<open>assert\<close> of the source that fails aborts the program: the function returns
  \<open>None\<close>. The pointer assertions have no counterpart, the buffers of the caller being
  values.
\<close>

definition assert_that :: "bool \<Rightarrow> unit option" where
  "assert_that b = (if b then Some () else None)"

text \<open>
  \<open>forward_substitute_to_pivot\<close>: the loop over \<open>i = 0, ..., symbols() - 1\<close>, as a
  recursion over the indices still to visit. The result is the pivot, if one was found,
  and the contents of the two working buffers.
\<close>

fun forward_to_pivot_loop ::
  "bool \<Rightarrow> 'a::field decoder \<Rightarrow> nat list \<Rightarrow> 'a list \<Rightarrow> 'a list
     \<Rightarrow> nat option \<times> 'a list \<times> 'a list" where
  "forward_to_pivot_loop bin st [] symbol_data symbol_id = (None, symbol_data, symbol_id)"
| "forward_to_pivot_loop bin st (i # idx) symbol_data symbol_id =
     (let current_coefficient = coefficient i symbol_id in
      if current_coefficient \<noteq> 0 then
        if symbol_exists st i then
          (let vector_i = vector st i; symbol_i = symbol st i in
           if bin then
             forward_to_pivot_loop bin st idx
               (subtract symbol_data symbol_i) (subtract symbol_id vector_i)
           else
             forward_to_pivot_loop bin st idx
               (multiply_subtract symbol_data symbol_i current_coefficient)
               (multiply_subtract symbol_id vector_i current_coefficient))
        else (Some i, symbol_data, symbol_id)
      else forward_to_pivot_loop bin st idx symbol_data symbol_id)"

definition forward_substitute_to_pivot ::
  "bool \<Rightarrow> 'a::field decoder \<Rightarrow> 'a list \<Rightarrow> 'a list \<Rightarrow> nat option \<times> 'a list \<times> 'a list" where
  "forward_substitute_to_pivot bin st symbol_data symbol_id =
     forward_to_pivot_loop bin st [0..< symbols st] symbol_data symbol_id"

definition normalize_symbol ::
  "('a::field, 'd, 'z) linear_block_decoder_scheme \<Rightarrow> 'a list \<Rightarrow> 'a list \<Rightarrow> nat
     \<Rightarrow> ('a list \<times> 'a list) option" where
  "normalize_symbol st symbol_data symbol_id pivot_index = do {
     assert_that (pivot_index < symbols st);
     assert_that (m_uncoded st ! pivot_index = False);
     assert_that (m_coded st ! pivot_index = False);
     let coefficient = coefficient pivot_index symbol_id;
     assert_that (coefficient \<noteq> 0);
     let inverted_coefficient = invert coefficient;
     Some (multiply symbol_data inverted_coefficient,
           multiply symbol_id inverted_coefficient)
   }"

text \<open>One iteration of the loop of \<open>forward_substitute_from_pivot\<close>.\<close>

definition forward_from_pivot_step ::
  "bool \<Rightarrow> 'a::field decoder \<Rightarrow> nat \<Rightarrow> 'a list \<times> 'a list \<Rightarrow> 'a list \<times> 'a list" where
  "forward_from_pivot_step bin st i buf =
     (case buf of (symbol_data, symbol_id) \<Rightarrow>
        let val = coefficient i symbol_id in
        if val = 0 then (symbol_data, symbol_id)
        else if symbol_exists st i then
          (let vector_i = vector st i; symbol_i = symbol st i in
           if bin then (subtract symbol_data symbol_i, subtract symbol_id vector_i)
           else (multiply_subtract symbol_data symbol_i val,
                 multiply_subtract symbol_id vector_i val))
        else (symbol_data, symbol_id))"

definition forward_substitute_from_pivot ::
  "bool \<Rightarrow> 'a::field decoder \<Rightarrow> 'a list \<Rightarrow> 'a list \<Rightarrow> nat \<Rightarrow> ('a list \<times> 'a list) option" where
  "forward_substitute_from_pivot bin st symbol_data symbol_id pivot_index = do {
     assert_that (pivot_index < symbols st);
     assert_that (m_uncoded st ! pivot_index = False);
     assert_that (m_coded st ! pivot_index = False);
     Some (fold (forward_from_pivot_step bin st)
             [pivot_index + 1 ..< m_maximum_pivot st + 1] (symbol_data, symbol_id))
   }"

text \<open>
  One iteration of the loop of \<open>backward_substitute\<close>: it rewrites row \<open>i\<close> in place, the
  coefficient row in the coefficient storage and the payload row in \<open>m_data\<close>.
\<close>

definition backward_step ::
  "bool \<Rightarrow> 'a::field list \<Rightarrow> 'a list \<Rightarrow> nat \<Rightarrow> nat \<Rightarrow> 'a decoder \<Rightarrow> 'a decoder" where
  "backward_step bin symbol_data symbol_id pivot_index i st =
     (if m_uncoded st ! i then st
      else if i = pivot_index then st
      else if m_coded st ! i then
        (let vector_i = vector st i; val = coefficient pivot_index vector_i in
         if val \<noteq> 0 then
           (let symbol_i = symbol st i in
            if bin then
              st\<lparr> m_vectors := (m_vectors st)[i := subtract vector_i symbol_id],
                  m_data := overwrite (m_data st) (symbol_offset st i)
                              (subtract symbol_i symbol_data) \<rparr>
            else
              st\<lparr> m_vectors := (m_vectors st)[i := multiply_subtract vector_i symbol_id val],
                  m_data := overwrite (m_data st) (symbol_offset st i)
                              (multiply_subtract symbol_i symbol_data val) \<rparr>)
         else st)
      else st)"

definition backward_substitute ::
  "bool \<Rightarrow> 'a::field decoder \<Rightarrow> 'a list \<Rightarrow> 'a list \<Rightarrow> nat \<Rightarrow> 'a decoder option" where
  "backward_substitute bin st symbol_data symbol_id pivot_index = do {
     assert_that (pivot_index < symbols st);
     Some (fold (backward_step bin symbol_data symbol_id pivot_index)
             [0 ..< m_maximum_pivot st + 1] st)
   }"

definition store_coded_symbol ::
  "'a decoder \<Rightarrow> 'a list \<Rightarrow> 'a list \<Rightarrow> nat \<Rightarrow> 'a decoder option" where
  "store_coded_symbol st symbol_data symbol_id pivot_index = do {
     assert_that (m_uncoded st ! pivot_index = False);
     assert_that (m_coded st ! pivot_index = False);
     Some (st\<lparr> m_vectors := (m_vectors st)[pivot_index := symbol_id],
               m_data := overwrite (m_data st) (symbol_offset st pivot_index) symbol_data \<rparr>)
   }"

definition store_uncoded_symbol ::
  "'a::field decoder \<Rightarrow> 'a list \<Rightarrow> nat \<Rightarrow> 'a decoder option" where
  "store_uncoded_symbol st symbol_data pivot_index = do {
     assert_that (m_uncoded st ! pivot_index = False);
     assert_that (m_coded st ! pivot_index = False);
     let vector_dest = vector st pivot_index;
     Some (st\<lparr> m_data := overwrite (m_data st) (symbol_offset st pivot_index) symbol_data,
               m_vectors := (m_vectors st)[pivot_index := set_coefficient pivot_index vector_dest 1] \<rparr>)
   }"

section \<open>Absorbing a packet\<close>

text \<open>
  \<open>decode_with_vector\<close> changes its two buffers in place; the result carries their final
  contents next to the new decoder state.
\<close>

definition decode_with_vector ::
  "bool \<Rightarrow> 'a::field decoder \<Rightarrow> 'a list \<Rightarrow> 'a list
     \<Rightarrow> ('a decoder \<times> 'a list \<times> 'a list) option" where
  "decode_with_vector bin st symbol_data symbol_id =
     (case forward_substitute_to_pivot bin st symbol_data symbol_id of
        (None, sd, sv) \<Rightarrow> Some (st, sd, sv)
      | (Some pivot_index, sd, sv) \<Rightarrow> do {
          (sd1, sv1) \<leftarrow> (if \<not> bin then normalize_symbol st sd sv pivot_index else Some (sd, sv));
          (sd2, sv2) \<leftarrow> forward_substitute_from_pivot bin st sd1 sv1 pivot_index;
          st1 \<leftarrow> backward_substitute bin st sd2 sv2 pivot_index;
          st2 \<leftarrow> store_coded_symbol st1 sd2 sv2 pivot_index;
          let st3 = st2\<lparr> m_rank := m_rank st2 + 1 \<rparr>;
          let st4 = st3\<lparr> m_coded := (m_coded st3)[pivot_index := True] \<rparr>;
          Some (if pivot_index > m_maximum_pivot st4
                then st4\<lparr> m_maximum_pivot := pivot_index \<rparr> else st4, sd2, sv2)
        })"

definition decode ::
  "bool \<Rightarrow> 'a::field decoder \<Rightarrow> 'a list \<Rightarrow> 'a list
     \<Rightarrow> ('a decoder \<times> 'a list \<times> 'a list) option" where
  "decode bin st symbol_data symbol_id = decode_with_vector bin st symbol_data symbol_id"

text \<open>
  \<open>swap_decode\<close>: the two working buffers handed to \<open>decode_with_vector\<close> are row
  \<open>pivot_index\<close> of the two storages themselves. While that call runs the slot is marked
  neither coded nor uncoded, so no loop reads or writes the row of this slot; what the call
  leaves in the buffers is what the row holds afterwards. For the payload buffer this
  presupposes that the row of no other slot overlaps it in \<open>m_data\<close>, which is so whenever
  the address arithmetic does not wrap (\<open>block_in_storage\<close> below).
\<close>

definition swap_decode ::
  "bool \<Rightarrow> 'a::field decoder \<Rightarrow> 'a list \<Rightarrow> nat \<Rightarrow> 'a decoder option" where
  "swap_decode bin st symbol_data pivot_index = do {
     assert_that (m_coded st ! pivot_index = True);
     assert_that (m_uncoded st ! pivot_index = False);
     let st1 = st\<lparr> m_coded := (m_coded st)[pivot_index := False] \<rparr>;
     let symbol_i = symbol st1 pivot_index;
     let vector_i = vector st1 pivot_index;
     let val = coefficient pivot_index vector_i;
     assert_that (val = 1);
     let vector_i = set_coefficient pivot_index vector_i 0;
     let symbol_i = subtract symbol_i symbol_data;
     let st2 = st1\<lparr> m_vectors := (m_vectors st1)[pivot_index := vector_i],
                    m_data := overwrite (m_data st1) (symbol_offset st1 pivot_index) symbol_i \<rparr>;
     (st3, symbol_i, vector_i) \<leftarrow> decode_with_vector bin st2 symbol_i vector_i;
     let st4 = st3\<lparr> m_vectors := (m_vectors st3)[pivot_index := vector_i],
                    m_data := overwrite (m_data st3) (symbol_offset st3 pivot_index) symbol_i \<rparr>;
     let st5 = st4\<lparr> m_vectors :=
                      (m_vectors st4)[pivot_index := replicate (vector_length st4) 0] \<rparr>;
     st6 \<leftarrow> store_uncoded_symbol st5 symbol_data pivot_index;
     Some (st6\<lparr> m_uncoded := (m_uncoded st6)[pivot_index := True] \<rparr>)
   }"

definition decode_raw ::
  "bool \<Rightarrow> 'a::field decoder \<Rightarrow> 'a list \<Rightarrow> nat \<Rightarrow> 'a decoder option" where
  "decode_raw bin st symbol_data symbol_index = do {
     assert_that (symbol_index < symbols st);
     if m_uncoded st ! symbol_index then Some st
     else if m_coded st ! symbol_index then swap_decode bin st symbol_data symbol_index
     else do {
       st1 \<leftarrow> store_uncoded_symbol st symbol_data symbol_index;
       let vector = vector st1 symbol_index;
       st2 \<leftarrow> backward_substitute bin st1 symbol_data vector symbol_index;
       let st3 = st2\<lparr> m_rank := m_rank st2 + 1 \<rparr>;
       let st4 = st3\<lparr> m_uncoded := (m_uncoded st3)[symbol_index := True] \<rparr>;
       Some (if symbol_index > m_maximum_pivot st4
             then st4\<lparr> m_maximum_pivot := symbol_index \<rparr> else st4)
     }
   }"

section \<open>Reachable states and what holds in them\<close>

text \<open>
  The states a caller can bring a decoder into: \<open>initialize\<close> for a block of \<open>k > 0\<close>
  symbols, followed by calls of \<open>decode\<close> and \<open>decode_raw\<close> that return. The buffers
  handed in have the lengths the decoder was initialised for. The flag \<open>bin\<close> is fixed
  at build time and is true for the binary field only, whose elements are 0 and 1.
\<close>

inductive reachable :: "bool \<Rightarrow> 'a::field decoder \<Rightarrow> bool" for bin :: bool where
  reachable_initialize:
    "0 < k \<Longrightarrow> (bin \<longrightarrow> (\<forall>x::'a. x = 0 \<or> x = 1))
     \<Longrightarrow> reachable bin (initialize data_size k row_size m)"
| reachable_decode:
    "reachable bin st \<Longrightarrow> length symbol_data = symbol_length st
     \<Longrightarrow> length symbol_id = symbols st
     \<Longrightarrow> decode bin st symbol_data symbol_id = Some (st', sd', sv')
     \<Longrightarrow> reachable bin st'"
| reachable_decode_raw:
    "reachable bin st \<Longrightarrow> length symbol_data = symbol_length st
     \<Longrightarrow> decode_raw bin st symbol_data symbol_index = Some st'
     \<Longrightarrow> reachable bin st'"

text \<open>
  The block lies in the storage: the byte offsets of its \<open>symbols()\<close> rows are computed
  without wrapping, and \<open>m_data\<close> is long enough to hold the rows. Then the rows of
  different slots are disjoint parts of \<open>m_data\<close>. A decoder constructed with
  \<open>max_symbols * max_symbol_size < 2 ^ 32\<close> and initialised within these bounds is in
  this case.
\<close>

definition block_in_storage :: "'a decoder \<Rightarrow> bool" where
  "block_in_storage st =
     (0 < symbol_size st \<and> symbols st * symbol_size st < 2 ^ 32 \<and>
      symbols st * symbol_length st \<le> length (m_data st))"

definition unit_row :: "nat \<Rightarrow> nat \<Rightarrow> 'a::field list" where
  "unit_row k i = (replicate k 0)[i := 1]"

definition zero_row :: "nat \<Rightarrow> 'a::field list" where
  "zero_row k = replicate k 0"

definition occupied_count :: "('a, 'd, 'z) linear_block_decoder_scheme \<Rightarrow> nat" where
  "occupied_count st = length (filter (symbol_exists st) [0..< symbols st])"

text \<open>
  The shape of the stored coefficient rows. The columns in \<open>R\<close> are reserved: every
  stored row is zero there. \<open>R\<close> is empty between calls; inside \<open>swap_decode\<close> it holds
  the slot being replaced.
\<close>

definition echelon :: "nat set \<Rightarrow> ('a::field, 'd, 'z) linear_block_decoder_scheme \<Rightarrow> bool" where
  "echelon R st =
     (\<forall>i< symbols st.
        (m_uncoded st ! i \<longrightarrow> \<not> m_coded st ! i \<and> vector st i = unit_row (symbols st) i) \<and>
        (m_coded st ! i \<longrightarrow>
           vector st i ! i = 1 \<and> (\<forall>j<i. vector st i ! j = 0) \<and>
           (\<forall>j< symbols st. j \<noteq> i \<longrightarrow> symbol_exists st j \<or> j \<in> R \<longrightarrow> vector st i ! j = 0)) \<and>
        (symbol_exists st i \<longrightarrow> i \<le> m_maximum_pivot st \<and> i \<notin> R))"

definition blank_rows :: "('a::field, 'd, 'z) linear_block_decoder_scheme \<Rightarrow> bool" where
  "blank_rows st =
     (\<forall>i< symbols st. \<not> symbol_exists st i \<longrightarrow> vector st i = zero_row (symbols st))"

section \<open>Scenarios\<close>

text \<open>
  Scenario 3 of the specification, in the binary field with two symbols of two bytes,
  which are sixteen field elements, in a storage of four bytes: the coded packet with
  coefficients \<open>11\<close> and payload \<open>66 66\<close> is decoded, then the raw symbol \<open>CC DD\<close>
  arrives for index 1.
\<close>

definition coded_then_raw_scenario :: "gf2 decoder option" where
  "coded_then_raw_scenario = do {
     (st, sd, sv) \<leftarrow> decode True (initialize 4 2 2 16) (octets [0x66, 0x66]) [1, 1];
     decode_raw True st (octets [0xCC, 0xDD]) 1
   }"

text \<open>The state in which \<open>swap_decode\<close> calls \<open>decode_with_vector\<close>.\<close>

definition swap_state :: "'a::field decoder \<Rightarrow> 'a list \<Rightarrow> nat \<Rightarrow> 'a decoder" where
  "swap_state st sd i =
     st\<lparr> m_coded := (m_coded st)[i := False],
         m_vectors := (m_vectors st)[i := set_coefficient i (vector st i) 0],
         m_data := overwrite (m_data st) (symbol_offset st i) (subtract (symbol st i) sd) \<rparr>"


section \<open>Packets and sequences of calls\<close>

text \<open>
  A packet as the caller hands it over: a coded packet is a payload with its coefficient
  vector and goes to \<open>decode\<close>; a raw packet is a payload with the index of the source
  symbol it is and goes to \<open>decode_raw\<close>. \<open>fits\<close> says that the buffers have the sizes the
  decoder was initialised for.
\<close>

datatype 'a packet = Coded "'a list" "'a list" | Raw "'a list" nat

fun fits :: "('a, 'd, 'z) linear_block_decoder_scheme \<Rightarrow> 'a packet \<Rightarrow> bool" where
  "fits st (Coded symbol_data symbol_id) =
     (length symbol_data = symbol_length st \<and> length symbol_id = symbols st)"
| "fits st (Raw symbol_data symbol_index) = (length symbol_data = symbol_length st)"

fun absorb :: "bool \<Rightarrow> 'a::field decoder \<Rightarrow> 'a packet \<Rightarrow> 'a decoder option" where
  "absorb bin st (Coded symbol_data symbol_id) =
     map_option fst (decode bin st symbol_data symbol_id)"
| "absorb bin st (Raw symbol_data symbol_index) = decode_raw bin st symbol_data symbol_index"

fun absorb_all :: "bool \<Rightarrow> 'a::field decoder \<Rightarrow> 'a packet list \<Rightarrow> 'a decoder option" where
  "absorb_all bin st [] = Some st"
| "absorb_all bin st (pkt # pkts) =
     (if fits st pkt then
        (case absorb bin st pkt of None \<Rightarrow> None | Some st' \<Rightarrow> absorb_all bin st' pkts)
      else None)"

text \<open>
  Two symbols of one byte over the binary field, in a storage of two bytes, the first
  source symbol being \<open>AA\<close>: the state after the coded packet with coefficients \<open>10\<close> (it
  is the first source symbol, sent as a coded packet), and the state after the raw first
  symbol has then arrived as well.
\<close>

definition coded_first_state :: "gf2 decoder" where
  "coded_first_state = the (absorb_all True (initialize 2 2 1 8) [Coded (octet 0xAA) [1, 0]])"

definition swapped_first_state :: "gf2 decoder" where
  "swapped_first_state =
     the (absorb_all True (initialize 2 2 1 8) [Coded (octet 0xAA) [1, 0], Raw (octet 0xAA) 0])"


section \<open>Linear combinations of coefficient rows\<close>

text \<open>
  The span of a set \<open>B\<close> of rows of length \<open>k\<close>: the rows obtained from the zero row by
  subtracting multiples of rows of \<open>B\<close>, with the row operation of the field layer.
  \<open>stored_rows\<close> are the coefficient rows of the slots that are coded or uncoded.
\<close>

inductive_set row_span :: "nat \<Rightarrow> 'a::field list set \<Rightarrow> 'a list set"
  for k :: nat and B :: "'a list set" where
  span_zero: "zero_row k \<in> row_span k B"
| span_step: "u \<in> row_span k B \<Longrightarrow> b \<in> B \<Longrightarrow> length b = k
              \<Longrightarrow> multiply_subtract u b a \<in> row_span k B"

definition stored_rows :: "('a, 'd, 'z) linear_block_decoder_scheme \<Rightarrow> 'a list set" where
  "stored_rows st = {vector st j | j. j < symbols st \<and> symbol_exists st j}"

section \<open>Source symbols and genuine packets\<close>

text \<open>
  Modelled from the spec: the encoder is not among the sources. Section 1 has every
  incoming packet carry a linear combination of the \<open>k\<close> source symbols, described by its
  coefficient vector: \<open>encode m src sv\<close> is that combination, a payload of \<open>m\<close> elements,
  for the source symbols \<open>src\<close>.
\<close>

definition encode :: "nat \<Rightarrow> 'a::field list list \<Rightarrow> 'a list \<Rightarrow> 'a list" where
  "encode m src sv =
     map (\<lambda>c. sum_list (map (\<lambda>j. sv ! j * src ! j ! c) [0..<length src])) [0..<m]"

text \<open>
  A genuine coded packet carries the combination its coefficient vector describes; a
  genuine raw packet for index \<open>i\<close> carries source symbol \<open>i\<close>, and its coefficient vector
  is the elementary row \<open>e_i\<close>.
\<close>

fun genuine :: "nat \<Rightarrow> 'a::field list list \<Rightarrow> 'a packet \<Rightarrow> bool" where
  "genuine m src (Coded symbol_data symbol_id) =
     (length symbol_id = length src \<and> symbol_data = encode m src symbol_id)"
| "genuine m src (Raw symbol_data symbol_index) =
     (symbol_index < length src \<and> symbol_data = src ! symbol_index)"

fun packet_vector :: "nat \<Rightarrow> 'a::field packet \<Rightarrow> 'a list" where
  "packet_vector k (Coded symbol_data symbol_id) = symbol_id"
| "packet_vector k (Raw symbol_data symbol_index) = unit_row k symbol_index"


text \<open>
  The source symbols and the two packets of scenario 3 of the specification: the symbols
  \<open>AA BB\<close> and \<open>CC DD\<close>, the coded packet with coefficients \<open>11\<close>, and the second symbol
  as a raw packet.
\<close>

definition scenario_source :: "gf2 list list" where
  "scenario_source = [octets [0xAA, 0xBB], octets [0xCC, 0xDD]]"


section \<open>A block that does not fit the storage\<close>

text \<open>
  A decoder of the binary field built with \<open>construct(65537, 65536)\<close> and initialised for
  its 65537 symbols of 65536 bytes, which are 524288 field elements each. The product of
  the two arguments is \<open>2 ^ 32 + 65536\<close>: \<open>max_data_needed\<close> is 65536 bytes, the size of
  one row, and the byte offset of slot 65536 is \<open>65536 * 65536\<close> modulo \<open>2 ^ 32\<close>,
  which is 0, the offset of slot 0.
\<close>

definition wide_decoder :: "gf2 decoder" where
  "wide_decoder = initialize (max_data_needed 65537 65536) 65537 65536 524288"

text \<open>
  Source symbols for that decoder: symbol 65536 is the bytes \<open>FF ... FF\<close> and every other
  symbol is the bytes \<open>00 ... 00\<close>. The coded packet with the coefficients 1 at the
  columns 0 and 65536 then carries the payload \<open>FF ... FF\<close>.
\<close>

definition wide_source :: "gf2 list list" where
  "wide_source = (replicate 65537 (replicate 524288 0))[65536 := replicate 524288 1]"

definition wide_vector :: "gf2 list" where
  "wide_vector = (replicate 65537 0)[0 := 1, 65536 := 1]"

definition wide_coded_packet :: "gf2 packet" where
  "wide_coded_packet = Coded (replicate 524288 1) wide_vector"

text \<open>
  The states of that decoder after the coded packet; after the coded packet and the
  payload \<open>FF ... FF\<close> as raw symbol 65536; after the coded packet and the raw source
  symbol 0; and after the same two packets in the other order.
\<close>

definition wide_coded_state :: "gf2 decoder" where
  "wide_coded_state = the (absorb True wide_decoder wide_coded_packet)"

definition wide_aliased_state :: "gf2 decoder" where
  "wide_aliased_state = the (decode_raw True wide_coded_state (replicate 524288 1) 65536)"

definition wide_coded_then_raw_state :: "gf2 decoder" where
  "wide_coded_then_raw_state = the (absorb True wide_coded_state (Raw (wide_source ! 0) 0))"

definition wide_raw_then_coded_state :: "gf2 decoder" where
  "wide_raw_then_coded_state =
     the (absorb_all True wide_decoder [Raw (wide_source ! 0) 0, wide_coded_packet])"



section \<open>The decoder over a storage of separate rows\<close>

text \<open>
  For the proofs the elimination is restated over a payload storage that keeps the rows
  apart, as a list with one payload row for each slot: \<open>symbol_rows\<close> reads a row of
  that list and a write through the pointer is a list update. Everything else is as in
  the functions above, whose names these functions carry with the suffix \<open>rows\<close>.
  The section on the two storages shows that the decoder computes the same bit sets,
  counters and coefficient rows as these functions in every case, and the same payload
  rows whenever the block lies in the storage.
\<close>

type_synonym 'a row_decoder = "('a, 'a list list) linear_block_decoder"

definition symbol_rows :: "'a row_decoder \<Rightarrow> nat \<Rightarrow> 'a list" where
  "symbol_rows st i = m_data st ! i"

definition initialize_rows :: "nat \<Rightarrow> nat \<Rightarrow> 'a::field row_decoder" where
  "initialize_rows k m =
     \<lparr> symbols = k, symbol_length = m, m_rank = 0, m_maximum_pivot = 0,
       m_uncoded = replicate k False, m_coded = replicate k False,
       m_vectors = initialize_vectors k,
       m_data = replicate k (replicate m 0) \<rparr>"

fun forward_to_pivot_loop_rows ::
  "bool \<Rightarrow> 'a::field row_decoder \<Rightarrow> nat list \<Rightarrow> 'a list \<Rightarrow> 'a list
     \<Rightarrow> nat option \<times> 'a list \<times> 'a list" where
  "forward_to_pivot_loop_rows bin st [] symbol_data symbol_id = (None, symbol_data, symbol_id)"
| "forward_to_pivot_loop_rows bin st (i # idx) symbol_data symbol_id =
     (let current_coefficient = coefficient i symbol_id in
      if current_coefficient \<noteq> 0 then
        if symbol_exists st i then
          (let vector_i = vector st i; symbol_i = symbol_rows st i in
           if bin then
             forward_to_pivot_loop_rows bin st idx
               (subtract symbol_data symbol_i) (subtract symbol_id vector_i)
           else
             forward_to_pivot_loop_rows bin st idx
               (multiply_subtract symbol_data symbol_i current_coefficient)
               (multiply_subtract symbol_id vector_i current_coefficient))
        else (Some i, symbol_data, symbol_id)
      else forward_to_pivot_loop_rows bin st idx symbol_data symbol_id)"

definition forward_substitute_to_pivot_rows ::
  "bool \<Rightarrow> 'a::field row_decoder \<Rightarrow> 'a list \<Rightarrow> 'a list \<Rightarrow> nat option \<times> 'a list \<times> 'a list" where
  "forward_substitute_to_pivot_rows bin st symbol_data symbol_id =
     forward_to_pivot_loop_rows bin st [0..< symbols st] symbol_data symbol_id"

definition forward_from_pivot_step_rows ::
  "bool \<Rightarrow> 'a::field row_decoder \<Rightarrow> nat \<Rightarrow> 'a list \<times> 'a list \<Rightarrow> 'a list \<times> 'a list" where
  "forward_from_pivot_step_rows bin st i buf =
     (case buf of (symbol_data, symbol_id) \<Rightarrow>
        let val = coefficient i symbol_id in
        if val = 0 then (symbol_data, symbol_id)
        else if symbol_exists st i then
          (let vector_i = vector st i; symbol_i = symbol_rows st i in
           if bin then (subtract symbol_data symbol_i, subtract symbol_id vector_i)
           else (multiply_subtract symbol_data symbol_i val,
                 multiply_subtract symbol_id vector_i val))
        else (symbol_data, symbol_id))"

definition forward_substitute_from_pivot_rows ::
  "bool \<Rightarrow> 'a::field row_decoder \<Rightarrow> 'a list \<Rightarrow> 'a list \<Rightarrow> nat \<Rightarrow> ('a list \<times> 'a list) option" where
  "forward_substitute_from_pivot_rows bin st symbol_data symbol_id pivot_index = do {
     assert_that (pivot_index < symbols st);
     assert_that (m_uncoded st ! pivot_index = False);
     assert_that (m_coded st ! pivot_index = False);
     Some (fold (forward_from_pivot_step_rows bin st)
             [pivot_index + 1 ..< m_maximum_pivot st + 1] (symbol_data, symbol_id))
   }"

definition backward_step_rows ::
  "bool \<Rightarrow> 'a::field list \<Rightarrow> 'a list \<Rightarrow> nat \<Rightarrow> nat \<Rightarrow> 'a row_decoder \<Rightarrow> 'a row_decoder" where
  "backward_step_rows bin symbol_data symbol_id pivot_index i st =
     (if m_uncoded st ! i then st
      else if i = pivot_index then st
      else if m_coded st ! i then
        (let vector_i = vector st i; val = coefficient pivot_index vector_i in
         if val \<noteq> 0 then
           (let symbol_i = symbol_rows st i in
            if bin then
              st\<lparr> m_vectors := (m_vectors st)[i := subtract vector_i symbol_id],
                  m_data := (m_data st)[i := subtract symbol_i symbol_data] \<rparr>
            else
              st\<lparr> m_vectors := (m_vectors st)[i := multiply_subtract vector_i symbol_id val],
                  m_data := (m_data st)[i := multiply_subtract symbol_i symbol_data val] \<rparr>)
         else st)
      else st)"

definition backward_substitute_rows ::
  "bool \<Rightarrow> 'a::field row_decoder \<Rightarrow> 'a list \<Rightarrow> 'a list \<Rightarrow> nat \<Rightarrow> 'a row_decoder option" where
  "backward_substitute_rows bin st symbol_data symbol_id pivot_index = do {
     assert_that (pivot_index < symbols st);
     Some (fold (backward_step_rows bin symbol_data symbol_id pivot_index)
             [0 ..< m_maximum_pivot st + 1] st)
   }"

definition store_coded_symbol_rows ::
  "'a row_decoder \<Rightarrow> 'a list \<Rightarrow> 'a list \<Rightarrow> nat \<Rightarrow> 'a row_decoder option" where
  "store_coded_symbol_rows st symbol_data symbol_id pivot_index = do {
     assert_that (m_uncoded st ! pivot_index = False);
     assert_that (m_coded st ! pivot_index = False);
     Some (st\<lparr> m_vectors := (m_vectors st)[pivot_index := symbol_id],
               m_data := (m_data st)[pivot_index := symbol_data] \<rparr>)
   }"

definition store_uncoded_symbol_rows ::
  "'a::field row_decoder \<Rightarrow> 'a list \<Rightarrow> nat \<Rightarrow> 'a row_decoder option" where
  "store_uncoded_symbol_rows st symbol_data pivot_index = do {
     assert_that (m_uncoded st ! pivot_index = False);
     assert_that (m_coded st ! pivot_index = False);
     let vector_dest = vector st pivot_index;
     Some (st\<lparr> m_data := (m_data st)[pivot_index := symbol_data],
               m_vectors := (m_vectors st)[pivot_index := set_coefficient pivot_index vector_dest 1] \<rparr>)
   }"

definition decode_with_vector_rows ::
  "bool \<Rightarrow> 'a::field row_decoder \<Rightarrow> 'a list \<Rightarrow> 'a list
     \<Rightarrow> ('a row_decoder \<times> 'a list \<times> 'a list) option" where
  "decode_with_vector_rows bin st symbol_data symbol_id =
     (case forward_substitute_to_pivot_rows bin st symbol_data symbol_id of
        (None, sd, sv) \<Rightarrow> Some (st, sd, sv)
      | (Some pivot_index, sd, sv) \<Rightarrow> do {
          (sd1, sv1) \<leftarrow> (if \<not> bin then normalize_symbol st sd sv pivot_index else Some (sd, sv));
          (sd2, sv2) \<leftarrow> forward_substitute_from_pivot_rows bin st sd1 sv1 pivot_index;
          st1 \<leftarrow> backward_substitute_rows bin st sd2 sv2 pivot_index;
          st2 \<leftarrow> store_coded_symbol_rows st1 sd2 sv2 pivot_index;
          let st3 = st2\<lparr> m_rank := m_rank st2 + 1 \<rparr>;
          let st4 = st3\<lparr> m_coded := (m_coded st3)[pivot_index := True] \<rparr>;
          Some (if pivot_index > m_maximum_pivot st4
                then st4\<lparr> m_maximum_pivot := pivot_index \<rparr> else st4, sd2, sv2)
        })"

definition decode_rows ::
  "bool \<Rightarrow> 'a::field row_decoder \<Rightarrow> 'a list \<Rightarrow> 'a list
     \<Rightarrow> ('a row_decoder \<times> 'a list \<times> 'a list) option" where
  "decode_rows bin st symbol_data symbol_id = decode_with_vector_rows bin st symbol_data symbol_id"

definition swap_decode_rows ::
  "bool \<Rightarrow> 'a::field row_decoder \<Rightarrow> 'a list \<Rightarrow> nat \<Rightarrow> 'a row_decoder option" where
  "swap_decode_rows bin st symbol_data pivot_index = do {
     assert_that (m_coded st ! pivot_index = True);
     assert_that (m_uncoded st ! pivot_index = False);
     let st1 = st\<lparr> m_coded := (m_coded st)[pivot_index := False] \<rparr>;
     let symbol_i = symbol_rows st1 pivot_index;
     let vector_i = vector st1 pivot_index;
     let val = coefficient pivot_index vector_i;
     assert_that (val = 1);
     let vector_i = set_coefficient pivot_index vector_i 0;
     let symbol_i = subtract symbol_i symbol_data;
     let st2 = st1\<lparr> m_vectors := (m_vectors st1)[pivot_index := vector_i],
                    m_data := (m_data st1)[pivot_index := symbol_i] \<rparr>;
     (st3, symbol_i, vector_i) \<leftarrow> decode_with_vector_rows bin st2 symbol_i vector_i;
     let st4 = st3\<lparr> m_vectors := (m_vectors st3)[pivot_index := vector_i],
                    m_data := (m_data st3)[pivot_index := symbol_i] \<rparr>;
     let st5 = st4\<lparr> m_vectors :=
                      (m_vectors st4)[pivot_index := replicate (vector_length st4) 0] \<rparr>;
     st6 \<leftarrow> store_uncoded_symbol_rows st5 symbol_data pivot_index;
     Some (st6\<lparr> m_uncoded := (m_uncoded st6)[pivot_index := True] \<rparr>)
   }"

definition decode_raw_rows ::
  "bool \<Rightarrow> 'a::field row_decoder \<Rightarrow> 'a list \<Rightarrow> nat \<Rightarrow> 'a row_decoder option" where
  "decode_raw_rows bin st symbol_data symbol_index = do {
     assert_that (symbol_index < symbols st);
     if m_uncoded st ! symbol_index then Some st
     else if m_coded st ! symbol_index then swap_decode_rows bin st symbol_data symbol_index
     else do {
       st1 \<leftarrow> store_uncoded_symbol_rows st symbol_data symbol_index;
       let vector = vector st1 symbol_index;
       st2 \<leftarrow> backward_substitute_rows bin st1 symbol_data vector symbol_index;
       let st3 = st2\<lparr> m_rank := m_rank st2 + 1 \<rparr>;
       let st4 = st3\<lparr> m_uncoded := (m_uncoded st3)[symbol_index := True] \<rparr>;
       Some (if symbol_index > m_maximum_pivot st4
             then st4\<lparr> m_maximum_pivot := symbol_index \<rparr> else st4)
     }
   }"

inductive reachable_rows :: "bool \<Rightarrow> 'a::field row_decoder \<Rightarrow> bool" for bin :: bool where
  reachable_rows_initialize:
    "0 < k \<Longrightarrow> (bin \<longrightarrow> (\<forall>x::'a. x = 0 \<or> x = 1)) \<Longrightarrow> reachable_rows bin (initialize_rows k m)"
| reachable_rows_decode:
    "reachable_rows bin st \<Longrightarrow> length symbol_data = symbol_length st
     \<Longrightarrow> length symbol_id = symbols st
     \<Longrightarrow> decode_rows bin st symbol_data symbol_id = Some (st', sd', sv')
     \<Longrightarrow> reachable_rows bin st'"
| reachable_rows_decode_raw:
    "reachable_rows bin st \<Longrightarrow> length symbol_data = symbol_length st
     \<Longrightarrow> decode_raw_rows bin st symbol_data symbol_index = Some st'
     \<Longrightarrow> reachable_rows bin st'"

text \<open>
  What holds of the states of this decoder between calls: the sizes of its bit sets and
  rows, the shape of the coefficient rows, and the rank.
\<close>

definition well_formed :: "'a row_decoder \<Rightarrow> bool" where
  "well_formed st =
     (0 < symbols st \<and> m_maximum_pivot st < symbols st \<and>
      length (m_uncoded st) = symbols st \<and> length (m_coded st) = symbols st \<and>
      length (m_vectors st) = symbols st \<and> length (m_data st) = symbols st \<and>
      (\<forall>i< symbols st. length (vector st i) = symbols st) \<and>
      (\<forall>i< symbols st. length (symbol_rows st i) = symbol_length st))"

definition decoder_inv :: "'a::field row_decoder \<Rightarrow> bool" where
  "decoder_inv st =
     (well_formed st \<and> echelon {} st \<and> blank_rows st \<and> m_rank st = occupied_count st)"

definition swap_state_rows :: "'a::field row_decoder \<Rightarrow> 'a list \<Rightarrow> nat \<Rightarrow> 'a row_decoder" where
  "swap_state_rows st sd i =
     st\<lparr> m_coded := (m_coded st)[i := False],
         m_vectors := (m_vectors st)[i := set_coefficient i (vector st i) 0],
         m_data := (m_data st)[i := subtract (symbol_rows st i) sd] \<rparr>"

fun absorb_rows :: "bool \<Rightarrow> 'a::field row_decoder \<Rightarrow> 'a packet \<Rightarrow> 'a row_decoder option" where
  "absorb_rows bin st (Coded symbol_data symbol_id) =
     map_option fst (decode_rows bin st symbol_data symbol_id)"
| "absorb_rows bin st (Raw symbol_data symbol_index) = decode_raw_rows bin st symbol_data symbol_index"

fun absorb_all_rows :: "bool \<Rightarrow> 'a::field row_decoder \<Rightarrow> 'a packet list \<Rightarrow> 'a row_decoder option" where
  "absorb_all_rows bin st [] = Some st"
| "absorb_all_rows bin st (pkt # pkts) =
     (if fits st pkt then
        (case absorb_rows bin st pkt of None \<Rightarrow> None | Some st' \<Rightarrow> absorb_all_rows bin st' pkts)
      else None)"

text \<open>Every stored payload row is the combination its coefficient row describes.\<close>

definition consistent_row :: "nat \<Rightarrow> 'a::field list list \<Rightarrow> 'a list \<Rightarrow> 'a list \<Rightarrow> bool" where
  "consistent_row m src sd sv = (length sv = length src \<and> sd = encode m src sv)"

definition consistent :: "'a::field list list \<Rightarrow> 'a row_decoder \<Rightarrow> bool" where
  "consistent src st =
     (\<forall>j< symbols st. symbol_exists st j \<longrightarrow>
        consistent_row (symbol_length st) src (symbol_rows st j) (vector st j))"

section \<open>The two storages\<close>

text \<open>
  A state of the decoder and a state of the decoder over separate rows agree when their
  bit sets, counters and coefficient rows are the same. Their payloads agree when the byte
  offsets of the rows do not wrap and \<open>m_data\<close> is the concatenation of the separate
  rows, followed by a rest \<open>rest\<close> that belongs to no slot of the block. \<open>related b rest\<close>
  asks for the payloads to agree only if \<open>b\<close> holds; a pair of payload buffers is
  related in the same way.
\<close>

definition same_fields :: "'a decoder \<Rightarrow> 'a row_decoder \<Rightarrow> bool" where
  "same_fields st r =
     (symbols st = symbols r \<and> symbol_length st = symbol_length r \<and>
      m_rank st = m_rank r \<and> m_maximum_pivot st = m_maximum_pivot r \<and>
      m_uncoded st = m_uncoded r \<and> m_coded st = m_coded r \<and> m_vectors st = m_vectors r)"

definition same_payload :: "'a list \<Rightarrow> 'a decoder \<Rightarrow> 'a row_decoder \<Rightarrow> bool" where
  "same_payload rest st r =
     (0 < symbol_size st \<and> symbols st * symbol_size st < 2 ^ 32 \<and>
      length (m_data r) = symbols st \<and>
      (\<forall>x\<in>set (m_data r). length x = symbol_length st) \<and>
      m_data st = concat (m_data r) @ rest)"

definition related :: "bool \<Rightarrow> 'a list \<Rightarrow> 'a decoder \<Rightarrow> 'a row_decoder \<Rightarrow> bool" where
  "related b rest st r = (same_fields st r \<and> (b \<longrightarrow> same_payload rest st r))"

definition related_buffers :: "bool \<Rightarrow> nat \<Rightarrow> 'a list \<Rightarrow> 'a list \<Rightarrow> bool" where
  "related_buffers b m x y = (b \<longrightarrow> x = y \<and> length x = m)"

text \<open>The geometry of a decoder: what no call of \<open>decode\<close> or \<open>decode_raw\<close> changes.\<close>

definition geometry :: "'a decoder \<Rightarrow> nat \<times> nat \<times> nat \<times> nat" where
  "geometry st = (symbols st, symbol_size st, symbol_length st, length (m_data st))"

section \<open>Rows, assertions and the build-time flag\<close>


lemma assert_that_simps [simp]:
  "assert_that True = Some ()" "assert_that False = None"
  "(assert_that b = Some u) = b" "(assert_that b = None) = (\<not> b)"
  by (simp_all add: assert_that_def)

lemma length_subtract [simp]: "length (subtract a b) = min (length a) (length b)"
  by (simp add: subtract_def)

lemma nth_subtract [simp]:
  "i < length a \<Longrightarrow> i < length b \<Longrightarrow> subtract a b ! i = a ! i - b ! i"
  by (simp add: subtract_def)

lemma length_multiply [simp]: "length (multiply a c) = length a"
  by (simp add: multiply_def)

lemma nth_multiply [simp]: "i < length a \<Longrightarrow> multiply a c ! i = a ! i * c"
  by (simp add: multiply_def)

lemma length_multiply_subtract [simp]:
  "length (multiply_subtract a b c) = min (length a) (length b)"
  by (simp add: multiply_subtract_def)

lemma nth_multiply_subtract [simp]:
  "i < length a \<Longrightarrow> i < length b \<Longrightarrow> multiply_subtract a b c ! i = a ! i - b ! i * c"
  by (simp add: multiply_subtract_def)

lemma multiply_subtract_one: "multiply_subtract a b 1 = subtract a b"
  by (simp add: multiply_subtract_def subtract_def)

lemma multiply_invert_one: "multiply a (invert 1) = a"
  by (simp add: multiply_def invert_def)

lemma length_unit_row [simp]: "length (unit_row k i) = k"
  by (simp add: unit_row_def)

lemma nth_unit_row [simp]: "j < k \<Longrightarrow> unit_row k i ! j = (if j = i then 1 else 0)"
  by (simp add: unit_row_def nth_list_update)

lemma length_zero_row [simp]: "length (zero_row k) = k"
  by (simp add: zero_row_def)

lemma nth_zero_row [simp]: "j < k \<Longrightarrow> zero_row k ! j = 0"
  by (simp add: zero_row_def)

lemma forward_to_pivot_loop_rows_pivot:
  "forward_to_pivot_loop_rows bin st idx sd sv = (Some p, sd', sv')
   \<Longrightarrow> p \<in> set idx \<and> \<not> symbol_exists st p \<and> coefficient p sv' \<noteq> 0"
proof (induction idx arbitrary: sd sv)
  case Nil
  then show ?case by simp
next
  case (Cons i idx)
  then show ?case
    by (auto simp: Let_def split: if_splits)
qed

text \<open>In the binary field the flag selects code that computes the same.\<close>

lemma forward_to_pivot_loop_flag:
  assumes "\<And>x::'a::field. x = 0 \<or> x = 1"
  shows "forward_to_pivot_loop_rows True st idx sd (sv :: 'a list) = forward_to_pivot_loop_rows False st idx sd sv"
proof (induction idx arbitrary: sd sv)
  case Nil
  show ?case by simp
next
  case (Cons i idx)
  show ?case
    using assms [of "coefficient i sv"] Cons.IH
    by (auto simp: Let_def multiply_subtract_one)
qed

lemma forward_from_pivot_step_flag:
  assumes "\<And>x::'a::field. x = 0 \<or> x = 1"
  shows "forward_from_pivot_step_rows True st i (buf :: 'a list \<times> 'a list) = forward_from_pivot_step_rows False st i buf"
proof -
  obtain sd sv where buf: "buf = (sd, sv)" by (cases buf)
  show ?thesis
    using assms [of "coefficient i sv"]
    by (auto simp: buf forward_from_pivot_step_rows_def Let_def multiply_subtract_one)
qed

lemma backward_step_flag:
  assumes "\<And>x::'a::field. x = 0 \<or> x = 1"
  shows "backward_step_rows True sd (sv :: 'a list) p i st = backward_step_rows False sd sv p i st"
proof -
  show ?thesis
    using assms [of "coefficient p (vector st i)"]
    by (auto simp: backward_step_rows_def Let_def multiply_subtract_one)
qed

lemma decode_with_vector_flag:
  assumes "\<And>x::'a::field. x = 0 \<or> x = 1"
  shows "decode_with_vector_rows True st sd (sv :: 'a list) = decode_with_vector_rows False st sd sv"
proof -
  have hstep: "forward_from_pivot_step_rows True st = (forward_from_pivot_step_rows False st :: nat \<Rightarrow> 'a list \<times> 'a list \<Rightarrow> _)"
    using forward_from_pivot_step_flag [OF assms] by (intro ext) simp
  have hback: "\<And>sd (sv :: 'a list) p. backward_step_rows True sd sv p = backward_step_rows False sd sv p"
    using backward_step_flag [OF assms] by (intro ext) simp
  obtain po sd' sv' where r: "forward_substitute_to_pivot_rows False st sd sv = (po, sd', sv')"
    by (cases "forward_substitute_to_pivot_rows False st sd sv") auto
  have r': "forward_substitute_to_pivot_rows True st sd sv = (po, sd', sv')"
    using r forward_to_pivot_loop_flag [OF assms] by (simp add: forward_substitute_to_pivot_rows_def)
  show ?thesis
  proof (cases po)
    case None
    then show ?thesis using r r' by (simp add: decode_with_vector_rows_def)
  next
    case (Some p)
    from r Some have piv: "p \<in> set [0..< symbols st]" "\<not> symbol_exists st p" "coefficient p sv' \<noteq> 0"
      using forward_to_pivot_loop_rows_pivot [of False st "[0..< symbols st]" sd sv p sd' sv']
      by (simp_all add: forward_substitute_to_pivot_rows_def)
    have one: "coefficient p sv' = 1"
      using assms [of "coefficient p sv'"] piv(3) by simp
    have norm: "normalize_symbol st sd' sv' p = Some (sd', sv')"
      using piv one by (simp add: normalize_symbol_def symbol_exists_def Let_def multiply_invert_one)
    show ?thesis
      using r r' Some norm
      by (simp add: decode_with_vector_rows_def forward_substitute_from_pivot_rows_def
          backward_substitute_rows_def hstep hback)
  qed
qed

lemma swap_decode_flag:
  assumes "\<And>x::'a::field. x = 0 \<or> x = 1"
  shows "swap_decode_rows True st (sd :: 'a list) i = swap_decode_rows False st sd i"
  by (simp add: swap_decode_rows_def decode_with_vector_flag [OF assms])

lemma decode_raw_flag:
  assumes "\<And>x::'a::field. x = 0 \<or> x = 1"
  shows "decode_raw_rows True st (sd :: 'a list) i = decode_raw_rows False st sd i"
proof -
  have hback: "\<And>sd (sv :: 'a list) p. backward_step_rows True sd sv p = backward_step_rows False sd sv p"
    using backward_step_flag [OF assms] by (intro ext) simp
  show ?thesis
    by (simp add: decode_raw_rows_def swap_decode_flag [OF assms] backward_substitute_rows_def hback)
qed


lemma echelon_row:
  assumes "well_formed st" "echelon R st" "i < symbols st" "symbol_exists st i"
  shows "vector st i ! i = 1"
    and "\<And>j. j < i \<Longrightarrow> vector st i ! j = 0"
    and "\<And>j. j < symbols st \<Longrightarrow> j \<noteq> i \<Longrightarrow> symbol_exists st j \<or> j \<in> R \<Longrightarrow> vector st i ! j = 0"
    and "i \<notin> R" and "i \<le> m_maximum_pivot st" and "length (vector st i) = symbols st"
proof -
  from assms have e:
    "m_uncoded st ! i \<longrightarrow> \<not> m_coded st ! i \<and> vector st i = unit_row (symbols st) i"
    "m_coded st ! i \<longrightarrow>
       vector st i ! i = 1 \<and> (\<forall>j<i. vector st i ! j = 0) \<and>
       (\<forall>j< symbols st. j \<noteq> i \<longrightarrow> symbol_exists st j \<or> j \<in> R \<longrightarrow> vector st i ! j = 0)"
    "i \<le> m_maximum_pivot st \<and> i \<notin> R"
    unfolding echelon_def by blast+
  show "i \<notin> R" "i \<le> m_maximum_pivot st" using e(3) by simp_all
  show "length (vector st i) = symbols st" using assms(1,3) by (simp add: well_formed_def)
  show "vector st i ! i = 1"
    using e(1,2) assms(3,4) by (auto simp: symbol_exists_def)
  show "vector st i ! j = 0" if "j < i" for j
    using e(1,2) assms(3,4) that by (auto simp: symbol_exists_def)
  show "vector st i ! j = 0" if "j < symbols st" "j \<noteq> i" "symbol_exists st j \<or> j \<in> R" for j
    using e(1,2) assms(3,4) that by (auto simp: symbol_exists_def)
qed

lemma forward_to_pivot_loop_Cons:
  "forward_to_pivot_loop_rows False st (i # idx) sd sv =
     (if sv ! i \<noteq> 0 then
        if symbol_exists st i then
          forward_to_pivot_loop_rows False st idx
            (multiply_subtract sd (symbol_rows st i) (sv ! i))
            (multiply_subtract sv (vector st i) (sv ! i))
        else (Some i, sd, sv)
      else forward_to_pivot_loop_rows False st idx sd sv)"
  by (simp add: Let_def coefficient_def)

lemma forward_to_pivot_loop_shape:
  assumes wf: "well_formed st" and ech: "echelon R st"
  shows "length sv = symbols st \<Longrightarrow> length sd = symbol_length st
    \<Longrightarrow> \<forall>c<a. sv ! c = 0 \<Longrightarrow> \<forall>c\<in>R. c < symbols st \<longrightarrow> sv ! c = 0
    \<Longrightarrow> forward_to_pivot_loop_rows False st [a..< symbols st] sd sv = (po, sd', sv')
    \<Longrightarrow> length sv' = symbols st \<and> length sd' = symbol_length st \<and>
        (\<forall>c\<in>R. c < symbols st \<longrightarrow> sv' ! c = 0) \<and>
        (case po of
           None \<Rightarrow> \<forall>c< symbols st. sv' ! c = 0
         | Some p \<Rightarrow> a \<le> p \<and> p < symbols st \<and> \<not> symbol_exists st p \<and> sv' ! p \<noteq> 0 \<and>
                     (\<forall>c<p. sv' ! c = 0))"
proof (induction "symbols st - a" arbitrary: a sd sv)
  case 0
  then have "[a..< symbols st] = []" by simp
  with 0 show ?case by auto
next
  case (Suc n)
  then have a: "a < symbols st" by simp
  then have upt: "[a..< symbols st] = a # [Suc a..< symbols st]"
    by (simp add: upt_conv_Cons)
  have n: "n = symbols st - Suc a" using Suc(2) by simp
  show ?case
  proof (cases "sv ! a = 0")
    case True
    have z: "\<forall>c<Suc a. sv ! c = 0" using Suc.prems(3) True by (simp add: less_Suc_eq)
    have run: "forward_to_pivot_loop_rows False st [Suc a..< symbols st] sd sv = (po, sd', sv')"
      using Suc.prems(5) True by (simp add: upt forward_to_pivot_loop_Cons del: forward_to_pivot_loop_rows.simps)
    from Suc.hyps(1) [OF n Suc.prems(1,2) z Suc.prems(4) run]
    show ?thesis by (auto split: option.splits)
  next
    case nz: False
    show ?thesis
    proof (cases "symbol_exists st a")
      case False
      then have "(po, sd', sv') = (Some a, sd, sv)"
        using Suc.prems(5) nz by (simp add: upt forward_to_pivot_loop_Cons del: forward_to_pivot_loop_rows.simps)
      then show ?thesis using Suc.prems nz a False by auto
    next
      case True
      note row = echelon_row [OF wf ech a True]
      let ?sv1 = "multiply_subtract sv (vector st a) (sv ! a)"
      let ?sd1 = "multiply_subtract sd (symbol_rows st a) (sv ! a)"
      have len: "length ?sv1 = symbols st" "length ?sd1 = symbol_length st"
        using Suc.prems(1,2) row(6) wf a by (simp_all add: well_formed_def)
      have z: "\<forall>c<Suc a. ?sv1 ! c = 0"
      proof (intro allI impI)
        fix c assume c: "c < Suc a"
        then have "c < symbols st" using a by simp
        then have "?sv1 ! c = sv ! c - vector st a ! c * sv ! a"
          using Suc.prems(1) row(6) by simp
        then show "?sv1 ! c = 0"
          using c Suc.prems(3) row(1,2) by (cases "c = a") auto
      qed
      have r: "\<forall>c\<in>R. c < symbols st \<longrightarrow> ?sv1 ! c = 0"
      proof (intro ballI impI)
        fix c assume c: "c \<in> R" "c < symbols st"
        then have "c \<noteq> a" using row(4) by auto
        then have "vector st a ! c = 0" using row(3) c by simp
        then show "?sv1 ! c = 0"
          using c Suc.prems(1,4) row(6) by simp
      qed
      have run: "forward_to_pivot_loop_rows False st [Suc a..< symbols st] ?sd1 ?sv1 = (po, sd', sv')"
        using Suc.prems(5) nz True by (simp add: upt forward_to_pivot_loop_Cons del: forward_to_pivot_loop_rows.simps)
      from Suc.hyps(1) [OF n len z r run]
      show ?thesis by (auto split: option.splits)
    qed
  qed
qed

lemma forward_from_pivot_step_False:
  "forward_from_pivot_step_rows False st i (sd, sv) =
     (if sv ! i \<noteq> 0 \<and> symbol_exists st i
      then (multiply_subtract sd (symbol_rows st i) (sv ! i),
            multiply_subtract sv (vector st i) (sv ! i))
      else (sd, sv))"
  by (simp add: forward_from_pivot_step_rows_def Let_def coefficient_def)

lemma forward_from_pivot_fold_shape:
  assumes wf: "well_formed st" and ech: "echelon R st" and p: "p < symbols st"
    and len: "length sv = symbols st" "length sd = symbol_length st"
    and low: "\<forall>c<p. sv ! c = 0" and one: "sv ! p = 1"
    and res: "\<forall>c\<in>R. c < symbols st \<longrightarrow> sv ! c = 0"
  shows "n \<le> symbols st
    \<Longrightarrow> fold (forward_from_pivot_step_rows False st) [Suc p..<n] (sd, sv) = (sd', sv')
    \<Longrightarrow> length sv' = symbols st \<and> length sd' = symbol_length st \<and>
        (\<forall>c<p. sv' ! c = 0) \<and> sv' ! p = 1 \<and>
        (\<forall>c\<in>R. c < symbols st \<longrightarrow> sv' ! c = 0) \<and>
        (\<forall>c. p < c \<and> c < n \<and> symbol_exists st c \<longrightarrow> sv' ! c = 0)"
proof (induction n arbitrary: sd' sv')
  case 0
  then show ?case using len low one res by simp
next
  case (Suc n)
  show ?case
  proof (cases "Suc p \<le> n")
    case False
    then have "[Suc p..<Suc n] = []" by simp
    with Suc.prems have "sd' = sd" "sv' = sv" by simp_all
    with False show ?thesis using len low one res by auto
  next
    case True
    obtain sd1 sv1 where f: "fold (forward_from_pivot_step_rows False st) [Suc p..<n] (sd, sv) = (sd1, sv1)"
      by (cases "fold (forward_from_pivot_step_rows False st) [Suc p..<n] (sd, sv)") auto
    have n: "n < symbols st" "n \<le> symbols st" using Suc.prems(1) by simp_all
    from Suc.IH [OF n(2) f] have ih:
      "length sv1 = symbols st" "length sd1 = symbol_length st"
      "\<forall>c<p. sv1 ! c = 0" "sv1 ! p = 1"
      "\<forall>c\<in>R. c < symbols st \<longrightarrow> sv1 ! c = 0"
      "\<forall>c. p < c \<and> c < n \<and> symbol_exists st c \<longrightarrow> sv1 ! c = 0"
      by simp_all
    have last: "forward_from_pivot_step_rows False st n (sd1, sv1) = (sd', sv')"
      using Suc.prems(2) True f by simp
    show ?thesis
    proof (cases "sv1 ! n \<noteq> 0 \<and> symbol_exists st n")
      case False
      then have eq: "sd' = sd1" "sv' = sv1"
        using last by (auto simp: forward_from_pivot_step_False)
      have "sv1 ! c = 0" if "p < c" "c < Suc n" "symbol_exists st c" for c
        using that ih(6) False by (cases "c = n") auto
      then show ?thesis using ih eq by auto
    next
      case occ: True
      then have ex: "symbol_exists st n" by simp
      note row = echelon_row [OF wf ech n(1) ex]
      have eq: "sd' = multiply_subtract sd1 (symbol_rows st n) (sv1 ! n)"
        "sv' = multiply_subtract sv1 (vector st n) (sv1 ! n)"
        using last occ by (auto simp: forward_from_pivot_step_False)
      have nth: "sv' ! c = sv1 ! c - vector st n ! c * sv1 ! n" if "c < symbols st" for c
        using that ih(1) row(6) by (simp add: eq)
      have pn: "p < n" using True by simp
      have A: "length sv' = symbols st" "length sd' = symbol_length st"
        using ih(1,2) row(6) wf n(1) by (simp_all add: eq well_formed_def)
      have B: "\<forall>c<p. sv' ! c = 0"
        using nth ih(3) row(2) pn p by auto
      have C: "sv' ! p = 1"
        using nth [OF p] ih(4) row(2) [OF pn] by simp
      have D: "\<forall>c\<in>R. c < symbols st \<longrightarrow> sv' ! c = 0"
      proof (intro ballI impI)
        fix c assume c: "c \<in> R" "c < symbols st"
        then have "c \<noteq> n" using row(4) by auto
        then have "vector st n ! c = 0" using row(3) c by simp
        then show "sv' ! c = 0" using nth c ih(5) by simp
      qed
      have E: "\<forall>c. p < c \<and> c < Suc n \<and> symbol_exists st c \<longrightarrow> sv' ! c = 0"
      proof (intro allI impI)
        fix c assume c: "p < c \<and> c < Suc n \<and> symbol_exists st c"
        show "sv' ! c = 0"
        proof (cases "c = n")
          case True
          then show ?thesis using nth [OF n(1)] row(1) by simp
        next
          case False
          then have "c < n" using c by simp
          then have "vector st n ! c = 0" "sv1 ! c = 0" "c < symbols st"
            using row(2) ih(6) c n by auto
          then show ?thesis using nth by simp
        qed
      qed
      show ?thesis using A B C D E by blast
    qed
  qed
qed

lemma backward_step_False:
  "backward_step_rows False sd sv p i st =
     (if \<not> m_uncoded st ! i \<and> i \<noteq> p \<and> m_coded st ! i \<and> vector st i ! p \<noteq> 0
      then st\<lparr> m_vectors := (m_vectors st)[i := multiply_subtract (vector st i) sv (vector st i ! p)],
               m_data := (m_data st)[i := multiply_subtract (symbol_rows st i) sd (vector st i ! p)] \<rparr>
      else st)"
  by (simp add: backward_step_rows_def Let_def coefficient_def)

lemma backward_fold_fields:
  "symbols (fold (backward_step_rows False sd sv p) idx st) = symbols st \<and>
   symbol_length (fold (backward_step_rows False sd sv p) idx st) = symbol_length st \<and>
   m_rank (fold (backward_step_rows False sd sv p) idx st) = m_rank st \<and>
   m_maximum_pivot (fold (backward_step_rows False sd sv p) idx st) = m_maximum_pivot st \<and>
   m_uncoded (fold (backward_step_rows False sd sv p) idx st) = m_uncoded st \<and>
   m_coded (fold (backward_step_rows False sd sv p) idx st) = m_coded st \<and>
   length (m_vectors (fold (backward_step_rows False sd sv p) idx st)) = length (m_vectors st) \<and>
   length (m_data (fold (backward_step_rows False sd sv p) idx st)) = length (m_data st)"
  by (induction idx arbitrary: st) (simp_all add: backward_step_False)

lemma backward_fold_rows:
  assumes len: "length (m_data st) = length (m_vectors st)"
  shows "n \<le> length (m_vectors st) \<Longrightarrow> j < length (m_vectors st) \<Longrightarrow>
         vector (fold (backward_step_rows False sd sv p) [0..<n] st) j =
           (if j < n \<and> \<not> m_uncoded st ! j \<and> j \<noteq> p \<and> m_coded st ! j \<and> vector st j ! p \<noteq> 0
            then multiply_subtract (vector st j) sv (vector st j ! p) else vector st j) \<and>
         symbol_rows (fold (backward_step_rows False sd sv p) [0..<n] st) j =
           (if j < n \<and> \<not> m_uncoded st ! j \<and> j \<noteq> p \<and> m_coded st ! j \<and> vector st j ! p \<noteq> 0
            then multiply_subtract (symbol_rows st j) sd (vector st j ! p) else symbol_rows st j)"
proof (induction n arbitrary: j)
  case 0
  show ?case by simp
next
  case (Suc n)
  let ?st = "fold (backward_step_rows False sd sv p) [0..<n] st"
  note f = backward_fold_fields [of sd sv p "[0..<n]" st]
  have n: "n < length (m_vectors st)" "n \<le> length (m_vectors st)" using Suc.prems by simp_all
  have rown: "vector ?st n = vector st n" "symbol_rows ?st n = symbol_rows st n"
    using Suc.IH [OF n(2) n(1)] by simp_all
  have ih: "vector ?st j =
           (if j < n \<and> \<not> m_uncoded st ! j \<and> j \<noteq> p \<and> m_coded st ! j \<and> vector st j ! p \<noteq> 0
            then multiply_subtract (vector st j) sv (vector st j ! p) else vector st j)"
     "symbol_rows ?st j =
           (if j < n \<and> \<not> m_uncoded st ! j \<and> j \<noteq> p \<and> m_coded st ! j \<and> vector st j ! p \<noteq> 0
            then multiply_subtract (symbol_rows st j) sd (vector st j ! p) else symbol_rows st j)"
    using Suc.IH [OF n(2) Suc.prems(2)] by simp_all
  have unf: "fold (backward_step_rows False sd sv p) [0..<Suc n] st = backward_step_rows False sd sv p n ?st"
    by simp
  have jl: "j < length (m_vectors ?st)" "j < length (m_data ?st)"
    "n < length (m_vectors ?st)" "n < length (m_data ?st)"
    using f Suc.prems(2) n len by simp_all
  show ?case
  proof (cases "j = n")
    case True
    show ?thesis
      unfolding unf using jl rown f True
      by (simp add: backward_step_False vector_def symbol_rows_def)
  next
    case False
    have "vector (backward_step_rows False sd sv p n ?st) j = vector ?st j"
      "symbol_rows (backward_step_rows False sd sv p n ?st) j = symbol_rows ?st j"
      using False by (simp_all add: backward_step_False vector_def symbol_rows_def)
    then show ?thesis
      unfolding unf using ih False Suc.prems(2) by (auto simp: less_Suc_eq)
  qed
qed

lemma forward_substitute_to_pivot_shape:
  assumes wf: "well_formed st" and ech: "echelon R st"
    and len: "length sv = symbols st" "length sd = symbol_length st"
    and res: "\<forall>c\<in>R. c < symbols st \<longrightarrow> sv ! c = 0"
    and run: "forward_substitute_to_pivot_rows False st sd sv = (po, sd', sv')"
  shows "length sv' = symbols st" "length sd' = symbol_length st"
    "\<forall>c\<in>R. c < symbols st \<longrightarrow> sv' ! c = 0"
    "po = None \<Longrightarrow> \<forall>c< symbols st. sv' ! c = 0"
    "po = Some p \<Longrightarrow> p < symbols st \<and> \<not> symbol_exists st p \<and> sv' ! p \<noteq> 0 \<and>
                     (\<forall>c<p. sv' ! c = 0) \<and> p \<notin> R"
proof -
  have run': "forward_to_pivot_loop_rows False st [0..< symbols st] sd sv = (po, sd', sv')"
    using run by (simp add: forward_substitute_to_pivot_rows_def)
  have z: "\<forall>c<0. sv ! c = 0" by simp
  note sh = forward_to_pivot_loop_shape [OF wf ech len z res run']
  show "length sv' = symbols st" "length sd' = symbol_length st"
    "\<forall>c\<in>R. c < symbols st \<longrightarrow> sv' ! c = 0"
    using sh by simp_all
  show "po = None \<Longrightarrow> \<forall>c< symbols st. sv' ! c = 0" using sh by simp
  show "po = Some p \<Longrightarrow> p < symbols st \<and> \<not> symbol_exists st p \<and> sv' ! p \<noteq> 0 \<and>
                     (\<forall>c<p. sv' ! c = 0) \<and> p \<notin> R"
    using sh by auto
qed

text \<open>The row stored for a packet with a pivot, and the state after storing it.\<close>

lemma decode_with_vector_None:
  "forward_substitute_to_pivot_rows bin st sd sv = (None, sd', sv')
   \<Longrightarrow> decode_with_vector_rows bin st sd sv = Some (st, sd', sv')"
  by (simp add: decode_with_vector_rows_def)

lemma decode_with_vector_Some:
  assumes run: "forward_substitute_to_pivot_rows False st sd sv = (Some p, sd0, sv0)"
    and sd1: "sd1 = multiply sd0 (invert (sv0 ! p))"
    and sv1: "sv1 = multiply sv0 (invert (sv0 ! p))"
    and f: "fold (forward_from_pivot_step_rows False st) [Suc p..<Suc (m_maximum_pivot st)] (sd1, sv1)
              = (sd2, sv2)"
    and st1: "st1 = fold (backward_step_rows False sd2 sv2 p) [0..<Suc (m_maximum_pivot st)] st"
  shows "decode_with_vector_rows False st sd sv =
           Some (st1\<lparr> m_vectors := (m_vectors st1)[p := sv2],
                      m_data := (m_data st1)[p := sd2],
                      m_rank := m_rank st + 1,
                      m_coded := (m_coded st)[p := True],
                      m_maximum_pivot := max p (m_maximum_pivot st) \<rparr>, sd2, sv2)"
proof -
  from run have piv: "p \<in> set [0..< symbols st]" "\<not> symbol_exists st p" "coefficient p sv0 \<noteq> 0"
    using forward_to_pivot_loop_rows_pivot [of False st "[0..< symbols st]" sd sv p sd0 sv0]
    by (simp_all add: forward_substitute_to_pivot_rows_def)
  have norm: "normalize_symbol st sd0 sv0 p = Some (sd1, sv1)"
    using piv by (simp add: normalize_symbol_def symbol_exists_def Let_def sd1 sv1 coefficient_def)
  have fwd: "forward_substitute_from_pivot_rows False st sd1 sv1 p = Some (sd2, sv2)"
    using piv f by (simp add: forward_substitute_from_pivot_rows_def symbol_exists_def)
  have bwd: "backward_substitute_rows False st sd2 sv2 p = Some st1"
    using piv st1 by (simp add: backward_substitute_rows_def)
  note fl = backward_fold_fields [of sd2 sv2 p "[0..<Suc (m_maximum_pivot st)]" st, folded st1]
  have store: "store_coded_symbol_rows st1 sd2 sv2 p =
      Some (st1\<lparr> m_vectors := (m_vectors st1)[p := sv2], m_data := (m_data st1)[p := sd2] \<rparr>)"
    using piv fl by (simp add: store_coded_symbol_rows_def symbol_exists_def)
  show ?thesis
    using run norm fwd bwd store fl
    by (auto simp: decode_with_vector_rows_def max_def)
qed

lemma multiply_subtract_zero:
  "length a = length b \<Longrightarrow> multiply_subtract a b 0 = a"
  by (rule nth_equalityI) simp_all

lemma decode_with_vector_pivot:
  assumes wf: "well_formed st" and ech: "echelon R st"
    and len: "length sv = symbols st" "length sd = symbol_length st"
    and res: "\<forall>c\<in>R. c < symbols st \<longrightarrow> sv ! c = 0"
    and run: "forward_substitute_to_pivot_rows False st sd sv = (Some p, sd0, sv0)"
  obtains st' sd2 sv2 where
    "decode_with_vector_rows False st sd sv = Some (st', sd2, sv2)"
    "symbols st' = symbols st" "symbol_length st' = symbol_length st"
    "m_rank st' = m_rank st + 1" "m_uncoded st' = m_uncoded st"
    "m_coded st' = (m_coded st)[p := True]"
    "m_maximum_pivot st' = max p (m_maximum_pivot st)"
    "well_formed st'" "echelon R st'"
    "vector st' p = sv2" "symbol_rows st' p = sd2"
    "\<And>j. j < symbols st \<Longrightarrow> j \<noteq> p \<Longrightarrow> \<not> m_coded st ! j
          \<Longrightarrow> vector st' j = vector st j \<and> symbol_rows st' j = symbol_rows st j"
    "p < symbols st" "\<not> symbol_exists st p" "p \<notin> R"
    "length sv2 = symbols st" "length sd2 = symbol_length st"
    "\<And>j. j < symbols st \<Longrightarrow> j \<noteq> p
          \<Longrightarrow> \<exists>a. vector st' j = multiply_subtract (vector st j) sv2 a \<and>
                  symbol_rows st' j = multiply_subtract (symbol_rows st j) sd2 a"
proof -
  let ?k = "symbols st" and ?M = "m_maximum_pivot st"
  note sh = forward_substitute_to_pivot_shape [OF wf ech len res run]
  have p: "p < ?k" "\<not> symbol_exists st p" "sv0 ! p \<noteq> 0" "\<forall>c<p. sv0 ! c = 0" "p \<notin> R"
    using sh(5) [of p] by simp_all
  have k: "length (m_vectors st) = ?k" "length (m_data st) = ?k" "?M < ?k"
    "length (m_coded st) = ?k" "length (m_uncoded st) = ?k"
    using wf by (simp_all add: well_formed_def)
  define sd1 where "sd1 = multiply sd0 (invert (sv0 ! p))"
  define sv1 where "sv1 = multiply sv0 (invert (sv0 ! p))"
  have l1: "length sv1 = ?k" "length sd1 = symbol_length st"
    using sh(1,2) by (simp_all add: sv1_def sd1_def)
  have low1: "\<forall>c<p. sv1 ! c = 0"
    using p sh(1) by (simp add: sv1_def)
  have one1: "sv1 ! p = 1"
    using p sh(1) by (simp add: sv1_def invert_def)
  have res1: "\<forall>c\<in>R. c < ?k \<longrightarrow> sv1 ! c = 0"
    using sh(1,3) by (simp add: sv1_def)
  obtain sd2 sv2 where f:
    "fold (forward_from_pivot_step_rows False st) [Suc p..<Suc ?M] (sd1, sv1) = (sd2, sv2)"
    by (cases "fold (forward_from_pivot_step_rows False st) [Suc p..<Suc ?M] (sd1, sv1)") auto
  have Mk: "Suc ?M \<le> ?k" using k(3) by simp
  note fs = forward_from_pivot_fold_shape [OF wf ech p(1) l1 low1 one1 res1 Mk f]
  have l2: "length sv2 = ?k" "length sd2 = symbol_length st" and low2: "\<forall>c<p. sv2 ! c = 0"
    and one2: "sv2 ! p = 1" and res2: "\<forall>c\<in>R. c < ?k \<longrightarrow> sv2 ! c = 0"
    using fs by simp_all
  have occ2: "sv2 ! c = 0" if "c < ?k" "symbol_exists st c" for c
  proof -
    have "c \<noteq> p" using that p(2) by auto
    moreover have "c \<le> ?M" using echelon_row(5) [OF wf ech that] .
    ultimately show ?thesis using fs low2 that by (cases "c < p") auto
  qed
  define st1 where "st1 = fold (backward_step_rows False sd2 sv2 p) [0..<Suc ?M] st"
  note fl = backward_fold_fields [of sd2 sv2 p "[0..<Suc ?M]" st, folded st1_def]
  define upd where "upd j \<longleftrightarrow> \<not> m_uncoded st ! j \<and> j \<noteq> p \<and> m_coded st ! j \<and> vector st j ! p \<noteq> 0" for j
  have rows1: "vector st1 j = (if upd j then multiply_subtract (vector st j) sv2 (vector st j ! p)
                               else vector st j)"
              "symbol_rows st1 j = (if upd j then multiply_subtract (symbol_rows st j) sd2 (vector st j ! p)
                               else symbol_rows st j)" if "j < ?k" for j
  proof -
    have "upd j \<Longrightarrow> j < Suc ?M"
      using echelon_row(5) [OF wf ech that] by (auto simp: upd_def symbol_exists_def)
    then have eq: "(j < Suc ?M \<and> \<not> m_uncoded st ! j \<and> j \<noteq> p \<and> m_coded st ! j \<and> vector st j ! p \<noteq> 0)
        = upd j" by (auto simp: upd_def)
    have le: "Suc ?M \<le> length (m_vectors st)" "length (m_data st) = length (m_vectors st)"
      "j < length (m_vectors st)" using k that by simp_all
    note r = backward_fold_rows [OF le(2) le(1) le(3), of sd2 sv2 p, folded st1_def, unfolded eq]
    show "vector st1 j = (if upd j then multiply_subtract (vector st j) sv2 (vector st j ! p)
                               else vector st j)"
      "symbol_rows st1 j = (if upd j then multiply_subtract (symbol_rows st j) sd2 (vector st j ! p)
                               else symbol_rows st j)"
      using r by simp_all
  qed
  define st' where "st' = st1\<lparr> m_vectors := (m_vectors st1)[p := sv2],
                      m_data := (m_data st1)[p := sd2],
                      m_rank := m_rank st + 1,
                      m_coded := (m_coded st)[p := True],
                      m_maximum_pivot := max p ?M \<rparr>"
  have dec: "decode_with_vector_rows False st sd sv = Some (st', sd2, sv2)"
    unfolding st'_def
    by (rule decode_with_vector_Some [OF run sd1_def sv1_def f st1_def])
  have fields: "symbols st' = ?k" "symbol_length st' = symbol_length st"
    "m_rank st' = m_rank st + 1" "m_uncoded st' = m_uncoded st"
    "m_coded st' = (m_coded st)[p := True]" "m_maximum_pivot st' = max p ?M"
    "length (m_vectors st') = ?k" "length (m_data st') = ?k"
    using fl k by (simp_all add: st'_def)
  have rows: "vector st' j = (if j = p then sv2 else vector st1 j)"
             "symbol_rows st' j = (if j = p then sd2 else symbol_rows st1 j)" if "j < ?k" for j
    using that fl k by (simp_all add: st'_def vector_def symbol_rows_def nth_list_update)
  have exists': "symbol_exists st' j \<longleftrightarrow> j = p \<or> symbol_exists st j" if "j < ?k" for j
    using that k fields p(1) by (cases "j = p") (simp_all add: symbol_exists_def)
  have untouched: "vector st' j = vector st j \<and> symbol_rows st' j = symbol_rows st j"
    if "j < ?k" "j \<noteq> p" "\<not> m_coded st ! j" for j
    using rows [OF that(1)] rows1 [OF that(1)] that by (simp add: upd_def)
  have updrow: "multiply_subtract (vector st j) sv2 (vector st j ! p) ! c
                  = vector st j ! c - sv2 ! c * vector st j ! p" if "j < ?k" "c < ?k" for j c
    using that wf l2 by (simp add: well_formed_def)
  have wf': "well_formed st'"
    unfolding well_formed_def
  proof (intro conjI allI impI)
    show "0 < symbols st'" using p fields by simp
    show "m_maximum_pivot st' < symbols st'" using p k fields by simp
    show "length (m_uncoded st') = symbols st'" "length (m_coded st') = symbols st'"
      "length (m_vectors st') = symbols st'" "length (m_data st') = symbols st'"
      using fields k by simp_all
  next
    fix i assume "i < symbols st'"
    then have i: "i < ?k" using fields by simp
    then have "length (vector st i) = ?k" "length (symbol_rows st i) = symbol_length st"
      using wf by (simp_all add: well_formed_def)
    then show "length (vector st' i) = symbols st'" "length (symbol_rows st' i) = symbol_length st'"
      using rows [OF i] rows1 [OF i] l2 fields by simp_all
  qed
  have ech': "echelon R st'"
    unfolding echelon_def
  proof (intro allI impI conjI)
    fix i assume "i < symbols st'" and u: "m_uncoded st' ! i"
    then have i: "i < ?k" and u0: "m_uncoded st ! i" using fields by simp_all
    then have ex: "symbol_exists st i" by (simp add: symbol_exists_def)
    then have ip: "i \<noteq> p" using p by auto
    have e: "\<not> m_coded st ! i" "vector st i = unit_row ?k i"
      using ech i u0 unfolding echelon_def by blast+
    show "\<not> m_coded st' ! i" using e ip fields by simp
    show "vector st' i = unit_row (symbols st') i"
      using untouched [OF i ip e(1)] e(2) fields by simp
  next
    fix i assume "i < symbols st'" and c: "m_coded st' ! i"
    then have i: "i < ?k" using fields by simp
    have "vector st' i ! i = 1 \<and> (\<forall>j<i. vector st' i ! j = 0) \<and>
       (\<forall>j<?k. j \<noteq> i \<longrightarrow> (j = p \<or> symbol_exists st j) \<or> j \<in> R \<longrightarrow> vector st' i ! j = 0)"
    proof (cases "i = p")
      case True
      then have "vector st' i = sv2" using rows [OF i] by simp
      then show ?thesis using one2 low2 res2 occ2 True by auto
    next
      case False
      then have c0: "m_coded st ! i" using c fields by simp
      then have ex: "symbol_exists st i" by (simp add: symbol_exists_def)
      note row = echelon_row [OF wf ech i ex]
      have nu: "\<not> m_uncoded st ! i"
        using ech i c0 unfolding echelon_def by blast
      show ?thesis
      proof (cases "vector st i ! p = 0")
        case True
        then have "vector st' i = vector st i"
          using rows [OF i] rows1 [OF i] False by (simp add: upd_def)
        then show ?thesis using row True by auto
      next
        case nz: False
        then have "upd i" using False c0 nu by (simp add: upd_def)
        then have eq: "vector st' i = multiply_subtract (vector st i) sv2 (vector st i ! p)"
          using rows [OF i] rows1 [OF i] False by simp
        have ip: "i < p" using nz row(2) [of p] False by (cases "p < i") auto
        have A: "vector st' i ! i = 1"
          using updrow [OF i i] row(1) occ2 [OF i ex] by (simp add: eq)
        have B: "\<forall>j<i. vector st' i ! j = 0"
        proof (intro allI impI)
          fix j assume j: "j < i"
          then have "j < ?k" "j < p" using i ip by simp_all
          then show "vector st' i ! j = 0"
            using updrow [OF i, of j] row(2) [OF j] low2 by (simp add: eq)
        qed
        have C: "\<forall>j<?k. j \<noteq> i \<longrightarrow> (j = p \<or> symbol_exists st j) \<or> j \<in> R \<longrightarrow> vector st' i ! j = 0"
        proof (intro allI impI)
          fix j assume j: "j < ?k" "j \<noteq> i" "(j = p \<or> symbol_exists st j) \<or> j \<in> R"
          show "vector st' i ! j = 0"
          proof (cases "j = p")
            case True
            then show ?thesis using updrow [OF i p(1)] one2 by (simp add: eq)
          next
            case False
            then have "vector st i ! j = 0" "sv2 ! j = 0"
              using row(3) [OF j(1,2)] j occ2 res2 by auto
            then show ?thesis using updrow [OF i j(1)] by (simp add: eq)
          qed
        qed
        show ?thesis using A B C by blast
      qed
    qed
    then show "vector st' i ! i = 1" "\<And>j. j < i \<Longrightarrow> vector st' i ! j = 0"
      "\<And>j. j < symbols st' \<Longrightarrow> j \<noteq> i \<Longrightarrow> symbol_exists st' j \<or> j \<in> R \<Longrightarrow> vector st' i ! j = 0"
      using exists' fields by auto
  next
    fix i assume "i < symbols st'" and e: "symbol_exists st' i"
    then have i: "i < ?k" using fields by simp
    show "i \<le> m_maximum_pivot st'" "i \<notin> R"
      using exists' [OF i] e p echelon_row(4,5) [OF wf ech i] fields by auto
  qed
  have comb: "\<exists>a. vector st' j = multiply_subtract (vector st j) sv2 a \<and>
                  symbol_rows st' j = multiply_subtract (symbol_rows st j) sd2 a"
    if "j < ?k" "j \<noteq> p" for j
  proof (cases "upd j")
    case True
    then show ?thesis using rows [OF that(1)] rows1 [OF that(1)] that(2) by auto
  next
    case False
    have "length (vector st j) = length sv2" "length (symbol_rows st j) = length sd2"
      using wf that(1) l2 by (simp_all add: well_formed_def)
    then have "vector st' j = multiply_subtract (vector st j) sv2 0 \<and>
                  symbol_rows st' j = multiply_subtract (symbol_rows st j) sd2 0"
      using rows [OF that(1)] rows1 [OF that(1)] that(2) False
      by (simp add: multiply_subtract_zero)
    then show ?thesis by blast
  qed
  show ?thesis
    using that [OF dec fields(1-6) wf' ech' _ _ untouched p(1,2,5) l2 comb] rows [OF p(1)] fields
    by simp
qed

lemma occupied_count_card:
  "occupied_count st = card {i. i < symbols st \<and> symbol_exists st i}"
proof -
  have "{i. i < symbols st \<and> symbol_exists st i} = set (filter (symbol_exists st) [0..< symbols st])"
    by auto
  moreover have "distinct (filter (symbol_exists st) [0..< symbols st])" by simp
  ultimately show ?thesis
    unfolding occupied_count_def using distinct_card by metis
qed

lemma occupied_count_insert:
  assumes "symbols st' = symbols st" "p < symbols st" "\<not> symbol_exists st p"
    and "\<And>j. j < symbols st \<Longrightarrow> symbol_exists st' j \<longleftrightarrow> j = p \<or> symbol_exists st j"
  shows "occupied_count st' = Suc (occupied_count st)"
proof -
  have "{i. i < symbols st' \<and> symbol_exists st' i}
          = insert p {i. i < symbols st \<and> symbol_exists st i}"
    using assms by auto
  moreover have "p \<notin> {i. i < symbols st \<and> symbol_exists st i}" using assms(3) by simp
  ultimately show ?thesis by (simp add: occupied_count_card)
qed

lemma occupied_count_same:
  assumes "symbols st' = symbols st"
    and "\<And>j. j < symbols st \<Longrightarrow> symbol_exists st' j \<longleftrightarrow> symbol_exists st j"
  shows "occupied_count st' = occupied_count st"
proof -
  have "{i. i < symbols st' \<and> symbol_exists st' i} = {i. i < symbols st \<and> symbol_exists st i}"
    using assms by auto
  then show ?thesis by (simp add: occupied_count_card)
qed

lemma decoder_inv_initialize:
  assumes "0 < k"
  shows "decoder_inv (initialize_rows k m :: 'a::field row_decoder)"
proof -
  have "occupied_count (initialize_rows k m :: 'a row_decoder) = 0"
    by (simp add: occupied_count_def initialize_rows_def symbol_exists_def filter_empty_conv)
  then show ?thesis
    using assms
    by (simp add: decoder_inv_def well_formed_def echelon_def blank_rows_def initialize_rows_def initialize_vectors_def
        vector_def symbol_rows_def symbol_exists_def zero_row_def)
qed

text \<open>What a call of \<open>decode_rows\<close> does to a state that satisfies the invariant.\<close>

lemma decode_cases:
  assumes inv: "decoder_inv st"
    and len: "length sv = symbols st" "length sd = symbol_length st"
  obtains (dependent) sd' sv' where
      "forward_substitute_to_pivot_rows False st sd sv = (None, sd', sv')"
      "decode_with_vector_rows False st sd sv = Some (st, sd', sv')"
      "\<forall>c< symbols st. sv' ! c = 0" "length sv' = symbols st"
  | (pivot) p sd0 sv0 st' sd' sv' where
      "forward_substitute_to_pivot_rows False st sd sv = (Some p, sd0, sv0)"
      "decode_with_vector_rows False st sd sv = Some (st', sd', sv')"
      "decoder_inv st'" "p < symbols st" "\<not> symbol_exists st p"
      "symbols st' = symbols st" "symbol_length st' = symbol_length st"
      "m_rank st' = m_rank st + 1" "m_uncoded st' = m_uncoded st"
      "m_coded st' = (m_coded st)[p := True]"
      "m_maximum_pivot st' = max p (m_maximum_pivot st)"
      "vector st' p = sv'" "symbol_rows st' p = sd'"
      "length sv' = symbols st" "length sd' = symbol_length st"
      "\<And>j. j < symbols st \<Longrightarrow> j \<noteq> p \<Longrightarrow> \<not> m_coded st ! j
          \<Longrightarrow> vector st' j = vector st j \<and> symbol_rows st' j = symbol_rows st j"
      "\<And>j. j < symbols st \<Longrightarrow> j \<noteq> p
          \<Longrightarrow> \<exists>a. vector st' j = multiply_subtract (vector st j) sv' a \<and>
                  symbol_rows st' j = multiply_subtract (symbol_rows st j) sd' a"
proof -
  from inv have wf: "well_formed st" and ech: "echelon {} st" and bl: "blank_rows st"
    and rk: "m_rank st = occupied_count st"
    by (simp_all add: decoder_inv_def)
  have res: "\<forall>c\<in>{}. c < symbols st \<longrightarrow> sv ! c = 0" by simp
  obtain po sd0 sv0 where run: "forward_substitute_to_pivot_rows False st sd sv = (po, sd0, sv0)"
    by (cases "forward_substitute_to_pivot_rows False st sd sv") auto
  note sh = forward_substitute_to_pivot_shape [OF wf ech len res run]
  show ?thesis
  proof (cases po)
    case None
    show ?thesis
      using dependent [of sd0 sv0] run None sh(1,4) decode_with_vector_None [of False st sd sv sd0 sv0]
      by simp
  next
    case (Some p)
    have run': "forward_substitute_to_pivot_rows False st sd sv = (Some p, sd0, sv0)"
      using run Some by simp
    from decode_with_vector_pivot [OF wf ech len res run']
    obtain st' sd2 sv2 where d:
      "decode_with_vector_rows False st sd sv = Some (st', sd2, sv2)"
      "symbols st' = symbols st" "symbol_length st' = symbol_length st"
      "m_rank st' = m_rank st + 1" "m_uncoded st' = m_uncoded st"
      "m_coded st' = (m_coded st)[p := True]"
      "m_maximum_pivot st' = max p (m_maximum_pivot st)"
      "well_formed st'" "echelon {} st'"
      "vector st' p = sv2" "symbol_rows st' p = sd2"
      "\<And>j. j < symbols st \<Longrightarrow> j \<noteq> p \<Longrightarrow> \<not> m_coded st ! j
          \<Longrightarrow> vector st' j = vector st j \<and> symbol_rows st' j = symbol_rows st j"
      "p < symbols st" "\<not> symbol_exists st p" "p \<notin> {}"
      "length sv2 = symbols st" "length sd2 = symbol_length st"
      "\<And>j. j < symbols st \<Longrightarrow> j \<noteq> p
          \<Longrightarrow> \<exists>a. vector st' j = multiply_subtract (vector st j) sv2 a \<and>
                  symbol_rows st' j = multiply_subtract (symbol_rows st j) sd2 a"
      by blast
    have lc: "length (m_coded st) = symbols st" using wf by (simp add: well_formed_def)
    have ex: "symbol_exists st' j \<longleftrightarrow> j = p \<or> symbol_exists st j" if "j < symbols st" for j
      using that d(5,6,13) lc by (cases "j = p") (simp_all add: symbol_exists_def)
    have cnt: "occupied_count st' = Suc (occupied_count st)"
      by (rule occupied_count_insert [OF d(2) d(13) d(14) ex])
    have bl': "blank_rows st'"
      unfolding blank_rows_def
    proof (intro allI impI)
      fix i assume i: "i < symbols st'" "\<not> symbol_exists st' i"
      then have i': "i < symbols st" "i \<noteq> p" "\<not> symbol_exists st i"
        using ex d(2) by auto
      then have "\<not> m_coded st ! i" by (simp add: symbol_exists_def)
      then have "vector st' i = vector st i" using d(12) i' by simp
      then show "vector st' i = zero_row (symbols st')"
        using bl i' d(2) by (simp add: blank_rows_def)
    qed
    have inv': "decoder_inv st'"
      using d(8,9) bl' cnt rk d(4) by (simp add: decoder_inv_def)
    show ?thesis
      by (rule pivot [OF run' d(1) inv' d(13,14) d(2-7) d(10,11) d(16,17) d(12) d(18)])
  qed
qed

lemma decode_raw_empty:
  assumes inv: "decoder_inv st" and i: "i < symbols st"
    and emp: "\<not> m_uncoded st ! i" "\<not> m_coded st ! i"
    and len: "length sd = symbol_length st"
  obtains st' where
    "decode_raw_rows False st sd i = Some st'" "decoder_inv st'"
    "symbols st' = symbols st" "symbol_length st' = symbol_length st"
    "m_rank st' = m_rank st + 1" "m_uncoded st' = (m_uncoded st)[i := True]"
    "m_coded st' = m_coded st" "m_maximum_pivot st' = max i (m_maximum_pivot st)"
    "vector st' i = unit_row (symbols st) i" "symbol_rows st' i = sd"
    "\<And>j. j < symbols st \<Longrightarrow> j \<noteq> i \<Longrightarrow> \<not> m_coded st ! j
          \<Longrightarrow> vector st' j = vector st j \<and> symbol_rows st' j = symbol_rows st j"
    "\<And>j. j < symbols st \<Longrightarrow> j \<noteq> i
          \<Longrightarrow> \<exists>a. vector st' j = multiply_subtract (vector st j) (unit_row (symbols st) i) a \<and>
                  symbol_rows st' j = multiply_subtract (symbol_rows st j) sd a"
proof -
  let ?k = "symbols st" and ?M = "m_maximum_pivot st"
  from inv have wf: "well_formed st" and ech: "echelon {} st" and bl: "blank_rows st"
    and rk: "m_rank st = occupied_count st"
    by (simp_all add: decoder_inv_def)
  have k: "length (m_vectors st) = ?k" "length (m_data st) = ?k" "?M < ?k"
    "length (m_coded st) = ?k" "length (m_uncoded st) = ?k"
    using wf by (simp_all add: well_formed_def)
  have nex: "\<not> symbol_exists st i" using emp by (simp add: symbol_exists_def)
  have zi: "vector st i = zero_row ?k" using bl i nex by (simp add: blank_rows_def)
  define e where "e = (unit_row ?k i :: 'a list)"
  have e: "set_coefficient i (vector st i) 1 = e"
    by (simp add: zi e_def set_coefficient_def unit_row_def zero_row_def)
  define st1 where "st1 = st\<lparr> m_data := (m_data st)[i := sd], m_vectors := (m_vectors st)[i := e] \<rparr>"
  have store: "store_uncoded_symbol_rows st sd i = Some st1"
    using emp e by (simp add: store_uncoded_symbol_rows_def st1_def)
  have v1: "vector st1 j = (if j = i then e else vector st j)"
           "symbol_rows st1 j = (if j = i then sd else symbol_rows st j)" if "j < ?k" for j
    using that k by (simp_all add: st1_def vector_def symbol_rows_def nth_list_update)
  define st2 where "st2 = fold (backward_step_rows False sd e i) [0..<Suc ?M] st1"
  have bwd: "backward_substitute_rows False st1 sd (vector st1 i) i = Some st2"
    using i v1 [OF i] by (simp add: backward_substitute_rows_def st2_def st1_def)
  note fl = backward_fold_fields [of sd e i "[0..<Suc ?M]" st1, folded st2_def]
  define upd where "upd j \<longleftrightarrow> j \<noteq> i \<and> m_coded st ! j \<and> vector st j ! i \<noteq> 0" for j
  have rows2: "vector st2 j = (if upd j then multiply_subtract (vector st j) e (vector st j ! i)
                               else vector st1 j)"
              "symbol_rows st2 j = (if upd j then multiply_subtract (symbol_rows st j) sd (vector st j ! i)
                               else symbol_rows st1 j)" if "j < ?k" for j
  proof -
    have nu: "m_coded st ! j \<Longrightarrow> \<not> m_uncoded st ! j"
      using ech that unfolding echelon_def by blast
    have "m_coded st ! j \<Longrightarrow> j < Suc ?M"
      using echelon_row(5) [OF wf ech that] by (auto simp: symbol_exists_def)
    then have eq: "(j < Suc (m_maximum_pivot st1) \<and> \<not> m_uncoded st1 ! j \<and> j \<noteq> i \<and> m_coded st1 ! j \<and> vector st1 j ! i \<noteq> 0)
        = upd j" using nu v1 [OF that] by (auto simp: upd_def st1_def)
    have le: "Suc ?M \<le> length (m_vectors st1)" "length (m_data st1) = length (m_vectors st1)"
      "j < length (m_vectors st1)" using k that by (simp_all add: st1_def)
    have M1: "m_maximum_pivot st1 = ?M" by (simp add: st1_def)
    note r = backward_fold_rows [OF le(2) le(1) le(3), of sd e i, folded st2_def, folded M1, unfolded eq]
    show "vector st2 j = (if upd j then multiply_subtract (vector st j) e (vector st j ! i)
                               else vector st1 j)"
      "symbol_rows st2 j = (if upd j then multiply_subtract (symbol_rows st j) sd (vector st j ! i)
                               else symbol_rows st1 j)"
      using r v1 [OF that] by (auto simp: upd_def)
  qed
  define st' where "st' = st2\<lparr> m_rank := m_rank st + 1, m_uncoded := (m_uncoded st)[i := True],
                               m_maximum_pivot := max i ?M \<rparr>"
  have dec: "decode_raw_rows False st sd i = Some st'"
    using i emp store bwd fl
    by (auto simp: decode_raw_rows_def st'_def max_def st1_def)
  have fields: "symbols st' = ?k" "symbol_length st' = symbol_length st"
    "m_rank st' = m_rank st + 1" "m_uncoded st' = (m_uncoded st)[i := True]"
    "m_coded st' = m_coded st" "m_maximum_pivot st' = max i ?M"
    "length (m_vectors st') = ?k" "length (m_data st') = ?k"
    using fl k by (simp_all add: st'_def st1_def)
  have rows: "vector st' j = vector st2 j" "symbol_rows st' j = symbol_rows st2 j" for j
    by (simp_all add: st'_def vector_def symbol_rows_def)
  have rowi: "vector st' i = e" "symbol_rows st' i = sd"
    using rows rows2 [OF i] v1 [OF i] by (simp_all add: upd_def)
  have exists': "symbol_exists st' j \<longleftrightarrow> j = i \<or> symbol_exists st j" if "j < ?k" for j
    using that k fields i by (cases "j = i") (simp_all add: symbol_exists_def)
  have untouched: "vector st' j = vector st j \<and> symbol_rows st' j = symbol_rows st j"
    if "j < ?k" "j \<noteq> i" "\<not> m_coded st ! j" for j
    using rows rows2 [OF that(1)] v1 [OF that(1)] that by (simp add: upd_def)
  have le: "length e = ?k" by (simp add: e_def)
  have updrow: "multiply_subtract (vector st j) e (vector st j ! i) ! c
                  = (if c = i then 0 else vector st j ! c)" if "j < ?k" "c < ?k" for j c
    using that wf by (simp add: well_formed_def e_def)
  have comb: "\<exists>a. vector st' j = multiply_subtract (vector st j) e a \<and>
                  symbol_rows st' j = multiply_subtract (symbol_rows st j) sd a"
    if "j < ?k" "j \<noteq> i" for j
  proof (cases "upd j")
    case True
    then show ?thesis using rows rows2 [OF that(1)] by auto
  next
    case False
    have "length (vector st j) = length e" "length (symbol_rows st j) = length sd"
      using wf that(1) le len by (simp_all add: well_formed_def)
    then have "vector st' j = multiply_subtract (vector st j) e 0 \<and>
                  symbol_rows st' j = multiply_subtract (symbol_rows st j) sd 0"
      using rows rows2 [OF that(1)] v1 [OF that(1)] that(2) False
      by (simp add: multiply_subtract_zero)
    then show ?thesis by blast
  qed
  have wf': "well_formed st'"
    unfolding well_formed_def
  proof (intro conjI allI impI)
    show "0 < symbols st'" using i fields by simp
    show "m_maximum_pivot st' < symbols st'" using i k fields by simp
    show "length (m_uncoded st') = symbols st'" "length (m_coded st') = symbols st'"
      "length (m_vectors st') = symbols st'" "length (m_data st') = symbols st'"
      using fields k by simp_all
  next
    fix j assume "j < symbols st'"
    then have j: "j < ?k" using fields by simp
    then have "length (vector st j) = ?k" "length (symbol_rows st j) = symbol_length st"
      using wf by (simp_all add: well_formed_def)
    then show "length (vector st' j) = symbols st'" "length (symbol_rows st' j) = symbol_length st'"
      using rows rows2 [OF j] v1 [OF j] le len fields by simp_all
  qed
  have ech': "echelon {} st'"
    unfolding echelon_def
  proof (intro allI impI conjI)
    fix j assume "j < symbols st'" and u: "m_uncoded st' ! j"
    then have j: "j < ?k" using fields by simp
    show "\<not> m_coded st' ! j"
    proof (cases "j = i")
      case True then show ?thesis using emp fields by simp
    next
      case False
      then have "m_uncoded st ! j" using u fields by simp
      then show ?thesis using ech j fields unfolding echelon_def by auto
    qed
    show "vector st' j = unit_row (symbols st') j"
    proof (cases "j = i")
      case True then show ?thesis using rowi fields by (simp add: e_def)
    next
      case False
      then have u0: "m_uncoded st ! j" using u fields by simp
      then have "\<not> m_coded st ! j" "vector st j = unit_row ?k j"
        using ech j unfolding echelon_def by blast+
      then show ?thesis using untouched [OF j False] fields by simp
    qed
  next
    fix j assume "j < symbols st'" and c: "m_coded st' ! j"
    then have j: "j < ?k" and c0: "m_coded st ! j" using fields by simp_all
    then have ex: "symbol_exists st j" by (simp add: symbol_exists_def)
    then have ji: "j \<noteq> i" using nex by auto
    note row = echelon_row [OF wf ech j ex]
    have val: "vector st' j ! c = (if c = i then 0 else vector st j ! c)" if "c < ?k" for c
    proof (cases "upd j")
      case True
      then show ?thesis using rows rows2 [OF j] updrow [OF j that] by simp
    next
      case False
      then have "vector st j ! i = 0" using ji c0 by (simp add: upd_def)
      then show ?thesis using rows rows2 [OF j] v1 [OF j] False ji by simp
    qed
    show "vector st' j ! j = 1" using val [OF j] ji row(1) by simp
    show "\<And>c. c < j \<Longrightarrow> vector st' j ! c = 0"
      using val j row(2) by simp
    show "\<And>c. c < symbols st' \<Longrightarrow> c \<noteq> j \<Longrightarrow> symbol_exists st' c \<or> c \<in> {}
            \<Longrightarrow> vector st' j ! c = 0"
      using val exists' row(3) fields by auto
  next
    fix j assume "j < symbols st'" and e: "symbol_exists st' j"
    then have j: "j < ?k" using fields by simp
    show "j \<le> m_maximum_pivot st'" "j \<notin> {}"
      using exists' [OF j] e echelon_row(5) [OF wf ech j] fields by auto
  qed
  have cnt: "occupied_count st' = Suc (occupied_count st)"
    by (rule occupied_count_insert [OF fields(1) i nex exists'])
  have bl': "blank_rows st'"
    unfolding blank_rows_def
  proof (intro allI impI)
    fix j assume j: "j < symbols st'" "\<not> symbol_exists st' j"
    then have j': "j < ?k" "j \<noteq> i" "\<not> symbol_exists st j"
      using exists' fields by auto
    then have "\<not> m_coded st ! j" by (simp add: symbol_exists_def)
    then have "vector st' j = vector st j" using untouched j' by simp
    then show "vector st' j = zero_row (symbols st')"
      using bl j' fields by (simp add: blank_rows_def)
  qed
  have inv': "decoder_inv st'"
    using wf' ech' bl' cnt rk fields by (simp add: decoder_inv_def)
  show ?thesis
    using that [OF dec inv' fields(1-6) _ _ untouched] rowi comb
    by (simp add: e_def)
qed

lemma forward_to_pivot_loop_reduced:
  "\<forall>c\<in>set idx. symbol_exists st c \<longrightarrow> sv ! c = 0
   \<Longrightarrow> snd (forward_to_pivot_loop_rows False st idx sd sv) = (sd, sv)"
  by (induction idx) (simp_all add: forward_to_pivot_loop_Cons del: forward_to_pivot_loop_rows.simps(2))

lemma swap_decode_unfold:
  assumes "m_coded st ! i" "\<not> m_uncoded st ! i" "vector st i ! i = 1"
    and "decode_with_vector_rows bin (swap_state_rows st sd i)
           (subtract (symbol_rows st i) sd) (set_coefficient i (vector st i) 0) = Some (st3, sd', sv')"
    and "\<not> m_uncoded st3 ! i" "\<not> m_coded st3 ! i" "i < length (m_vectors st3)"
  shows "swap_decode_rows bin st sd i =
     Some (st3\<lparr> m_vectors := (m_vectors st3)[i := (replicate (symbols st3) 0)[i := 1]],
                m_data := (m_data st3)[i := sd],
                m_uncoded := (m_uncoded st3)[i := True] \<rparr>)"
  using assms
  by (simp add: swap_decode_rows_def swap_state_rows_def Let_def vector_def symbol_rows_def coefficient_def
      store_uncoded_symbol_rows_def vector_length_def set_coefficient_def)

lemma swap_finish:
  fixes st3 :: "'a::field row_decoder"
  assumes wf: "well_formed st3" and ech: "echelon {i} st3" and i: "i < symbols st3"
    and emp: "\<not> m_uncoded st3 ! i" "\<not> m_coded st3 ! i"
    and iM: "i \<le> m_maximum_pivot st3"
    and bl: "\<forall>j< symbols st3. j \<noteq> i \<longrightarrow> \<not> symbol_exists st3 j \<longrightarrow> vector st3 j = zero_row (symbols st3)"
    and len: "length sd = symbol_length st3"
    and st': "st' = st3\<lparr> m_vectors := (m_vectors st3)[i := (replicate (symbols st3) 0)[i := 1]],
                m_data := (m_data st3)[i := sd],
                m_uncoded := (m_uncoded st3)[i := True] \<rparr>"
  shows "well_formed st'" "echelon {} st'" "blank_rows st'"
    "occupied_count st' = Suc (occupied_count st3)"
    "vector st' i = unit_row (symbols st3) i" "symbol_rows st' i = sd"
    "\<And>j. j < symbols st3 \<Longrightarrow> j \<noteq> i \<Longrightarrow> vector st' j = vector st3 j \<and> symbol_rows st' j = symbol_rows st3 j"
proof -
  let ?k = "symbols st3"
  have k: "length (m_vectors st3) = ?k" "length (m_data st3) = ?k" "m_maximum_pivot st3 < ?k"
    "length (m_coded st3) = ?k" "length (m_uncoded st3) = ?k"
    using wf by (simp_all add: well_formed_def)
  have fields: "symbols st' = ?k" "symbol_length st' = symbol_length st3"
    "m_rank st' = m_rank st3" "m_uncoded st' = (m_uncoded st3)[i := True]"
    "m_coded st' = m_coded st3" "m_maximum_pivot st' = m_maximum_pivot st3"
    "length (m_vectors st') = ?k" "length (m_data st') = ?k"
    using k by (simp_all add: st')
  have rows: "vector st' j = (if j = i then unit_row ?k i else vector st3 j)"
             "symbol_rows st' j = (if j = i then sd else symbol_rows st3 j)" if "j < ?k" for j
    using that k by (simp_all add: st' vector_def symbol_rows_def nth_list_update unit_row_def)
  show ri: "vector st' i = unit_row ?k i" "symbol_rows st' i = sd"
    using rows [OF i] by simp_all
  show rj: "\<And>j. j < ?k \<Longrightarrow> j \<noteq> i \<Longrightarrow> vector st' j = vector st3 j \<and> symbol_rows st' j = symbol_rows st3 j"
    using rows by simp
  have nex: "\<not> symbol_exists st3 i" using emp by (simp add: symbol_exists_def)
  have exists': "symbol_exists st' j \<longleftrightarrow> j = i \<or> symbol_exists st3 j" if "j < ?k" for j
    using that k fields i by (cases "j = i") (simp_all add: symbol_exists_def)
  show "occupied_count st' = Suc (occupied_count st3)"
    by (rule occupied_count_insert [OF fields(1) i nex exists'])
  show "well_formed st'"
    unfolding well_formed_def
  proof (intro conjI allI impI)
    show "0 < symbols st'" using i fields by simp
    show "m_maximum_pivot st' < symbols st'" using k fields by simp
    show "length (m_uncoded st') = symbols st'" "length (m_coded st') = symbols st'"
      "length (m_vectors st') = symbols st'" "length (m_data st') = symbols st'"
      using fields k by simp_all
  next
    fix j assume "j < symbols st'"
    then have j: "j < ?k" using fields by simp
    then have "length (vector st3 j) = ?k" "length (symbol_rows st3 j) = symbol_length st3"
      using wf by (simp_all add: well_formed_def)
    then show "length (vector st' j) = symbols st'" "length (symbol_rows st' j) = symbol_length st'"
      using rows [OF j] len fields by simp_all
  qed
  show "blank_rows st'"
    unfolding blank_rows_def
  proof (intro allI impI)
    fix j assume j: "j < symbols st'" "\<not> symbol_exists st' j"
    then have j': "j < ?k" "j \<noteq> i" "\<not> symbol_exists st3 j"
      using exists' fields by auto
    then show "vector st' j = zero_row (symbols st')"
      using bl rows fields by simp
  qed
  show "echelon {} st'"
    unfolding echelon_def
  proof (intro allI impI conjI)
    fix j assume "j < symbols st'" and u: "m_uncoded st' ! j"
    then have j: "j < ?k" using fields by simp
    show "\<not> m_coded st' ! j"
    proof (cases "j = i")
      case True then show ?thesis using emp fields by simp
    next
      case False
      then have "m_uncoded st3 ! j" using u fields by simp
      then show ?thesis using ech j fields unfolding echelon_def by auto
    qed
    show "vector st' j = unit_row (symbols st') j"
    proof (cases "j = i")
      case True then show ?thesis using ri fields by simp
    next
      case False
      then have u0: "m_uncoded st3 ! j" using u fields by simp
      then have "vector st3 j = unit_row ?k j"
        using ech j unfolding echelon_def by blast
      then show ?thesis using rows [OF j] False fields by simp
    qed
  next
    fix j assume "j < symbols st'" and c: "m_coded st' ! j"
    then have j: "j < ?k" and c0: "m_coded st3 ! j" using fields by simp_all
    then have ex: "symbol_exists st3 j" by (simp add: symbol_exists_def)
    then have ji: "j \<noteq> i" using nex by auto
    note row = echelon_row [OF wf ech j ex]
    have eq: "vector st' j = vector st3 j" using rows [OF j] ji by simp
    show "vector st' j ! j = 1" using row(1) eq by simp
    show "\<And>c. c < j \<Longrightarrow> vector st' j ! c = 0" using row(2) eq by simp
    show "\<And>c. c < symbols st' \<Longrightarrow> c \<noteq> j \<Longrightarrow> symbol_exists st' c \<or> c \<in> {}
            \<Longrightarrow> vector st' j ! c = 0"
      using exists' row(3) fields eq by auto
  next
    fix j assume "j < symbols st'" and e: "symbol_exists st' j"
    then have j: "j < ?k" using fields by simp
    show "j \<le> m_maximum_pivot st'" "j \<notin> {}"
      using exists' [OF j] e echelon_row(5) [OF wf ech j] fields iM by auto
  qed
qed

lemma swap_state_props:
  fixes st :: "'a::field row_decoder"
  assumes inv: "decoder_inv st" and i: "i < symbols st" and cod: "m_coded st ! i"
    and len: "length sd = symbol_length st"
  shows "well_formed (swap_state_rows st sd i)" "echelon {i} (swap_state_rows st sd i)"
    "symbols (swap_state_rows st sd i) = symbols st"
    "symbol_length (swap_state_rows st sd i) = symbol_length st"
    "m_rank (swap_state_rows st sd i) = m_rank st"
    "m_uncoded (swap_state_rows st sd i) = m_uncoded st"
    "m_coded (swap_state_rows st sd i) = (m_coded st)[i := False]"
    "m_maximum_pivot (swap_state_rows st sd i) = m_maximum_pivot st"
    "\<And>j. j < symbols st \<Longrightarrow> j \<noteq> i \<Longrightarrow>
        vector (swap_state_rows st sd i) j = vector st j \<and> symbol_rows (swap_state_rows st sd i) j = symbol_rows st j"
    "\<And>j. j < symbols st \<Longrightarrow> symbol_exists (swap_state_rows st sd i) j \<longleftrightarrow> j \<noteq> i \<and> symbol_exists st j"
    "\<not> m_uncoded st ! i" "vector st i ! i = 1"
    "length (set_coefficient i (vector st i) 0) = symbols st"
    "length (subtract (symbol_rows st i) sd) = symbol_length st"
    "\<And>c. c < symbols st \<Longrightarrow> c = i \<or> symbol_exists st c \<Longrightarrow> set_coefficient i (vector st i) 0 ! c = 0"
    "\<And>c. c < i \<Longrightarrow> set_coefficient i (vector st i) 0 ! c = 0"
proof -
  let ?k = "symbols st" and ?st2 = "swap_state_rows st sd i"
  from inv have wf: "well_formed st" and ech: "echelon {} st" and bl: "blank_rows st"
    by (simp_all add: decoder_inv_def)
  have k: "length (m_vectors st) = ?k" "length (m_data st) = ?k" "m_maximum_pivot st < ?k"
    "length (m_coded st) = ?k" "length (m_uncoded st) = ?k"
    using wf by (simp_all add: well_formed_def)
  have ex: "symbol_exists st i" using cod by (simp add: symbol_exists_def)
  note rowi = echelon_row [OF wf ech i ex]
  show nu: "\<not> m_uncoded st ! i" using ech i cod unfolding echelon_def by blast
  show "vector st i ! i = 1" by (rule rowi(1))
  show fields: "symbols ?st2 = ?k" "symbol_length ?st2 = symbol_length st"
    "m_rank ?st2 = m_rank st" "m_uncoded ?st2 = m_uncoded st"
    "m_coded ?st2 = (m_coded st)[i := False]" "m_maximum_pivot ?st2 = m_maximum_pivot st"
    by (simp_all add: swap_state_rows_def)
  have rows: "vector ?st2 j = (if j = i then set_coefficient i (vector st i) 0 else vector st j)"
    "symbol_rows ?st2 j = (if j = i then subtract (symbol_rows st i) sd else symbol_rows st j)" if "j < ?k" for j
    using that k by (simp_all add: swap_state_rows_def vector_def symbol_rows_def nth_list_update)
  show rj: "\<And>j. j < ?k \<Longrightarrow> j \<noteq> i \<Longrightarrow> vector ?st2 j = vector st j \<and> symbol_rows ?st2 j = symbol_rows st j"
    using rows by simp
  show exists2: "\<And>j. j < ?k \<Longrightarrow> symbol_exists ?st2 j \<longleftrightarrow> j \<noteq> i \<and> symbol_exists st j"
  proof -
    fix j assume "j < ?k"
    then show "symbol_exists ?st2 j \<longleftrightarrow> j \<noteq> i \<and> symbol_exists st j"
      using k fields i nu by (cases "j = i") (simp_all add: symbol_exists_def)
  qed
  show lw: "length (set_coefficient i (vector st i) 0) = ?k"
    using rowi(6) by (simp add: set_coefficient_def)
  show ly: "length (subtract (symbol_rows st i) sd) = symbol_length st"
    using wf i len by (simp add: well_formed_def)
  show wz: "\<And>c. c < ?k \<Longrightarrow> c = i \<or> symbol_exists st c \<Longrightarrow> set_coefficient i (vector st i) 0 ! c = 0"
  proof -
    fix c assume c: "c < ?k" "c = i \<or> symbol_exists st c"
    show "set_coefficient i (vector st i) 0 ! c = 0"
    proof (cases "c = i")
      case True
      then show ?thesis using rowi(6) i by (simp add: set_coefficient_def)
    next
      case False
      then show ?thesis using rowi(3) [of c] c by (simp add: set_coefficient_def)
    qed
  qed
  show "\<And>c. c < i \<Longrightarrow> set_coefficient i (vector st i) 0 ! c = 0"
    using rowi(2) by (simp add: set_coefficient_def)
  show "well_formed ?st2"
    unfolding well_formed_def
  proof (intro conjI allI impI)
    show "0 < symbols ?st2" using i fields by simp
    show "m_maximum_pivot ?st2 < symbols ?st2" using k fields by simp
    show "length (m_uncoded ?st2) = symbols ?st2" "length (m_coded ?st2) = symbols ?st2"
      "length (m_vectors ?st2) = symbols ?st2" "length (m_data ?st2) = symbols ?st2"
      using k by (simp_all add: swap_state_rows_def)
  next
    fix j assume "j < symbols ?st2"
    then have j: "j < ?k" using fields by simp
    then have "length (vector st j) = ?k" "length (symbol_rows st j) = symbol_length st"
      using wf by (simp_all add: well_formed_def)
    then show "length (vector ?st2 j) = symbols ?st2" "length (symbol_rows ?st2 j) = symbol_length ?st2"
      using rows [OF j] lw ly fields by simp_all
  qed
  show "echelon {i} ?st2"
    unfolding echelon_def
  proof (intro allI impI conjI)
    fix j assume "j < symbols ?st2" and u: "m_uncoded ?st2 ! j"
    then have j: "j < ?k" and u0: "m_uncoded st ! j" using fields by simp_all
    then have ji: "j \<noteq> i" using nu by auto
    have e: "\<not> m_coded st ! j" "vector st j = unit_row ?k j"
      using ech j u0 unfolding echelon_def by blast+
    show "\<not> m_coded ?st2 ! j" using e ji fields by simp
    show "vector ?st2 j = unit_row (symbols ?st2) j" using rows [OF j] ji e fields by simp
  next
    fix j assume "j < symbols ?st2" and c: "m_coded ?st2 ! j"
    then have j: "j < ?k" using fields by simp
    have ji: "j \<noteq> i" using c fields k i by auto
    then have c0: "m_coded st ! j" using c fields by simp
    then have exj: "symbol_exists st j" by (simp add: symbol_exists_def)
    note row = echelon_row [OF wf ech j exj]
    have eq: "vector ?st2 j = vector st j" using rows [OF j] ji by simp
    show "vector ?st2 j ! j = 1" using row(1) eq by simp
    show "\<And>c. c < j \<Longrightarrow> vector ?st2 j ! c = 0" using row(2) eq by simp
    show "\<And>c. c < symbols ?st2 \<Longrightarrow> c \<noteq> j \<Longrightarrow> symbol_exists ?st2 c \<or> c \<in> {i}
            \<Longrightarrow> vector ?st2 j ! c = 0"
      using exists2 row(3) fields eq ex by auto
  next
    fix j assume "j < symbols ?st2" and e: "symbol_exists ?st2 j"
    then have j: "j < ?k" using fields by simp
    show "j \<le> m_maximum_pivot ?st2" "j \<notin> {i}"
      using exists2 [OF j] e echelon_row(5) [OF wf ech j] fields by auto
  qed
qed

lemma swap_cases:
  fixes st :: "'a::field row_decoder"
  assumes inv: "decoder_inv st" and i: "i < symbols st" and cod: "m_coded st ! i"
    and len: "length sd = symbol_length st"
  obtains (dependent) st' where
      "swap_decode_rows False st sd i = Some st'" "decoder_inv st'"
      "symbols st' = symbols st" "symbol_length st' = symbol_length st"
      "m_rank st' = m_rank st"
      "m_uncoded st' = (m_uncoded st)[i := True]" "m_coded st' = (m_coded st)[i := False]"
      "m_maximum_pivot st' = m_maximum_pivot st"
      "vector st i = unit_row (symbols st) i"
      "vector st' i = unit_row (symbols st) i" "symbol_rows st' i = sd"
      "\<And>j. j < symbols st \<Longrightarrow> j \<noteq> i \<Longrightarrow> vector st' j = vector st j \<and> symbol_rows st' j = symbol_rows st j"
      "fst (forward_substitute_to_pivot_rows False (swap_state_rows st sd i)
              (subtract (symbol_rows st i) sd) (set_coefficient i (vector st i) 0)) = None"
  | (pivot) st' p st3 sd2 sv2 where
      "swap_decode_rows False st sd i = Some st'" "decoder_inv st'"
      "decode_with_vector_rows False (swap_state_rows st sd i) (subtract (symbol_rows st i) sd)
         (set_coefficient i (vector st i) 0) = Some (st3, sd2, sv2)"
      "p < symbols st" "i < p" "\<not> symbol_exists st p"
      "symbols st' = symbols st" "symbol_length st' = symbol_length st"
      "m_rank st' = m_rank st + 1"
      "m_uncoded st' = (m_uncoded st)[i := True]"
      "m_coded st' = (m_coded st)[i := False, p := True]"
      "m_maximum_pivot st' = max p (m_maximum_pivot st)"
      "vector st' i = unit_row (symbols st) i" "symbol_rows st' i = sd"
      "vector st' p = sv2" "symbol_rows st' p = sd2"
      "length sv2 = symbols st" "length sd2 = symbol_length st"
      "\<And>j. j < symbols st \<Longrightarrow> j \<noteq> i \<Longrightarrow> j \<noteq> p \<Longrightarrow> \<not> m_coded st ! j
          \<Longrightarrow> vector st' j = vector st j \<and> symbol_rows st' j = symbol_rows st j"
      "\<And>j. j < symbols st \<Longrightarrow> j \<noteq> i \<Longrightarrow> j \<noteq> p
          \<Longrightarrow> \<exists>a. vector st' j = multiply_subtract (vector st j) sv2 a \<and>
                  symbol_rows st' j = multiply_subtract (symbol_rows st j) sd2 a"
      "fst (forward_substitute_to_pivot_rows False (swap_state_rows st sd i)
              (subtract (symbol_rows st i) sd) (set_coefficient i (vector st i) 0)) = Some p"
proof -
  let ?k = "symbols st" and ?st2 = "swap_state_rows st sd i"
  let ?w = "set_coefficient i (vector st i) 0" and ?y = "subtract (symbol_rows st i) sd"
  from inv have wf: "well_formed st" and ech: "echelon {} st" and bl: "blank_rows st"
    and rk: "m_rank st = occupied_count st"
    by (simp_all add: decoder_inv_def)
  note sp = swap_state_props [OF inv i cod len]
  have k: "length (m_vectors st) = ?k" "length (m_data st) = ?k" "m_maximum_pivot st < ?k"
    "length (m_coded st) = ?k" "length (m_uncoded st) = ?k"
    using wf by (simp_all add: well_formed_def)
  have ex: "symbol_exists st i" using cod by (simp add: symbol_exists_def)
  have iM: "i \<le> m_maximum_pivot st" by (rule echelon_row(5) [OF wf ech i ex])
  have lw: "length ?w = symbols ?st2" and ly: "length ?y = symbol_length ?st2"
    using sp(3,4,13,14) by simp_all
  have res: "\<forall>c\<in>{i}. c < symbols ?st2 \<longrightarrow> ?w ! c = 0"
    using sp(3) sp(15) [of i] by simp
  have nex2: "\<not> symbol_exists ?st2 i" using sp(10) [OF i] by simp
  have cnt2: "occupied_count st = Suc (occupied_count ?st2)"
  proof (rule occupied_count_insert [OF sp(3) [symmetric] _ nex2])
    show "i < symbols ?st2" using i sp(3) by simp
    show "\<And>j. j < symbols ?st2 \<Longrightarrow> symbol_exists st j = (j = i \<or> symbol_exists ?st2 j)"
      using sp(3,10) ex by auto
  qed
  have red: "\<forall>c\<in>set [0..< symbols ?st2]. symbol_exists ?st2 c \<longrightarrow> ?w ! c = 0"
    using sp(3,10,15) by auto
  obtain po sd0 sv0 where run: "forward_substitute_to_pivot_rows False ?st2 ?y ?w = (po, sd0, sv0)"
    by (cases "forward_substitute_to_pivot_rows False ?st2 ?y ?w") auto
  have same: "sd0 = ?y" "sv0 = ?w"
    using forward_to_pivot_loop_reduced [OF red, of ?y] run
    by (simp_all add: forward_substitute_to_pivot_rows_def)
  note sh = forward_substitute_to_pivot_shape [OF sp(1,2) lw ly res run]
  show ?thesis
  proof (cases po)
    case None
    have dec: "decode_with_vector_rows False ?st2 ?y ?w = Some (?st2, sd0, sv0)"
      using run None by (simp add: decode_with_vector_None)
    define st' where "st' = ?st2\<lparr> m_vectors := (m_vectors ?st2)[i := (replicate (symbols ?st2) 0)[i := 1]],
                m_data := (m_data ?st2)[i := sd],
                m_uncoded := (m_uncoded ?st2)[i := True] \<rparr>"
    have emp2: "\<not> m_uncoded ?st2 ! i" "\<not> m_coded ?st2 ! i" "i < length (m_vectors ?st2)"
      using sp(6,7,11) k i by (simp_all add: swap_state_rows_def)
    have sw: "swap_decode_rows False st sd i = Some st'"
      unfolding st'_def
      by (rule swap_decode_unfold [OF cod sp(11) sp(12) dec emp2])
    have bl2: "\<forall>j< symbols ?st2. j \<noteq> i \<longrightarrow> \<not> symbol_exists ?st2 j
                \<longrightarrow> vector ?st2 j = zero_row (symbols ?st2)"
      using sp(3,9,10) bl by (simp add: blank_rows_def)
    have i2: "i < symbols ?st2" "i \<le> m_maximum_pivot ?st2" "length sd = symbol_length ?st2"
      using i iM len sp by simp_all
    note fin = swap_finish [OF sp(1,2) i2(1) emp2(1,2) i2(2) bl2 i2(3) st'_def]
    have fields: "symbols st' = ?k" "symbol_length st' = symbol_length st"
      "m_rank st' = m_rank st"
      "m_uncoded st' = (m_uncoded st)[i := True]" "m_coded st' = (m_coded st)[i := False]"
      "m_maximum_pivot st' = m_maximum_pivot st"
      by (simp_all add: st'_def swap_state_rows_def)
    have inv': "decoder_inv st'"
      using fin(1-4) cnt2 rk fields by (simp add: decoder_inv_def)
    have wz: "\<forall>c<?k. ?w ! c = 0" using sh(4) [OF None] same sp(3) by simp
    have unit: "vector st i = unit_row ?k i"
    proof (rule nth_equalityI)
      show "length (vector st i) = length (unit_row ?k i :: 'a list)"
        using wf i by (simp add: well_formed_def)
    next
      fix c assume "c < length (vector st i)"
      then have c: "c < ?k" using wf i by (simp add: well_formed_def)
      show "vector st i ! c = unit_row ?k i ! c"
      proof (cases "c = i")
        case True
        then show ?thesis using sp(12) c by simp
      next
        case False
        then have "vector st i ! c = ?w ! c" by (simp add: set_coefficient_def)
        then show ?thesis using wz c False by simp
      qed
    qed
    have rows: "\<And>j. j < ?k \<Longrightarrow> j \<noteq> i \<Longrightarrow> vector st' j = vector st j \<and> symbol_rows st' j = symbol_rows st j"
      using fin(7) sp(3,9) by simp
    have fw: "fst (forward_substitute_to_pivot_rows False ?st2 ?y ?w) = None"
      using run None by simp
    show ?thesis
      using dependent [OF sw inv' fields unit _ _ rows fw] fin(5,6) sp(3) by simp
  next
    case (Some p)
    have run': "forward_substitute_to_pivot_rows False ?st2 ?y ?w = (Some p, sd0, sv0)"
      using run Some by simp
    from decode_with_vector_pivot [OF sp(1,2) lw ly res run']
    obtain st3 sd2 sv2 where d:
      "decode_with_vector_rows False ?st2 ?y ?w = Some (st3, sd2, sv2)"
      "symbols st3 = symbols ?st2" "symbol_length st3 = symbol_length ?st2"
      "m_rank st3 = m_rank ?st2 + 1" "m_uncoded st3 = m_uncoded ?st2"
      "m_coded st3 = (m_coded ?st2)[p := True]"
      "m_maximum_pivot st3 = max p (m_maximum_pivot ?st2)"
      "well_formed st3" "echelon {i} st3"
      "vector st3 p = sv2" "symbol_rows st3 p = sd2"
      "\<And>j. j < symbols ?st2 \<Longrightarrow> j \<noteq> p \<Longrightarrow> \<not> m_coded ?st2 ! j
          \<Longrightarrow> vector st3 j = vector ?st2 j \<and> symbol_rows st3 j = symbol_rows ?st2 j"
      "p < symbols ?st2" "\<not> symbol_exists ?st2 p" "p \<notin> {i}"
      "length sv2 = symbols ?st2" "length sd2 = symbol_length ?st2"
      "\<And>j. j < symbols ?st2 \<Longrightarrow> j \<noteq> p
          \<Longrightarrow> \<exists>a. vector st3 j = multiply_subtract (vector ?st2 j) sv2 a \<and>
                  symbol_rows st3 j = multiply_subtract (symbol_rows ?st2 j) sd2 a"
      by blast
    have p: "p < ?k" "p \<noteq> i" "\<not> symbol_exists st p"
      using d(13,14,15) sp(3) sp(10) [of p] by auto
    have ip: "i < p"
    proof (rule ccontr)
      assume "\<not> i < p"
      then have "p < i" using p(2) by simp
      then have "?w ! p = 0" by (rule sp(16))
      then show False using sh(5) [OF Some] same by simp
    qed
    define st' where "st' = st3\<lparr> m_vectors := (m_vectors st3)[i := (replicate (symbols st3) 0)[i := 1]],
                m_data := (m_data st3)[i := sd],
                m_uncoded := (m_uncoded st3)[i := True] \<rparr>"
    have k3: "length (m_vectors st3) = ?k" "length (m_coded st3) = ?k"
      using d(8) d(2) sp(3) by (simp_all add: well_formed_def)
    have emp3: "\<not> m_uncoded st3 ! i" "\<not> m_coded st3 ! i" "i < length (m_vectors st3)"
      using d(5,6) sp(6,7,11) k i p(2) k3 by simp_all
    have sw: "swap_decode_rows False st sd i = Some st'"
      unfolding st'_def
      by (rule swap_decode_unfold [OF cod sp(11) sp(12) d(1) emp3])
    have ex3: "symbol_exists st3 j \<longleftrightarrow> j = p \<or> symbol_exists ?st2 j" if "j < ?k" for j
      using that d(5,6) p(1) k sp(7) by (cases "j = p") (simp_all add: symbol_exists_def)
    have bl3: "\<forall>j< symbols st3. j \<noteq> i \<longrightarrow> \<not> symbol_exists st3 j
                \<longrightarrow> vector st3 j = zero_row (symbols st3)"
    proof (intro allI impI)
      fix j assume j: "j < symbols st3" "j \<noteq> i" "\<not> symbol_exists st3 j"
      then have j': "j < ?k" "j \<noteq> p" "\<not> symbol_exists ?st2 j"
        using ex3 d(2) sp(3) by auto
      then have "\<not> m_coded ?st2 ! j" by (simp add: symbol_exists_def)
      then have "vector st3 j = vector ?st2 j" using d(12) j' sp(3) by simp
      moreover have "\<not> symbol_exists st j" using j' j(2) sp(10) by simp
      ultimately show "vector st3 j = zero_row (symbols st3)"
        using bl j' j(2) sp(9) d(2) sp(3) by (simp add: blank_rows_def)
    qed
    have i3: "i < symbols st3" "i \<le> m_maximum_pivot st3" "length sd = symbol_length st3"
      using i iM len d(2,3,7) sp(3,4,8) by simp_all
    note fin = swap_finish [OF d(8,9) i3(1) emp3(1,2) i3(2) bl3 i3(3) st'_def]
    have cnt3: "occupied_count st3 = Suc (occupied_count ?st2)"
    proof (rule occupied_count_insert [OF d(2) d(13) d(14)])
      show "\<And>j. j < symbols ?st2 \<Longrightarrow> symbol_exists st3 j = (j = p \<or> symbol_exists ?st2 j)"
        using ex3 sp(3) by simp
    qed
    have fields: "symbols st' = ?k" "symbol_length st' = symbol_length st"
      "m_rank st' = m_rank st + 1"
      "m_uncoded st' = (m_uncoded st)[i := True]"
      "m_coded st' = (m_coded st)[i := False, p := True]"
      "m_maximum_pivot st' = max p (m_maximum_pivot st)"
      using d(2-7) sp(3-8) by (simp_all add: st'_def)
    have inv': "decoder_inv st'"
      using fin(1-4) cnt2 cnt3 rk fields by (simp add: decoder_inv_def)
    have rowp: "vector st' p = sv2" "symbol_rows st' p = sd2"
      using fin(7) [of p] p d(2,10,11) sp(3) by simp_all
    have l2: "length sv2 = ?k" "length sd2 = symbol_length st"
      using d(16,17) sp(3,4) by simp_all
    have unt: "vector st' j = vector st j \<and> symbol_rows st' j = symbol_rows st j"
      if "j < ?k" "j \<noteq> i" "j \<noteq> p" "\<not> m_coded st ! j" for j
    proof -
      have "\<not> m_coded ?st2 ! j" using that sp(7) by simp
      then show ?thesis using fin(7) [of j] d(12) [of j] sp(9) [of j] that d(2) sp(3) by simp
    qed
    have comb: "\<exists>a. vector st' j = multiply_subtract (vector st j) sv2 a \<and>
                  symbol_rows st' j = multiply_subtract (symbol_rows st j) sd2 a"
      if "j < ?k" "j \<noteq> i" "j \<noteq> p" for j
      using fin(7) [of j] d(18) [of j] sp(9) [of j] that d(2) sp(3) by simp
    have fw: "fst (forward_substitute_to_pivot_rows False ?st2 ?y ?w) = Some p"
      using run' by simp
    show ?thesis
      using pivot [OF sw inv' d(1) p(1) ip p(3) fields _ _ rowp l2 unt comb fw] fin(5,6) d(2) sp(3)
      by simp
  qed
qed

lemma gf2_cases: "(x::gf2) = 0 \<or> x = 1"
  by (cases x) (simp_all add: zero_gf2_def one_gf2_def)

lemma reachable_flag:
  "reachable_rows bin (st :: 'a::field row_decoder) \<Longrightarrow> bin \<Longrightarrow> (x::'a) = 0 \<or> x = 1"
  by (induction rule: reachable_rows.induct) auto

lemma decode_with_vector_reachable_flag:
  assumes "reachable_rows bin (st0 :: 'a::field row_decoder)"
  shows "decode_with_vector_rows bin st sd (sv :: 'a list) = decode_with_vector_rows False st sd sv"
proof (cases bin)
  case True
  then have "\<And>x::'a. x = 0 \<or> x = 1" using reachable_flag [OF assms] by simp
  then show ?thesis using True decode_with_vector_flag by auto
next
  case False
  then show ?thesis by simp
qed

lemma decode_raw_reachable_flag:
  assumes "reachable_rows bin (st0 :: 'a::field row_decoder)"
  shows "decode_raw_rows bin st (sd :: 'a list) i = decode_raw_rows False st sd i"
proof (cases bin)
  case True
  then have "\<And>x::'a. x = 0 \<or> x = 1" using reachable_flag [OF assms] by simp
  then show ?thesis using True decode_raw_flag by auto
next
  case False
  then show ?thesis by simp
qed

lemma decode_raw_cases:
  fixes st :: "'a::field row_decoder"
  obtains (abort) "\<not> i < symbols st" "decode_raw_rows False st sd i = None"
  | (duplicate) "i < symbols st" "m_uncoded st ! i" "decode_raw_rows False st sd i = Some st"
  | (swap) "i < symbols st" "\<not> m_uncoded st ! i" "m_coded st ! i"
      "decode_raw_rows False st sd i = swap_decode_rows False st sd i"
  | (empty) "i < symbols st" "\<not> m_uncoded st ! i" "\<not> m_coded st ! i"
  by (cases "i < symbols st"; cases "m_uncoded st ! i"; cases "m_coded st ! i")
     (simp_all add: decode_raw_rows_def)

lemma decode_raw_inv:
  fixes st :: "'a::field row_decoder"
  assumes inv: "decoder_inv st" and len: "length sd = symbol_length st"
    and run: "decode_raw_rows False st sd i = Some st'"
  shows "decoder_inv st'"
proof (cases rule: decode_raw_cases [where i = i and st = st and sd = sd])
  case abort
  then show ?thesis using run by simp
next
  case duplicate
  then show ?thesis using run inv by simp
next
  case swap
  show ?thesis
    by (cases rule: swap_cases [OF inv swap(1,3) len]) (use run swap(4) in auto)
next
  case empty
  show ?thesis
    by (rule decode_raw_empty [OF inv empty len]) (use run in auto)
qed

lemma decode_inv:
  fixes st :: "'a::field row_decoder"
  assumes inv: "decoder_inv st" and len: "length sv = symbols st" "length sd = symbol_length st"
    and run: "decode_with_vector_rows False st sd sv = Some (st', sd', sv')"
  shows "decoder_inv st'"
  by (cases rule: decode_cases [OF inv len]) (use run inv in auto)

lemma reachable_inv: "reachable_rows bin st \<Longrightarrow> decoder_inv st"
proof (induction rule: reachable_rows.induct)
  case (reachable_rows_initialize k m)
  then show ?case by (simp add: decoder_inv_initialize)
next
  case (reachable_rows_decode st symbol_data symbol_id st' sd' sv')
  have "decode_with_vector_rows False st symbol_data symbol_id = Some (st', sd', sv')"
    using reachable_rows_decode(4) decode_with_vector_reachable_flag [OF reachable_rows_decode(1)]
    by (simp add: decode_rows_def)
  then show ?case
    using decode_inv reachable_rows_decode by blast
next
  case (reachable_rows_decode_raw st symbol_data symbol_index st')
  have "decode_raw_rows False st symbol_data symbol_index = Some st'"
    using reachable_rows_decode_raw(3) decode_raw_reachable_flag [OF reachable_rows_decode_raw(1)]
    by simp
  then show ?case
    using decode_raw_inv reachable_rows_decode_raw by blast
qed

lemma absorb_rows_reachable:
  "reachable_rows bin st \<Longrightarrow> fits st pkt \<Longrightarrow> absorb_rows bin st pkt = Some st' \<Longrightarrow> reachable_rows bin st'"
  by (cases pkt) (auto intro: reachable_rows_decode reachable_rows_decode_raw)

lemma absorb_all_rows_reachable:
  "reachable_rows bin st \<Longrightarrow> absorb_all_rows bin st pkts = Some st' \<Longrightarrow> reachable_rows bin st'"
proof (induction pkts arbitrary: st)
  case Nil
  then show ?case by simp
next
  case (Cons pkt pkts)
  then show ?case
    by (auto split: if_splits option.splits dest: absorb_rows_reachable)
qed

lemma reachable_rows_the_absorb_all:
  assumes "reachable_rows bin st" "absorb_all_rows bin st pkts \<noteq> None"
  shows "reachable_rows bin (the (absorb_all_rows bin st pkts))"
  using assms absorb_all_rows_reachable by fastforce

lemma row_span_length: "u \<in> row_span k B \<Longrightarrow> length u = k"
  by (induction rule: row_span.induct) simp_all

lemma row_span_mono: "u \<in> row_span k B \<Longrightarrow> B \<subseteq> C \<Longrightarrow> u \<in> row_span k C"
  by (induction rule: row_span.induct) (auto intro: row_span.intros)

lemma row_span_base:
  assumes "b \<in> B" "length b = k"
  shows "b \<in> row_span k B"
proof -
  have "multiply_subtract (zero_row k) b (- 1) = b"
    using assms(2) by (intro nth_equalityI) simp_all
  then show ?thesis
    using span_step [OF span_zero assms, of "- 1"] by simp
qed

lemma row_span_multiply_subtract:
  assumes "v \<in> row_span k B" "u \<in> row_span k B"
  shows "multiply_subtract u v a \<in> row_span k B"
  using assms
proof (induction arbitrary: u a rule: row_span.induct)
  case span_zero
  have "multiply_subtract u (zero_row k) a = u"
    using row_span_length [OF span_zero] by (intro nth_equalityI) simp_all
  then show ?case using span_zero by simp
next
  case (span_step v b c)
  have lu: "length u = k" "length v = k"
    using row_span_length span_step.prems span_step.hyps(1) by auto
  have "multiply_subtract u (multiply_subtract v b c) a
          = multiply_subtract (multiply_subtract u v a) b (- (c * a))"
    using lu span_step.hyps(3) by (intro nth_equalityI) (simp_all add: algebra_simps)
  then show ?case
    using row_span.span_step [OF span_step.IH [OF span_step.prems] span_step.hyps(2,3)]
    by simp
qed

lemma row_span_multiply:
  assumes "u \<in> row_span k B"
  shows "multiply u c \<in> row_span k B"
  using assms
proof (induction rule: row_span.induct)
  case span_zero
  have "multiply (zero_row k) c = zero_row k"
    by (intro nth_equalityI) simp_all
  then show ?case using row_span.span_zero [of k B] by simp
next
  case (span_step u b a)
  have "multiply (multiply_subtract u b a) c = multiply_subtract (multiply u c) b (a * c)"
    using row_span_length [OF span_step.hyps(1)] span_step.hyps(3)
    by (intro nth_equalityI) (simp_all add: algebra_simps)
  then show ?case
    using row_span.span_step [OF span_step.IH span_step.hyps(2,3)] by simp
qed

lemma stored_rowsI:
  "j < symbols st \<Longrightarrow> symbol_exists st j \<Longrightarrow> vector st j \<in> stored_rows st"
  by (auto simp: stored_rows_def)

text \<open>
  In a state with the echelon shape, the coefficients of a combination of stored rows
  can be read off at the pivot columns.
\<close>

lemma row_span_coordinates:
  fixes st :: "'a::field row_decoder"
  assumes wf: "well_formed st" and ech: "echelon R st"
    and v: "v \<in> row_span (symbols st) (stored_rows st)" and c: "c < symbols st"
  shows "v ! c = (\<Sum>j | j < symbols st \<and> symbol_exists st j. v ! j * vector st j ! c)"
  using v
proof (induction rule: row_span.induct)
  case span_zero
  show ?case using c by simp
next
  case (span_step u b a)
  let ?O = "{j. j < symbols st \<and> symbol_exists st j}"
  from span_step.hyps(2) obtain i where i: "i < symbols st" "symbol_exists st i" "b = vector st i"
    by (auto simp: stored_rows_def)
  note row = echelon_row [OF wf ech i(1,2)]
  have lu: "length u = symbols st" by (rule row_span_length [OF span_step.hyps(1)])
  have fin: "finite ?O" by simp
  have pick: "(\<Sum>j\<in>?O. vector st i ! j * vector st j ! c) = vector st i ! c"
  proof -
    have "(\<Sum>j\<in>?O. vector st i ! j * vector st j ! c)
            = (\<Sum>j\<in>?O. if j = i then vector st i ! c else 0)"
      using row(1,3) by (intro sum.cong) auto
    also have "\<dots> = vector st i ! c"
      using i fin by simp
    finally show ?thesis .
  qed
  have "(\<Sum>j\<in>?O. multiply_subtract u b a ! j * vector st j ! c)
          = (\<Sum>j\<in>?O. u ! j * vector st j ! c - a * (vector st i ! j * vector st j ! c))"
    using lu row(6) i(3) by (intro sum.cong) (auto simp: algebra_simps)
  also have "\<dots> = (\<Sum>j\<in>?O. u ! j * vector st j ! c) - a * (\<Sum>j\<in>?O. vector st i ! j * vector st j ! c)"
    by (simp add: sum_subtractf sum_distrib_left)
  also have "\<dots> = u ! c - a * vector st i ! c"
    using span_step.IH pick by simp
  also have "\<dots> = multiply_subtract u b a ! c"
    using lu row(6) i(3) c by simp
  finally show ?case by simp
qed

lemma forward_to_pivot_loop_closed:
  assumes "P sd sv"
    and "\<And>x y j c. P x y \<Longrightarrow> j \<in> set idx \<Longrightarrow> symbol_exists st j
           \<Longrightarrow> P (multiply_subtract x (symbol_rows st j) c) (multiply_subtract y (vector st j) c)"
    and "forward_to_pivot_loop_rows False st idx sd sv = (po, sd', sv')"
  shows "P sd' sv'"
  using assms
proof (induction idx arbitrary: sd sv)
  case Nil
  then show ?case by simp
next
  case (Cons i idx)
  have st: "\<And>x y j c. P x y \<Longrightarrow> j \<in> set idx \<Longrightarrow> symbol_exists st j
           \<Longrightarrow> P (multiply_subtract x (symbol_rows st j) c) (multiply_subtract y (vector st j) c)"
    using Cons.prems(2) by simp
  show ?case
  proof (cases "sv ! i \<noteq> 0 \<and> symbol_exists st i")
    case True
    then have run: "forward_to_pivot_loop_rows False st idx
        (multiply_subtract sd (symbol_rows st i) (sv ! i))
        (multiply_subtract sv (vector st i) (sv ! i)) = (po, sd', sv')"
      using Cons.prems(3) by (simp add: forward_to_pivot_loop_Cons del: forward_to_pivot_loop_rows.simps)
    have "P (multiply_subtract sd (symbol_rows st i) (sv ! i)) (multiply_subtract sv (vector st i) (sv ! i))"
      using Cons.prems(1,2) True by simp
    from Cons.IH [OF this st run] show ?thesis .
  next
    case False
    show ?thesis
    proof (cases "sv ! i = 0")
      case True
      then have run: "forward_to_pivot_loop_rows False st idx sd sv = (po, sd', sv')"
        using Cons.prems(3) by (simp add: forward_to_pivot_loop_Cons del: forward_to_pivot_loop_rows.simps)
      from Cons.IH [OF Cons.prems(1) st run] show ?thesis .
    next
      case nz: False
      then have "(po, sd', sv') = (Some i, sd, sv)"
        using Cons.prems(3) False
        by (simp add: forward_to_pivot_loop_Cons del: forward_to_pivot_loop_rows.simps)
      then show ?thesis using Cons.prems(1) by simp
    qed
  qed
qed

lemma forward_substitute_to_pivot_in_span:
  assumes "sv \<in> row_span (symbols st) B" and "stored_rows st \<subseteq> B"
    and "\<And>b. b \<in> B \<Longrightarrow> length b = symbols st"
    and "forward_substitute_to_pivot_rows False st sd sv = (po, sd', sv')"
  shows "sv' \<in> row_span (symbols st) B"
proof (rule forward_to_pivot_loop_closed [where P = "\<lambda>x y. y \<in> row_span (symbols st) B"])
  show "sv \<in> row_span (symbols st) B" by (rule assms(1))
  show "forward_to_pivot_loop_rows False st [0..< symbols st] sd sv = (po, sd', sv')"
    using assms(4) by (simp add: forward_substitute_to_pivot_rows_def)
next
  fix x y :: "'a list" and j c
  assume y: "y \<in> row_span (symbols st) B" and j: "j \<in> set [0..< symbols st]" "symbol_exists st j"
  then have "vector st j \<in> B" using assms(2) stored_rowsI [of j st] by auto
  then show "multiply_subtract y (vector st j) c \<in> row_span (symbols st) B"
    using span_step [OF y] assms(3) by simp
qed

lemma forward_from_pivot_fold_closed:
  assumes "P sd sv"
    and "\<And>x y j c. P x y \<Longrightarrow> j \<in> set idx \<Longrightarrow> symbol_exists st j
           \<Longrightarrow> P (multiply_subtract x (symbol_rows st j) c) (multiply_subtract y (vector st j) c)"
    and "fold (forward_from_pivot_step_rows False st) idx (sd, sv) = (sd', sv')"
  shows "P sd' sv'"
  using assms
proof (induction idx arbitrary: sd sv)
  case Nil
  then show ?case by simp
next
  case (Cons i idx)
  obtain x y where s: "forward_from_pivot_step_rows False st i (sd, sv) = (x, y)"
    by (cases "forward_from_pivot_step_rows False st i (sd, sv)") auto
  have "P x y"
    using s Cons.prems(1,2) by (auto simp: forward_from_pivot_step_False split: if_splits)
  moreover have "fold (forward_from_pivot_step_rows False st) idx (x, y) = (sd', sv')"
    using Cons.prems(3) s by simp
  ultimately show ?case
    using Cons.IH [of x y] Cons.prems(2) by simp
qed

text \<open>
  A property of the two working buffers that survives subtracting a multiple of a stored
  row and scaling by a non-zero element holds for the buffers \<open>decode_with_vector_rows\<close> returns.
\<close>

lemma decode_with_vector_closed:
  assumes P: "P sd sv"
    and step: "\<And>x y j c. P x y \<Longrightarrow> j < symbols st \<Longrightarrow> symbol_exists st j
           \<Longrightarrow> P (multiply_subtract x (symbol_rows st j) c) (multiply_subtract y (vector st j) c)"
    and scale: "\<And>x y c. P x y \<Longrightarrow> c \<noteq> 0 \<Longrightarrow> P (multiply x c) (multiply y c)"
    and M: "m_maximum_pivot st < symbols st"
    and run: "decode_with_vector_rows False st sd sv = Some (st', sd', sv')"
  shows "P sd' sv'"
proof -
  obtain po sd0 sv0 where f: "forward_substitute_to_pivot_rows False st sd sv = (po, sd0, sv0)"
    by (cases "forward_substitute_to_pivot_rows False st sd sv") auto
  have P0: "P sd0 sv0"
  proof (rule forward_to_pivot_loop_closed [where P = P, OF P])
    show "forward_to_pivot_loop_rows False st [0..< symbols st] sd sv = (po, sd0, sv0)"
      using f by (simp add: forward_substitute_to_pivot_rows_def)
  qed (use step in auto)
  show ?thesis
  proof (cases po)
    case None
    then show ?thesis using f run P0 by (simp add: decode_with_vector_None)
  next
    case (Some p)
    then have f': "forward_substitute_to_pivot_rows False st sd sv = (Some p, sd0, sv0)" using f by simp
    then have nz: "sv0 ! p \<noteq> 0"
      using forward_to_pivot_loop_rows_pivot [of False st "[0..< symbols st]" sd sv p sd0 sv0]
      by (simp add: forward_substitute_to_pivot_rows_def coefficient_def)
    define sd1 where "sd1 = multiply sd0 (invert (sv0 ! p))"
    define sv1 where "sv1 = multiply sv0 (invert (sv0 ! p))"
    have P1: "P sd1 sv1"
      unfolding sd1_def sv1_def using scale [OF P0] nz by (simp add: invert_def)
    obtain sd2 sv2 where g:
      "fold (forward_from_pivot_step_rows False st) [Suc p..<Suc (m_maximum_pivot st)] (sd1, sv1) = (sd2, sv2)"
      by (cases "fold (forward_from_pivot_step_rows False st) [Suc p..<Suc (m_maximum_pivot st)] (sd1, sv1)") auto
    have P2: "P sd2 sv2"
    proof (rule forward_from_pivot_fold_closed [where P = P, OF P1 _ g])
      fix x y j c
      assume a: "P x y" "j \<in> set [Suc p..<Suc (m_maximum_pivot st)]" "symbol_exists st j"
      then have "j < symbols st" using M by auto
      then show "P (multiply_subtract x (symbol_rows st j) c) (multiply_subtract y (vector st j) c)"
        using step [of x y j c] a by simp
    qed
    have "(sd', sv') = (sd2, sv2)"
      using decode_with_vector_Some [OF f' sd1_def sv1_def g refl] run by simp
    then show ?thesis using P2 by simp
  qed
qed

lemma row_span_subset:
  assumes "u \<in> row_span k B" and "\<And>b. b \<in> B \<Longrightarrow> length b = k \<Longrightarrow> b \<in> row_span k C"
  shows "u \<in> row_span k C"
  using assms(1)
proof (induction rule: row_span.induct)
  case span_zero
  show ?case by (rule row_span.span_zero)
next
  case (span_step u b a)
  then have "b \<in> row_span k C" using assms(2) by auto
  then show ?case using row_span_multiply_subtract span_step.IH by blast
qed

lemma length_encode [simp]: "length (encode m src sv) = m"
  by (simp add: encode_def)

lemma nth_encode:
  "c < m \<Longrightarrow> encode m src sv ! c = (\<Sum>j<length src. sv ! j * src ! j ! c)"
  by (simp add: encode_def interv_sum_list_conv_sum_set_nat atLeast0LessThan)

lemma consistent_row_multiply_subtract:
  assumes "consistent_row m src x y" "consistent_row m src x' y'"
  shows "consistent_row m src (multiply_subtract x x' c) (multiply_subtract y y' c)"
proof -
  have l: "length y = length src" "length y' = length src" "x = encode m src y" "x' = encode m src y'"
    using assms by (simp_all add: consistent_row_def)
  have "multiply_subtract x x' c = encode m src (multiply_subtract y y' c)"
  proof (rule nth_equalityI)
    show "length (multiply_subtract x x' c) = length (encode m src (multiply_subtract y y' c))"
      using l by simp
  next
    fix e assume "e < length (multiply_subtract x x' c)"
    then have e: "e < m" using l by simp
    have "(\<Sum>j<length src. multiply_subtract y y' c ! j * src ! j ! e)
            = (\<Sum>j<length src. y ! j * src ! j ! e - (y' ! j * src ! j ! e) * c)"
      using l by (intro sum.cong) (simp_all add: algebra_simps)
    also have "\<dots> = (\<Sum>j<length src. y ! j * src ! j ! e) - (\<Sum>j<length src. y' ! j * src ! j ! e) * c"
      by (simp add: sum_subtractf sum_distrib_right)
    finally show "multiply_subtract x x' c ! e = encode m src (multiply_subtract y y' c) ! e"
      using e l by (simp add: nth_encode)
  qed
  then show ?thesis using l by (simp add: consistent_row_def)
qed

lemma consistent_row_multiply:
  assumes "consistent_row m src x y"
  shows "consistent_row m src (multiply x c) (multiply y c)"
proof -
  have l: "length y = length src" "x = encode m src y"
    using assms by (simp_all add: consistent_row_def)
  have "multiply x c = encode m src (multiply y c)"
  proof (rule nth_equalityI)
    show "length (multiply x c) = length (encode m src (multiply y c))"
      using l by simp
  next
    fix e assume "e < length (multiply x c)"
    then have e: "e < m" using l by simp
    have "(\<Sum>j<length src. multiply y c ! j * src ! j ! e)
            = (\<Sum>j<length src. (y ! j * src ! j ! e) * c)"
      using l by (intro sum.cong) (simp_all add: algebra_simps)
    also have "\<dots> = (\<Sum>j<length src. y ! j * src ! j ! e) * c"
      by (simp add: sum_distrib_right)
    finally show "multiply x c ! e = encode m src (multiply y c) ! e"
      using e l by (simp add: nth_encode)
  qed
  then show ?thesis using l by (simp add: consistent_row_def)
qed

lemma encode_unit_row:
  assumes "i < length src" "length (src ! i) = m"
  shows "encode m src (unit_row (length src) i) = src ! i"
proof (rule nth_equalityI)
  show "length (encode m src (unit_row (length src) i)) = length (src ! i)"
    using assms by simp
next
  fix e assume "e < length (encode m src (unit_row (length src) i))"
  then have e: "e < m" by simp
  have "(\<Sum>j<length src. unit_row (length src) i ! j * src ! j ! e)
          = (\<Sum>j<length src. if j = i then src ! i ! e else 0)"
    by (intro sum.cong) simp_all
  also have "\<dots> = src ! i ! e" using assms(1) by simp
  finally show "encode m src (unit_row (length src) i) ! e = src ! i ! e"
    using e by (simp add: nth_encode)
qed

lemma consistent_row_unit:
  "i < length src \<Longrightarrow> length (src ! i) = m \<Longrightarrow> consistent_row m src (src ! i) (unit_row (length src) i)"
  by (simp add: consistent_row_def encode_unit_row)

lemma stored_rows_length:
  "well_formed st \<Longrightarrow> b \<in> stored_rows st \<Longrightarrow> length b = symbols st"
  by (auto simp: stored_rows_def well_formed_def)

lemma decode_buffers_in_span:
  assumes wf: "well_formed st" and sv: "sv \<in> row_span (symbols st) C"
    and sub: "stored_rows st \<subseteq> row_span (symbols st) C"
    and run: "decode_with_vector_rows False st sd sv = Some (st', sd', sv')"
  shows "sv' \<in> row_span (symbols st) C"
proof (rule decode_with_vector_closed [where P = "\<lambda>x y. y \<in> row_span (symbols st) C", OF sv _ _ _ run])
  show "m_maximum_pivot st < symbols st" using wf by (simp add: well_formed_def)
next
  fix x y :: "'a list" and j c
  assume y: "y \<in> row_span (symbols st) C" and j: "j < symbols st" "symbol_exists st j"
  then have "vector st j \<in> row_span (symbols st) C" using sub stored_rowsI [OF j] by auto
  then show "multiply_subtract y (vector st j) c \<in> row_span (symbols st) C"
    using y by (rule row_span_multiply_subtract)
next
  fix x y :: "'a list" and c :: 'a
  assume "y \<in> row_span (symbols st) C"
  then show "multiply y c \<in> row_span (symbols st) C" by (rule row_span_multiply)
qed

lemma row_span_insert_swap:
  assumes u: "u \<in> row_span k (insert y S)" and y: "y \<in> row_span k (insert y' S)"
  shows "u \<in> row_span k (insert y' S)"
proof (rule row_span_subset [OF u])
  fix b assume b: "b \<in> insert y S" "length b = k"
  show "b \<in> row_span k (insert y' S)"
  proof (cases "b = y")
    case True then show ?thesis using y by simp
  next
    case False
    then show ?thesis using row_span_base [of b "insert y' S" k] b by simp
  qed
qed

text \<open>The packet is a combination of the row that came out of the elimination and the stored rows.\<close>

lemma decode_buffers_span_reverse:
  assumes wf: "well_formed st" and len: "length sv = symbols st"
    and run: "decode_with_vector_rows False st sd sv = Some (st', sd', sv')"
  shows "length sv' = symbols st \<and> sv \<in> row_span (symbols st) (insert sv' (stored_rows st))"
proof (rule decode_with_vector_closed
    [where P = "\<lambda>x y. length y = symbols st \<and> sv \<in> row_span (symbols st) (insert y (stored_rows st))",
      OF _ _ _ _ run])
  show "m_maximum_pivot st < symbols st" using wf by (simp add: well_formed_def)
  show "length sv = symbols st \<and> sv \<in> row_span (symbols st) (insert sv (stored_rows st))"
    using len row_span_base [of sv "insert sv (stored_rows st)" "symbols st"] by simp
next
  fix x y :: "'a list" and j c
  let ?S = "stored_rows st" and ?k = "symbols st"
  assume y: "length y = ?k \<and> sv \<in> row_span ?k (insert y ?S)"
    and j: "j < ?k" "symbol_exists st j"
  let ?y' = "multiply_subtract y (vector st j) c"
  have v: "vector st j \<in> ?S" "length (vector st j) = ?k"
    using stored_rowsI [OF j] stored_rows_length [OF wf] by auto
  have eq: "y = multiply_subtract ?y' (vector st j) (- c)"
    using y v by (intro nth_equalityI) simp_all
  have ly': "length ?y' = ?k" using y v by simp
  have "?y' \<in> row_span ?k (insert ?y' ?S)"
    using row_span_base [of ?y' "insert ?y' ?S" ?k] ly' by simp
  then have "multiply_subtract ?y' (vector st j) (- c) \<in> row_span ?k (insert ?y' ?S)"
    using span_step [of ?y' ?k "insert ?y' ?S" "vector st j" "- c"] v by simp
  then have "y \<in> row_span ?k (insert ?y' ?S)" using eq by simp
  then show "length ?y' = ?k \<and> sv \<in> row_span ?k (insert ?y' ?S)"
    using ly' y row_span_insert_swap by blast
next
  fix x y :: "'a list" and c :: 'a
  let ?S = "stored_rows st" and ?k = "symbols st"
  assume y: "length y = ?k \<and> sv \<in> row_span ?k (insert y ?S)" and c: "c \<noteq> 0"
  let ?y' = "multiply y c"
  have eq: "y = multiply ?y' (inverse c)"
    using c by (intro nth_equalityI) simp_all
  have ly': "length ?y' = ?k" using y by simp
  have "?y' \<in> row_span ?k (insert ?y' ?S)"
    using row_span_base [of ?y' "insert ?y' ?S" ?k] ly' by simp
  then have "multiply ?y' (inverse c) \<in> row_span ?k (insert ?y' ?S)"
    by (rule row_span_multiply)
  then have "y \<in> row_span ?k (insert ?y' ?S)" using eq by simp
  then show "length ?y' = ?k \<and> sv \<in> row_span ?k (insert ?y' ?S)"
    using ly' y row_span_insert_swap by blast
qed

lemma decode_buffers_consistent:
  assumes wf: "well_formed st" and con: "consistent src st"
    and row: "consistent_row (symbol_length st) src sd sv"
    and run: "decode_with_vector_rows False st sd sv = Some (st', sd', sv')"
  shows "consistent_row (symbol_length st) src sd' sv'"
proof (rule decode_with_vector_closed [where P = "consistent_row (symbol_length st) src", OF row _ _ _ run])
  show "m_maximum_pivot st < symbols st" using wf by (simp add: well_formed_def)
next
  fix x y :: "'a list" and j c
  assume "consistent_row (symbol_length st) src x y" "j < symbols st" "symbol_exists st j"
  then show "consistent_row (symbol_length st) src
     (multiply_subtract x (symbol_rows st j) c) (multiply_subtract y (vector st j) c)"
    using con by (intro consistent_row_multiply_subtract) (simp_all add: consistent_def)
next
  fix x y :: "'a list" and c :: 'a
  assume "consistent_row (symbol_length st) src x y"
  then show "consistent_row (symbol_length st) src (multiply x c) (multiply y c)"
    by (rule consistent_row_multiply)
qed

lemma multiply_subtract_undo:
  "length u = length v \<Longrightarrow> multiply_subtract (multiply_subtract u v a) v (- a) = u"
  by (intro nth_equalityI) simp_all

lemma zero_row_eqI: "length v = k \<Longrightarrow> \<forall>c<k. v ! c = 0 \<Longrightarrow> v = zero_row k"
  by (intro nth_equalityI) simp_all

lemma row_span_stored:
  "well_formed st \<Longrightarrow> j < symbols st \<Longrightarrow> symbol_exists st j
   \<Longrightarrow> vector st j \<in> row_span (symbols st) (stored_rows st)"
  using row_span_base [OF stored_rowsI] stored_rows_length stored_rowsI by blast

text \<open>What absorbing a genuine coded packet does to the span and to the payloads.\<close>

lemma decode_tracks_span:
  fixes st :: "'a::field row_decoder"
  assumes inv: "decoder_inv st" and con: "consistent src st"
    and len: "length sv = symbols st" "length sd = symbol_length st"
    and row: "consistent_row (symbol_length st) src sd sv"
  shows "\<exists>st' sd' sv'. decode_with_vector_rows False st sd sv = Some (st', sd', sv') \<and>
           decoder_inv st' \<and>
           symbols st' = symbols st \<and> symbol_length st' = symbol_length st \<and>
           m_uncoded st' = m_uncoded st \<and> consistent src st' \<and>
           (\<forall>b\<in>stored_rows st'. b \<in> row_span (symbols st) (insert sv (stored_rows st))) \<and>
           sv \<in> row_span (symbols st) (stored_rows st') \<and>
           (\<forall>b\<in>stored_rows st. b \<in> row_span (symbols st) (stored_rows st')) \<and>
           (sv \<notin> row_span (symbols st) (stored_rows st) \<longrightarrow> m_rank st' = m_rank st + 1)"
proof -
  let ?k = "symbols st" and ?S = "stored_rows st"
  from inv have wf: "well_formed st" by (simp add: decoder_inv_def)
  show ?thesis
  proof (rule decode_cases [OF inv len], goal_cases)
    case (1 sd' sv')
    have z: "sv' = zero_row ?k" using 1(3,4) by (intro zero_row_eqI) simp_all
    have "sv \<in> row_span ?k (insert sv' ?S)"
      using decode_buffers_span_reverse [OF wf len(1) 1(2)] by simp
    then have sv: "sv \<in> row_span ?k ?S"
    proof (rule row_span_subset)
      fix b assume "b \<in> insert sv' ?S" "length b = ?k"
      then show "b \<in> row_span ?k ?S"
        using z row_span.span_zero [of ?k ?S] row_span_base [of b ?S ?k] by auto
    qed
    have "\<forall>b\<in>?S. b \<in> row_span ?k (insert sv ?S)"
      using row_span_base [of _ "insert sv ?S" ?k] stored_rows_length [OF wf] by auto
    moreover have "\<forall>b\<in>?S. b \<in> row_span ?k ?S"
      using row_span_base [of _ ?S ?k] stored_rows_length [OF wf] by auto
    ultimately show ?case using 1(2) inv con sv by auto
  next
    case (2 p sd0 sv0 st' sd' sv')
    let ?S' = "stored_rows st'"
    from 2(3) have wf': "well_formed st'" by (simp add: decoder_inv_def)
    have lc: "length (m_coded st) = ?k" using wf by (simp add: well_formed_def)
    have ex: "symbol_exists st' j \<longleftrightarrow> j = p \<or> symbol_exists st j" if "j < ?k" for j
      using that 2(4,9,10) lc by (cases "j = p") (simp_all add: symbol_exists_def)
    have svC: "sv \<in> row_span ?k (insert sv ?S)"
      using row_span_base [of sv "insert sv ?S" ?k] len by simp
    have SC: "?S \<subseteq> row_span ?k (insert sv ?S)"
      using row_span_base [of _ "insert sv ?S" ?k] stored_rows_length [OF wf] by auto
    have sv'C: "sv' \<in> row_span ?k (insert sv ?S)"
      by (rule decode_buffers_in_span [OF wf svC SC 2(2)])
    have fwd: "\<forall>b\<in>?S'. b \<in> row_span ?k (insert sv ?S)"
    proof
      fix b assume "b \<in> ?S'"
      then obtain j where j: "j < ?k" "symbol_exists st' j" "b = vector st' j"
        using 2(6) by (auto simp: stored_rows_def)
      show "b \<in> row_span ?k (insert sv ?S)"
      proof (cases "j = p")
        case True
        then show ?thesis using j(3) 2(12) sv'C by simp
      next
        case False
        then have e: "symbol_exists st j" using ex j by simp
        obtain a where a: "vector st' j = multiply_subtract (vector st j) sv' a"
          using 2(17) [OF j(1) False] by blast
        have "vector st j \<in> row_span ?k (insert sv ?S)"
          using SC stored_rowsI [OF j(1) e] by auto
        then show ?thesis
          using row_span_multiply_subtract [OF sv'C] a j(3) by simp
      qed
    qed
    have pS': "sv' \<in> row_span ?k ?S'"
      using row_span_stored [OF wf', of p] ex [OF 2(4)] 2(4,6,12) by simp
    have revS: "\<forall>b\<in>?S. b \<in> row_span ?k ?S'"
    proof
      fix b assume "b \<in> ?S"
      then obtain j where j: "j < ?k" "symbol_exists st j" "b = vector st j"
        by (auto simp: stored_rows_def)
      then have jp: "j \<noteq> p" using 2(5) by auto
      obtain a where a: "vector st' j = multiply_subtract (vector st j) sv' a"
        using 2(17) [OF j(1) jp] by blast
      have "length (vector st j) = length sv'"
        using wf j(1) 2(14) by (simp add: well_formed_def)
      then have "vector st j = multiply_subtract (vector st' j) sv' (- a)"
        using multiply_subtract_undo [of "vector st j" sv' a] a by simp
      moreover have "vector st' j \<in> row_span ?k ?S'"
        using row_span_stored [OF wf', of j] ex [OF j(1)] j 2(6) by simp
      ultimately show "b \<in> row_span ?k ?S'"
        using row_span_multiply_subtract [OF pS'] j(3) by simp
    qed
    have "sv \<in> row_span ?k (insert sv' ?S)"
      using decode_buffers_span_reverse [OF wf len(1) 2(2)] by simp
    then have rev: "sv \<in> row_span ?k ?S'"
    proof (rule row_span_subset)
      fix b assume "b \<in> insert sv' ?S" "length b = ?k"
      then show "b \<in> row_span ?k ?S'" using pS' revS by auto
    qed
    have rowp: "consistent_row (symbol_length st) src sd' sv'"
      by (rule decode_buffers_consistent [OF wf con row 2(2)])
    have con': "consistent src st'"
      unfolding consistent_def
    proof (intro allI impI)
      fix j assume j: "j < symbols st'" "symbol_exists st' j"
      then have jk: "j < ?k" using 2(6) by simp
      show "consistent_row (symbol_length st') src (symbol_rows st' j) (vector st' j)"
      proof (cases "j = p")
        case True
        then show ?thesis using rowp 2(7,12,13) by simp
      next
        case False
        then have e: "symbol_exists st j" using ex [OF jk] j by simp
        obtain a where a: "vector st' j = multiply_subtract (vector st j) sv' a"
          "symbol_rows st' j = multiply_subtract (symbol_rows st j) sd' a"
          using 2(17) [OF jk False] by blast
        have "consistent_row (symbol_length st) src (symbol_rows st j) (vector st j)"
          using con jk e by (simp add: consistent_def)
        then show ?thesis
          using consistent_row_multiply_subtract [OF _ rowp] a 2(7) by simp
      qed
    qed
    show ?case using 2(2,3,6,7,8,9) con' fwd rev revS by auto
  qed
qed

lemma set_coefficient_zero_as_subtract:
  assumes "length v = k" "i < k" "v ! i = 1"
  shows "set_coefficient i v 0 = multiply_subtract v (unit_row k i) 1"
  using assms by (intro nth_equalityI) (auto simp: set_coefficient_def nth_list_update)

text \<open>What absorbing a genuine raw packet does to the span and to the payloads.\<close>

lemma decode_raw_tracks_span:
  fixes st :: "'a::field row_decoder"
  assumes inv: "decoder_inv st" and con: "consistent src st"
    and i: "i < symbols st" and len: "length sd = symbol_length st"
    and row: "consistent_row (symbol_length st) src sd (unit_row (symbols st) i)"
  shows "\<exists>st'. decode_raw_rows False st sd i = Some st' \<and>
           decoder_inv st' \<and>
           symbols st' = symbols st \<and> symbol_length st' = symbol_length st \<and>
           m_uncoded st' = (m_uncoded st)[i := True] \<and> consistent src st' \<and>
           (\<forall>b\<in>stored_rows st'. b \<in> row_span (symbols st) (insert (unit_row (symbols st) i) (stored_rows st))) \<and>
           unit_row (symbols st) i \<in> row_span (symbols st) (stored_rows st') \<and>
           (\<forall>b\<in>stored_rows st. b \<in> row_span (symbols st) (stored_rows st')) \<and>
           (unit_row (symbols st) i \<notin> row_span (symbols st) (stored_rows st)
              \<longrightarrow> m_rank st' = m_rank st + 1)"
proof -
  let ?k = "symbols st" and ?S = "stored_rows st" and ?m = "symbol_length st"
  let ?e = "unit_row ?k i :: 'a list"
  from inv have wf: "well_formed st" and ech: "echelon {} st" by (simp_all add: decoder_inv_def)
  have lu: "length (m_uncoded st) = ?k" "length (m_coded st) = ?k"
    using wf by (simp_all add: well_formed_def)
  have SC: "\<forall>b\<in>?S. b \<in> row_span ?k (insert ?e ?S)"
    using row_span_base [of _ "insert ?e ?S" ?k] stored_rows_length [OF wf] by auto
  have SS: "\<forall>b\<in>?S. b \<in> row_span ?k ?S"
    using row_span_base [of _ ?S ?k] stored_rows_length [OF wf] by auto
  have eC: "?e \<in> row_span ?k (insert ?e ?S)"
    using row_span_base [of ?e "insert ?e ?S" ?k] by simp
  show ?thesis
  proof (cases rule: decode_raw_cases [where i = i and st = st and sd = sd])
    case abort
    then show ?thesis using i by simp
  next
    case duplicate
    have "vector st i = ?e" using ech i duplicate(2) unfolding echelon_def by blast
    then have "?e \<in> ?S"
      using stored_rowsI [OF i, of] duplicate(2) by (auto simp: symbol_exists_def)
    then have "?e \<in> row_span ?k ?S" using SS by simp
    moreover have "(m_uncoded st)[i := True] = m_uncoded st"
      using duplicate(2) lu i by (simp add: list_update_same_conv)
    ultimately show ?thesis using duplicate(3) inv con SC SS by simp
  next
    case empty
    show ?thesis
    proof (rule decode_raw_empty [OF inv empty len], goal_cases)
      case (1 st')
      let ?S' = "stored_rows st'"
      from 1(2) have wf': "well_formed st'" by (simp add: decoder_inv_def)
      have ex: "symbol_exists st' j \<longleftrightarrow> j = i \<or> symbol_exists st j" if "j < ?k" for j
        using that 1(6,7) lu i by (cases "j = i") (simp_all add: symbol_exists_def)
      have eS': "?e \<in> row_span ?k ?S'"
        using row_span_stored [OF wf', of i] ex [OF i] i 1(3,9) by simp
      have fwd: "\<forall>b\<in>?S'. b \<in> row_span ?k (insert ?e ?S)"
      proof
        fix b assume "b \<in> ?S'"
        then obtain j where j: "j < ?k" "symbol_exists st' j" "b = vector st' j"
          using 1(3) by (auto simp: stored_rows_def)
        show "b \<in> row_span ?k (insert ?e ?S)"
        proof (cases "j = i")
          case True
          then show ?thesis using j(3) 1(9) eC by simp
        next
          case False
          then have e: "symbol_exists st j" using ex j by simp
          obtain a where a: "vector st' j = multiply_subtract (vector st j) ?e a"
            using 1(12) [OF j(1) False] by blast
          have "vector st j \<in> row_span ?k (insert ?e ?S)"
            using SC stored_rowsI [OF j(1) e] by auto
          then show ?thesis
            using row_span_multiply_subtract [OF eC] a j(3) by simp
        qed
      qed
      have revS: "\<forall>b\<in>?S. b \<in> row_span ?k ?S'"
      proof
        fix b assume "b \<in> ?S"
        then obtain j where j: "j < ?k" "symbol_exists st j" "b = vector st j"
          by (auto simp: stored_rows_def)
        then have ji: "j \<noteq> i" using empty by (auto simp: symbol_exists_def)
        obtain a where a: "vector st' j = multiply_subtract (vector st j) ?e a"
          using 1(12) [OF j(1) ji] by blast
        have "length (vector st j) = length ?e"
          using wf j(1) by (simp add: well_formed_def)
        then have "vector st j = multiply_subtract (vector st' j) ?e (- a)"
          using multiply_subtract_undo [of "vector st j" ?e a] a by simp
        moreover have "vector st' j \<in> row_span ?k ?S'"
          using row_span_stored [OF wf', of j] ex [OF j(1)] j 1(3) by simp
        ultimately show "b \<in> row_span ?k ?S'"
          using row_span_multiply_subtract [OF eS'] j(3) by simp
      qed
      have con': "consistent src st'"
        unfolding consistent_def
      proof (intro allI impI)
        fix j assume j: "j < symbols st'" "symbol_exists st' j"
        then have jk: "j < ?k" using 1(3) by simp
        show "consistent_row (symbol_length st') src (symbol_rows st' j) (vector st' j)"
        proof (cases "j = i")
          case True
          then show ?thesis using row 1(4,9,10) by simp
        next
          case False
          then have e: "symbol_exists st j" using ex [OF jk] j by simp
          obtain a where a: "vector st' j = multiply_subtract (vector st j) ?e a"
            "symbol_rows st' j = multiply_subtract (symbol_rows st j) sd a"
            using 1(12) [OF jk False] by blast
          have "consistent_row ?m src (symbol_rows st j) (vector st j)"
            using con jk e by (simp add: consistent_def)
          then show ?thesis
            using consistent_row_multiply_subtract [OF _ row] a 1(4) by simp
        qed
      qed
      show ?case using 1(1-6) con' fwd eS' revS by auto
    qed
  next
    case swap
    have exi: "symbol_exists st i" using swap(3) by (simp add: symbol_exists_def)
    have ViS: "vector st i \<in> ?S" by (rule stored_rowsI [OF i exi])
    show ?thesis
      unfolding swap(4)
    proof (rule swap_cases [OF inv swap(1,3) len], goal_cases)
      case (1 st')
      let ?S' = "stored_rows st'"
      have ex: "symbol_exists st' j \<longleftrightarrow> symbol_exists st j" if "j < ?k" for j
        using that 1(6,7) lu i swap(3) by (cases "j = i") (simp_all add: symbol_exists_def)
      have rows: "vector st' j = vector st j" if "j < ?k" for j
        using that 1(9,10) 1(12) [of j] by (cases "j = i") simp_all
      have SS': "?S' = ?S"
      proof -
        have "{vector st' j | j. j < ?k \<and> symbol_exists st' j}
                = {vector st j | j. j < ?k \<and> symbol_exists st j}"
          using ex rows by metis
        then show ?thesis using 1(3) by (simp add: stored_rows_def)
      qed
      have eS: "?e \<in> row_span ?k ?S" using ViS 1(9) SS by simp
      have con': "consistent src st'"
        unfolding consistent_def
      proof (intro allI impI)
        fix j assume j: "j < symbols st'" "symbol_exists st' j"
        then have jk: "j < ?k" and e: "symbol_exists st j" using 1(3) ex by simp_all
        show "consistent_row (symbol_length st') src (symbol_rows st' j) (vector st' j)"
        proof (cases "j = i")
          case True
          then show ?thesis using row 1(4,10,11) by simp
        next
          case False
          then show ?thesis using con jk e 1(4) 1(12) [OF jk False] by (simp add: consistent_def)
        qed
      qed
      show ?case using 1(1-6) con' SS' SC SS eS by simp
    next
      case (2 st' p st3 sd2 sv2)
      note P = 2
      let ?S' = "stored_rows st'" and ?st2 = "swap_state_rows st sd i"
      let ?w = "set_coefficient i (vector st i) 0" and ?y = "subtract (symbol_rows st i) sd"
      from P(2) have wf': "well_formed st'" by (simp add: decoder_inv_def)
      note sp = swap_state_props [OF inv i swap(3) len]
      have ex: "symbol_exists st' j \<longleftrightarrow> j = p \<or> symbol_exists st j" if "j < ?k" for j
      proof -
        have "m_coded st' ! j = (j = p \<or> (j \<noteq> i \<and> m_coded st ! j))"
          using that P(4,5) lu i by (cases "j = p"; cases "j = i") (simp_all add: P(11))
        moreover have "m_uncoded st' ! j = (j = i \<or> m_uncoded st ! j)"
          using that lu i by (cases "j = i") (simp_all add: P(10))
        ultimately show ?thesis using swap(3) by (auto simp: symbol_exists_def)
      qed
      have lVi: "length (vector st i) = ?k" using wf i by (simp add: well_formed_def)
      have w: "?w = multiply_subtract (vector st i) ?e 1"
        by (rule set_coefficient_zero_as_subtract [OF lVi i sp(12)])
      have S2: "stored_rows ?st2 \<subseteq> ?S"
        using sp(3,9,10) by (auto simp: stored_rows_def)
      have wC: "?w \<in> row_span ?k (insert ?e ?S)"
        unfolding w using row_span_multiply_subtract [OF eC] SC ViS by simp
      have S2C: "stored_rows ?st2 \<subseteq> row_span (symbols ?st2) (insert ?e ?S)"
        using S2 SC sp(3) by auto
      have sv2C: "sv2 \<in> row_span ?k (insert ?e ?S)"
        using decode_buffers_in_span [OF sp(1) _ S2C P(3)] wC sp(3) by simp
      have eS': "?e \<in> row_span ?k ?S'"
        using row_span_stored [OF wf', of i] ex [OF i] exi i P(7,13) by simp
      have pS': "sv2 \<in> row_span ?k ?S'"
        using row_span_stored [OF wf', of p] ex [OF P(4)] P(4,7,15) by simp
      have fwd: "\<forall>b\<in>?S'. b \<in> row_span ?k (insert ?e ?S)"
      proof
        fix b assume "b \<in> ?S'"
        then obtain j where j: "j < ?k" "symbol_exists st' j" "b = vector st' j"
          using P(7) by (auto simp: stored_rows_def)
        consider "j = i" | "j = p" | "j \<noteq> i" "j \<noteq> p" by blast
        then show "b \<in> row_span ?k (insert ?e ?S)"
        proof cases
          case 1 then show ?thesis using j(3) P(13) eC by simp
        next
          case 2 then show ?thesis using j(3) P(15) sv2C by simp
        next
          case 3
          then have e: "symbol_exists st j" using ex j by simp
          obtain a where a: "vector st' j = multiply_subtract (vector st j) sv2 a"
            using P(20) [OF j(1) 3] by blast
          have "vector st j \<in> row_span ?k (insert ?e ?S)"
            using SC stored_rowsI [OF j(1) e] by auto
          then show ?thesis
            using row_span_multiply_subtract [OF sv2C] a j(3) by simp
        qed
      qed
      have others: "vector st j \<in> row_span ?k ?S'" if "j < ?k" "symbol_exists st j" "j \<noteq> i" for j
      proof -
        note t = that
        have jp: "j \<noteq> p" using t P(6) by auto
        obtain a where a: "vector st' j = multiply_subtract (vector st j) sv2 a"
          using P(20) [OF t(1,3) jp] by blast
        have "length (vector st j) = length sv2"
          using wf t(1) P(17) by (simp add: well_formed_def)
        then have "vector st j = multiply_subtract (vector st' j) sv2 (- a)"
          using multiply_subtract_undo [of "vector st j" sv2 a] a by simp
        moreover have "vector st' j \<in> row_span ?k ?S'"
          using row_span_stored [OF wf', of j] ex [OF t(1)] t P(7) by simp
        ultimately show ?thesis
          using row_span_multiply_subtract [OF pS'] by simp
      qed
      have "?w \<in> row_span (symbols ?st2) (insert sv2 (stored_rows ?st2))"
        using decode_buffers_span_reverse [OF sp(1) _ P(3)] sp(3,13) by simp
      then have wS': "?w \<in> row_span ?k ?S'"
        unfolding sp(3)
      proof (rule row_span_subset)
        fix b assume b: "b \<in> insert sv2 (stored_rows ?st2)" "length b = ?k"
        show "b \<in> row_span ?k ?S'"
        proof (cases "b = sv2")
          case True then show ?thesis using pS' by simp
        next
          case False
          then obtain j where "j < ?k" "symbol_exists ?st2 j" "b = vector ?st2 j"
            using b sp(3) by (auto simp: stored_rows_def)
          then show ?thesis using others [of j] sp(9,10) by simp
        qed
      qed
      have Vi: "vector st i = multiply_subtract ?w ?e (- 1)"
        unfolding w using multiply_subtract_undo [of "vector st i" ?e 1] lVi by simp
      have ViS': "vector st i \<in> row_span ?k ?S'"
        by (rule ssubst [OF Vi]) (rule row_span_multiply_subtract [OF eS' wS'])
      have revS: "\<forall>b\<in>?S. b \<in> row_span ?k ?S'"
      proof
        fix b assume "b \<in> ?S"
        then obtain j where j: "j < ?k" "symbol_exists st j" "b = vector st j"
          by (auto simp: stored_rows_def)
        then show "b \<in> row_span ?k ?S'"
          using others [of j] ViS' by (cases "j = i") simp_all
      qed
      have rowi: "consistent_row ?m src (symbol_rows st i) (vector st i)"
        using con i exi by (simp add: consistent_def)
      have "consistent_row ?m src (multiply_subtract (symbol_rows st i) sd 1)
              (multiply_subtract (vector st i) ?e 1)"
        by (rule consistent_row_multiply_subtract [OF rowi row])
      then have row2: "consistent_row (symbol_length ?st2) src ?y ?w"
        using w sp(4) by (simp add: multiply_subtract_one)
      have con2: "consistent src ?st2"
        using con sp(3,4,9,10) by (simp add: consistent_def)
      have rowp: "consistent_row ?m src sd2 sv2"
        using decode_buffers_consistent [OF sp(1) con2 row2 P(3)] sp(4) by simp
      have con': "consistent src st'"
        unfolding consistent_def
      proof (intro allI impI)
        fix j assume j: "j < symbols st'" "symbol_exists st' j"
        then have jk: "j < ?k" using P(7) by simp
        consider "j = i" | "j = p" | "j \<noteq> i" "j \<noteq> p" by blast
        then show "consistent_row (symbol_length st') src (symbol_rows st' j) (vector st' j)"
        proof cases
          case 1 then show ?thesis using row P(8,13,14) by simp
        next
          case 2 then show ?thesis using rowp P(8,15,16) by simp
        next
          case 3
          then have e: "symbol_exists st j" using ex [OF jk] j by simp
          obtain a where a: "vector st' j = multiply_subtract (vector st j) sv2 a"
            "symbol_rows st' j = multiply_subtract (symbol_rows st j) sd2 a"
            using P(20) [OF jk 3] by blast
          have "consistent_row ?m src (symbol_rows st j) (vector st j)"
            using con jk e by (simp add: consistent_def)
          then show ?thesis
            using consistent_row_multiply_subtract [OF _ rowp] a P(8) by simp
        qed
      qed
      show ?case using P(1,2,7-10) con' fwd eS' revS by auto
    qed
  qed
qed


lemma absorb_tracks_span:
  fixes st :: "'a::field row_decoder"
  assumes r: "reachable_rows bin st" and con: "consistent src st"
    and src: "length src = symbols st" "\<forall>row\<in>set src. length row = symbol_length st"
    and gen: "genuine (symbol_length st) src pkt"
  shows "\<exists>st'. absorb_rows bin st pkt = Some st' \<and> fits st pkt \<and> reachable_rows bin st' \<and>
           symbols st' = symbols st \<and> symbol_length st' = symbol_length st \<and>
           consistent src st' \<and>
           m_uncoded st' = (case pkt of Coded sd sv \<Rightarrow> m_uncoded st
                                      | Raw sd i \<Rightarrow> (m_uncoded st)[i := True]) \<and>
           (\<forall>b\<in>stored_rows st'. b \<in> row_span (symbols st)
                (insert (packet_vector (symbols st) pkt) (stored_rows st))) \<and>
           packet_vector (symbols st) pkt \<in> row_span (symbols st) (stored_rows st') \<and>
           (\<forall>b\<in>stored_rows st. b \<in> row_span (symbols st) (stored_rows st')) \<and>
           (packet_vector (symbols st) pkt \<notin> row_span (symbols st) (stored_rows st)
              \<longrightarrow> m_rank st' = m_rank st + 1)"
proof (cases pkt)
  case (Coded sd sv)
  note inv = reachable_inv [OF r]
  have len: "length sv = symbols st" "length sd = symbol_length st"
    and row: "consistent_row (symbol_length st) src sd sv"
    using gen src Coded by (simp_all add: consistent_row_def)
  have d: "decode_rows bin st sd sv = decode_with_vector_rows False st sd sv"
    by (simp add: decode_rows_def decode_with_vector_reachable_flag [OF r])
  from decode_tracks_span [OF inv con len row]
  obtain st' sd' sv' where s: "decode_with_vector_rows False st sd sv = Some (st', sd', sv')"
    "symbols st' = symbols st \<and> symbol_length st' = symbol_length st \<and>
           m_uncoded st' = m_uncoded st \<and> consistent src st' \<and>
           (\<forall>b\<in>stored_rows st'. b \<in> row_span (symbols st) (insert sv (stored_rows st))) \<and>
           sv \<in> row_span (symbols st) (stored_rows st') \<and>
           (\<forall>b\<in>stored_rows st. b \<in> row_span (symbols st) (stored_rows st')) \<and>
           (sv \<notin> row_span (symbols st) (stored_rows st) \<longrightarrow> m_rank st' = m_rank st + 1)"
    by blast
  have a: "absorb_rows bin st pkt = Some st'" "fits st pkt"
    using s(1) d Coded len by simp_all
  have "reachable_rows bin st'" by (rule absorb_rows_reachable [OF r a(2,1)])
  then show ?thesis using a s(2) Coded by (intro exI [of _ st']) simp
next
  case (Raw sd i)
  note inv = reachable_inv [OF r]
  have i: "i < symbols st" and sd: "sd = src ! i" using gen src Raw by simp_all
  have len: "length sd = symbol_length st" using src i sd by simp
  have row: "consistent_row (symbol_length st) src sd (unit_row (symbols st) i)"
    using consistent_row_unit [of i src "symbol_length st"] src i sd by simp
  have d: "decode_raw_rows bin st sd i = decode_raw_rows False st sd i"
    by (rule decode_raw_reachable_flag [OF r])
  from decode_raw_tracks_span [OF inv con i len row]
  obtain st' where s: "decode_raw_rows False st sd i = Some st'"
    "symbols st' = symbols st \<and> symbol_length st' = symbol_length st \<and>
           m_uncoded st' = (m_uncoded st)[i := True] \<and> consistent src st' \<and>
           (\<forall>b\<in>stored_rows st'. b \<in> row_span (symbols st) (insert (unit_row (symbols st) i) (stored_rows st))) \<and>
           unit_row (symbols st) i \<in> row_span (symbols st) (stored_rows st') \<and>
           (\<forall>b\<in>stored_rows st. b \<in> row_span (symbols st) (stored_rows st')) \<and>
           (unit_row (symbols st) i \<notin> row_span (symbols st) (stored_rows st)
              \<longrightarrow> m_rank st' = m_rank st + 1)"
    by blast
  have a: "absorb_rows bin st pkt = Some st'" "fits st pkt"
    using s(1) d Raw len by simp_all
  have "reachable_rows bin st'" by (rule absorb_rows_reachable [OF r a(2,1)])
  then show ?thesis using a s(2) Raw by (intro exI [of _ st']) simp
qed



text \<open>
  Two states with the echelon shape whose stored rows span the same space occupy the same
  slots with the same coefficient rows.
\<close>

lemma echelon_occupied_subset:
  fixes st1 st2 :: "'a::field row_decoder"
  assumes inv1: "decoder_inv st1" and inv2: "decoder_inv st2"
    and k: "symbols st1 = symbols st2"
    and sub: "\<forall>b\<in>stored_rows st1. b \<in> row_span (symbols st2) (stored_rows st2)"
    and j: "j < symbols st1" "symbol_exists st1 j"
  shows "symbol_exists st2 j"
proof (rule ccontr)
  assume n: "\<not> symbol_exists st2 j"
  let ?k = "symbols st2"
  from inv1 have wf1: "well_formed st1" and ech1: "echelon {} st1" by (simp_all add: decoder_inv_def)
  from inv2 have wf2: "well_formed st2" and ech2: "echelon {} st2" by (simp_all add: decoder_inv_def)
  have v: "vector st1 j \<in> row_span ?k (stored_rows st2)"
    using sub stored_rowsI [OF j] by simp
  have jk: "j < ?k" using j k by simp
  note row1 = echelon_row [OF wf1 ech1 j]
  have "vector st1 j ! j = (\<Sum>l | l < ?k \<and> symbol_exists st2 l. vector st1 j ! l * vector st2 l ! j)"
    by (rule row_span_coordinates [OF wf2 ech2 v jk])
  also have "\<dots> = (\<Sum>l | l < ?k \<and> symbol_exists st2 l. 0)"
  proof (intro sum.cong refl)
    fix l assume "l \<in> {l. l < ?k \<and> symbol_exists st2 l}"
    then have l: "l < ?k" "symbol_exists st2 l" by simp_all
    then have "l \<noteq> j" using n by auto
    then consider "l < j" | "j < l" by (meson nat_neq_iff)
    then show "vector st1 j ! l * vector st2 l ! j = 0"
    proof cases
      case 1
      then show ?thesis using row1(2) by simp
    next
      case 2
      then show ?thesis using echelon_row(2) [OF wf2 ech2 l] by simp
    qed
  qed
  finally show False using row1(1) by simp
qed

lemma echelon_rows_unique:
  fixes st1 st2 :: "'a::field row_decoder"
  assumes inv1: "decoder_inv st1" and inv2: "decoder_inv st2"
    and k: "symbols st1 = symbols st2"
    and sub12: "\<forall>b\<in>stored_rows st1. b \<in> row_span (symbols st2) (stored_rows st2)"
    and sub21: "\<forall>b\<in>stored_rows st2. b \<in> row_span (symbols st1) (stored_rows st1)"
    and j: "j < symbols st1"
  shows "symbol_exists st1 j \<longleftrightarrow> symbol_exists st2 j" "vector st1 j = vector st2 j"
proof -
  let ?k = "symbols st2"
  from inv1 have wf1: "well_formed st1" and ech1: "echelon {} st1" and bl1: "blank_rows st1"
    by (simp_all add: decoder_inv_def)
  from inv2 have wf2: "well_formed st2" and ech2: "echelon {} st2" and bl2: "blank_rows st2"
    by (simp_all add: decoder_inv_def)
  have occ: "symbol_exists st1 l \<longleftrightarrow> symbol_exists st2 l" if "l < ?k" for l
    using echelon_occupied_subset [OF inv1 inv2 k sub12, of l]
      echelon_occupied_subset [OF inv2 inv1 k [symmetric] sub21, of l] that k by auto
  show "symbol_exists st1 j \<longleftrightarrow> symbol_exists st2 j" using occ j k by simp
  show "vector st1 j = vector st2 j"
  proof (cases "symbol_exists st1 j")
    case False
    then show ?thesis using bl1 bl2 occ j k by (simp add: blank_rows_def)
  next
    case True
    then have e2: "symbol_exists st2 j" and jk: "j < ?k" using occ j k by simp_all
    note row1 = echelon_row [OF wf1 ech1 j True]
    have v: "vector st1 j \<in> row_span ?k (stored_rows st2)"
      using sub12 stored_rowsI [OF j True] by simp
    show ?thesis
    proof (rule nth_equalityI)
      show "length (vector st1 j) = length (vector st2 j)"
        using wf1 wf2 j k by (simp add: well_formed_def)
    next
      fix c assume "c < length (vector st1 j)"
      then have c: "c < ?k" using row1(6) k by simp
      have "vector st1 j ! c
              = (\<Sum>l | l < ?k \<and> symbol_exists st2 l. vector st1 j ! l * vector st2 l ! c)"
        by (rule row_span_coordinates [OF wf2 ech2 v c])
      also have "\<dots> = (\<Sum>l | l < ?k \<and> symbol_exists st2 l. if l = j then vector st2 j ! c else 0)"
      proof (intro sum.cong refl)
        fix l assume "l \<in> {l. l < ?k \<and> symbol_exists st2 l}"
        then have l: "l < symbols st1" "symbol_exists st1 l" using occ k by simp_all
        show "vector st1 j ! l * vector st2 l ! c = (if l = j then vector st2 j ! c else 0)"
          using row1(1) row1(3) [OF l(1)] l(2) by (cases "l = j") simp_all
      qed
      also have "\<dots> = vector st2 j ! c"
        using e2 jk by simp
      finally show "vector st1 j ! c = vector st2 j ! c" .
    qed
  qed
qed

lemma reachable_blank_payload:
  "reachable_rows bin st \<Longrightarrow> j < symbols st \<Longrightarrow> \<not> symbol_exists st j
   \<Longrightarrow> symbol_rows st j = zero_row (symbol_length st)"
proof (induction arbitrary: j rule: reachable_rows.induct)
  case (reachable_rows_initialize k m)
  then show ?case by (simp add: initialize_rows_def symbol_rows_def zero_row_def)
next
  case (reachable_rows_decode st symbol_data symbol_id st' sd' sv')
  note inv = reachable_inv [OF reachable_rows_decode(1)]
  have lc: "length (m_coded st) = symbols st"
    using inv by (simp add: decoder_inv_def well_formed_def)
  have d: "decode_with_vector_rows False st symbol_data symbol_id = Some (st', sd', sv')"
    using reachable_rows_decode(4) decode_with_vector_reachable_flag [OF reachable_rows_decode(1)]
    by (simp add: decode_rows_def)
  show ?case
  proof (rule decode_cases [OF inv reachable_rows_decode(3,2)], goal_cases)
    case (1 sd1 sv1)
    then have "st' = st" using d by simp
    then show ?case using reachable_rows_decode.IH reachable_rows_decode.prems by simp
  next
    case (2 p sd0 sv0 st1 sd1 sv1)
    then have eq: "st1 = st'" using d by simp
    note P = 2 [unfolded eq]
    have jk: "j < symbols st" using reachable_rows_decode.prems(1) P(6) by simp
    have jp: "j \<noteq> p"
      using reachable_rows_decode.prems(2) P(4,10) lc by (auto simp: symbol_exists_def)
    have nj: "\<not> symbol_exists st j"
      using reachable_rows_decode.prems(2) P(9,10) jp by (simp add: symbol_exists_def)
    then have "\<not> m_coded st ! j" by (simp add: symbol_exists_def)
    then show ?case
      using P(16) [OF jk jp] P(7) reachable_rows_decode.IH [OF jk nj] by simp
  qed
next
  case (reachable_rows_decode_raw st symbol_data symbol_index st')
  let ?i = symbol_index
  note inv = reachable_inv [OF reachable_rows_decode_raw(1)]
  have lc: "length (m_coded st) = symbols st" "length (m_uncoded st) = symbols st"
    using inv by (simp_all add: decoder_inv_def well_formed_def)
  have d: "decode_raw_rows False st symbol_data ?i = Some st'"
    using reachable_rows_decode_raw(3) decode_raw_reachable_flag [OF reachable_rows_decode_raw(1)]
    by simp
  show ?case
  proof (cases rule: decode_raw_cases [where i = ?i and st = st and sd = symbol_data])
    case abort
    then show ?thesis using d by simp
  next
    case duplicate
    then have "st' = st" using d by simp
    then show ?thesis using reachable_rows_decode_raw.IH reachable_rows_decode_raw.prems by simp
  next
    case empty
    show ?thesis
    proof (rule decode_raw_empty [OF inv empty reachable_rows_decode_raw(2)], goal_cases)
      case (1 st1)
      then have eq: "st1 = st'" using d by simp
      note P = 1 [unfolded eq]
      have jk: "j < symbols st" using reachable_rows_decode_raw.prems(1) P(3) by simp
      have ji: "j \<noteq> ?i"
        using reachable_rows_decode_raw.prems(2) P(6) lc empty(1) by (auto simp: symbol_exists_def)
      have nj: "\<not> symbol_exists st j"
        using reachable_rows_decode_raw.prems(2) P(6,7) ji by (simp add: symbol_exists_def)
      then have "\<not> m_coded st ! j" by (simp add: symbol_exists_def)
      then show ?case
        using P(11) [OF jk ji] P(4) reachable_rows_decode_raw.IH [OF jk nj] by simp
    qed
  next
    case swap
    show ?thesis
    proof (rule swap_cases [OF inv swap(1,3) reachable_rows_decode_raw(2)], goal_cases)
      case (1 st1)
      then have eq: "st1 = st'" using d swap(4) by simp
      note P = 1 [unfolded eq]
      have jk: "j < symbols st" using reachable_rows_decode_raw.prems(1) P(3) by simp
      have ji: "j \<noteq> ?i"
        using reachable_rows_decode_raw.prems(2) P(6) lc swap(1) by (auto simp: symbol_exists_def)
      have nj: "\<not> symbol_exists st j"
        using reachable_rows_decode_raw.prems(2) P(6,7) ji by (simp add: symbol_exists_def)
      show ?case
        using P(12) [OF jk ji] P(4) reachable_rows_decode_raw.IH [OF jk nj] by simp
    next
      case (2 st1 p st3 sd2 sv2)
      then have eq: "st1 = st'" using d swap(4) by simp
      note P = 2 [unfolded eq]
      have jk: "j < symbols st" using reachable_rows_decode_raw.prems(1) P(7) by simp
      have ji: "j \<noteq> ?i"
        using reachable_rows_decode_raw.prems(2) P(10) lc swap(1) by (auto simp: symbol_exists_def)
      have jp: "j \<noteq> p"
        using reachable_rows_decode_raw.prems(2) P(4,11) lc by (auto simp: symbol_exists_def)
      have nj: "\<not> symbol_exists st j"
        using reachable_rows_decode_raw.prems(2) P(10,11) ji jp by (simp add: symbol_exists_def)
      then have "\<not> m_coded st ! j" by (simp add: symbol_exists_def)
      then show ?case
        using P(19) [OF jk ji jp] P(8) reachable_rows_decode_raw.IH [OF jk nj] by simp
    qed
  qed
qed

lemma Max_occupied_insert:
  assumes "symbols st' = symbols st" "p < symbols st"
    and "\<And>j. j < symbols st \<Longrightarrow> symbol_exists st' j \<longleftrightarrow> j = p \<or> symbol_exists st j"
  shows "Max (insert 0 {j. j < symbols st' \<and> symbol_exists st' j})
         = max p (Max (insert 0 {j. j < symbols st \<and> symbol_exists st j}))"
proof -
  have "{j. j < symbols st' \<and> symbol_exists st' j}
          = insert p {j. j < symbols st \<and> symbol_exists st j}"
    using assms by auto
  then have "insert 0 {j. j < symbols st' \<and> symbol_exists st' j}
          = insert p (insert 0 {j. j < symbols st \<and> symbol_exists st j})"
    by auto
  then show ?thesis by simp
qed

lemma Max_occupied_same:
  assumes "symbols st' = symbols st"
    and "\<And>j. j < symbols st \<Longrightarrow> symbol_exists st' j \<longleftrightarrow> symbol_exists st j"
  shows "Max (insert 0 {j. j < symbols st' \<and> symbol_exists st' j})
         = Max (insert 0 {j. j < symbols st \<and> symbol_exists st j})"
proof -
  have "{j. j < symbols st' \<and> symbol_exists st' j} = {j. j < symbols st \<and> symbol_exists st j}"
    using assms by auto
  then show ?thesis by simp
qed

text \<open>The maximum pivot is the largest occupied slot, or 0 when no slot is occupied.\<close>

lemma reachable_maximum_pivot:
  "reachable_rows bin st
   \<Longrightarrow> m_maximum_pivot st = Max (insert 0 {j. j < symbols st \<and> symbol_exists st j})"
proof (induction rule: reachable_rows.induct)
  case (reachable_rows_initialize k m)
  let ?st = "initialize_rows k m :: 'a row_decoder"
  have e: "{j. j < symbols ?st \<and> symbol_exists ?st j} = {}"
    by (auto simp: initialize_rows_def symbol_exists_def)
  have "Max (insert 0 {j. j < symbols ?st \<and> symbol_exists ?st j}) = 0"
    unfolding e by simp
  moreover have "m_maximum_pivot ?st = 0" by (simp add: initialize_rows_def)
  ultimately show ?case by simp
next
  case (reachable_rows_decode st symbol_data symbol_id st' sd' sv')
  note inv = reachable_inv [OF reachable_rows_decode(1)]
  have lc: "length (m_coded st) = symbols st"
    using inv by (simp add: decoder_inv_def well_formed_def)
  have d: "decode_with_vector_rows False st symbol_data symbol_id = Some (st', sd', sv')"
    using reachable_rows_decode(4) decode_with_vector_reachable_flag [OF reachable_rows_decode(1)]
    by (simp add: decode_rows_def)
  show ?case
  proof (rule decode_cases [OF inv reachable_rows_decode(3,2)], goal_cases)
    case (1 sd1 sv1)
    then have "st' = st" using d by simp
    then show ?case using reachable_rows_decode.IH by simp
  next
    case (2 p sd0 sv0 st1 sd1 sv1)
    then have eq: "st1 = st'" using d by simp
    note P = 2 [unfolded eq]
    have ex: "symbol_exists st' j \<longleftrightarrow> j = p \<or> symbol_exists st j" if "j < symbols st" for j
      using that P(4,9,10) lc by (cases "j = p") (simp_all add: symbol_exists_def)
    show ?case
      using Max_occupied_insert [OF P(6) P(4) ex] P(11) reachable_rows_decode.IH by simp
  qed
next
  case (reachable_rows_decode_raw st symbol_data symbol_index st')
  let ?i = symbol_index
  note inv = reachable_inv [OF reachable_rows_decode_raw(1)]
  have lc: "length (m_coded st) = symbols st" "length (m_uncoded st) = symbols st"
    using inv by (simp_all add: decoder_inv_def well_formed_def)
  have d: "decode_raw_rows False st symbol_data ?i = Some st'"
    using reachable_rows_decode_raw(3) decode_raw_reachable_flag [OF reachable_rows_decode_raw(1)]
    by simp
  show ?case
  proof (cases rule: decode_raw_cases [where i = ?i and st = st and sd = symbol_data])
    case abort
    then show ?thesis using d by simp
  next
    case duplicate
    then have "st' = st" using d by simp
    then show ?thesis using reachable_rows_decode_raw.IH by simp
  next
    case empty
    show ?thesis
    proof (rule decode_raw_empty [OF inv empty reachable_rows_decode_raw(2)], goal_cases)
      case (1 st1)
      then have eq: "st1 = st'" using d by simp
      note P = 1 [unfolded eq]
      have ex: "symbol_exists st' j \<longleftrightarrow> j = ?i \<or> symbol_exists st j" if "j < symbols st" for j
        using that P(6,7) lc empty(1) by (cases "j = ?i") (simp_all add: symbol_exists_def)
      show ?case
        using Max_occupied_insert [OF P(3) empty(1) ex] P(8) reachable_rows_decode_raw.IH by simp
    qed
  next
    case swap
    show ?thesis
    proof (rule swap_cases [OF inv swap(1,3) reachable_rows_decode_raw(2)], goal_cases)
      case (1 st1)
      then have eq: "st1 = st'" using d swap(4) by simp
      note P = 1 [unfolded eq]
      have ex: "symbol_exists st' j \<longleftrightarrow> symbol_exists st j" if "j < symbols st" for j
        using that P(6,7) lc swap(1,3) by (cases "j = ?i") (simp_all add: symbol_exists_def)
      show ?case
        using Max_occupied_same [OF P(3) ex] P(8) reachable_rows_decode_raw.IH by simp
    next
      case (2 st1 p st3 sd2 sv2)
      then have eq: "st1 = st'" using d swap(4) by simp
      note P = 2 [unfolded eq]
      have ex: "symbol_exists st' j \<longleftrightarrow> j = p \<or> symbol_exists st j" if "j < symbols st" for j
      proof -
        have "m_coded st' ! j = (j = p \<or> (j \<noteq> ?i \<and> m_coded st ! j))"
          using that P(4,5) lc swap(1)
          by (cases "j = p"; cases "j = ?i") (simp_all add: P(11))
        moreover have "m_uncoded st' ! j = (j = ?i \<or> m_uncoded st ! j)"
          using that lc swap(1) by (cases "j = ?i") (simp_all add: P(10))
        ultimately show ?thesis using swap(3) by (auto simp: symbol_exists_def)
      qed
      show ?case
        using Max_occupied_insert [OF P(7) P(4) ex] P(12) reachable_rows_decode_raw.IH by simp
    qed
  qed
qed

lemma absorb_all_genuine:
  fixes st :: "'a::field row_decoder"
  assumes "reachable_rows bin st" "consistent src st"
    and "length src = symbols st" "\<forall>row\<in>set src. length row = symbol_length st"
    and "\<forall>pkt\<in>set pkts. genuine (symbol_length st) src pkt"
  shows "\<exists>st'. absorb_all_rows bin st pkts = Some st' \<and> reachable_rows bin st' \<and> consistent src st' \<and>
           symbols st' = symbols st \<and> symbol_length st' = symbol_length st"
  using assms
proof (induction pkts arbitrary: st)
  case Nil
  then show ?case by simp
next
  case (Cons pkt pkts)
  have gen: "genuine (symbol_length st) src pkt" using Cons.prems(5) by simp
  from absorb_tracks_span [OF Cons.prems(1-4) gen]
  obtain st1 where s: "absorb_rows bin st pkt = Some st1" "fits st pkt" "reachable_rows bin st1"
    "symbols st1 = symbols st" "symbol_length st1 = symbol_length st" "consistent src st1"
    by blast
  have src1: "length src = symbols st1" "\<forall>row\<in>set src. length row = symbol_length st1"
    "\<forall>pkt\<in>set pkts. genuine (symbol_length st1) src pkt"
    using Cons.prems(3,4,5) s(4,5) by simp_all
  from Cons.IH [OF s(3,6) src1]
  obtain st' where "absorb_all_rows bin st1 pkts = Some st'" "reachable_rows bin st'" "consistent src st'"
    "symbols st' = symbols st1" "symbol_length st' = symbol_length st1"
    by blast
  then show ?case using s by simp
qed

lemma packet_vector_length:
  "genuine m src pkt \<Longrightarrow> length (packet_vector (length src) pkt) = length src"
  by (cases pkt) simp_all

text \<open>Two genuine packets, one after the other.\<close>

lemma absorb_two_tracks_span:
  fixes st :: "'a::field row_decoder"
  assumes r: "reachable_rows bin st" and con: "consistent src st"
    and src: "length src = symbols st" "\<forall>row\<in>set src. length row = symbol_length st"
    and ga: "genuine (symbol_length st) src a" and gb: "genuine (symbol_length st) src b"
  shows "\<exists>st1 st2. absorb_rows bin st a = Some st1 \<and> absorb_rows bin st1 b = Some st2 \<and>
           fits st a \<and> fits st1 b \<and> reachable_rows bin st1 \<and> reachable_rows bin st2 \<and> consistent src st2 \<and>
           symbols st2 = symbols st \<and> symbol_length st2 = symbol_length st \<and>
           m_uncoded st1 = (case a of Coded sd sv \<Rightarrow> m_uncoded st
                                     | Raw sd i \<Rightarrow> (m_uncoded st)[i := True]) \<and>
           m_uncoded st2 = (case b of Coded sd sv \<Rightarrow> m_uncoded st1
                                     | Raw sd i \<Rightarrow> (m_uncoded st1)[i := True]) \<and>
           (\<forall>x\<in>stored_rows st2. x \<in> row_span (symbols st)
                (insert (packet_vector (symbols st) a)
                   (insert (packet_vector (symbols st) b) (stored_rows st)))) \<and>
           (\<forall>x\<in>insert (packet_vector (symbols st) a)
                   (insert (packet_vector (symbols st) b) (stored_rows st)).
              x \<in> row_span (symbols st) (stored_rows st2))"
proof -
  let ?k = "symbols st" and ?S = "stored_rows st"
  let ?va = "packet_vector ?k a" and ?vb = "packet_vector ?k b"
  from absorb_tracks_span [OF r con src ga]
  obtain st1 where s1: "absorb_rows bin st a = Some st1" "fits st a" "reachable_rows bin st1"
    "symbols st1 = ?k" "symbol_length st1 = symbol_length st" "consistent src st1"
    "m_uncoded st1 = (case a of Coded sd sv \<Rightarrow> m_uncoded st
                                      | Raw sd i \<Rightarrow> (m_uncoded st)[i := True])"
    "\<forall>x\<in>stored_rows st1. x \<in> row_span ?k (insert ?va ?S)"
    "?va \<in> row_span ?k (stored_rows st1)"
    "\<forall>x\<in>?S. x \<in> row_span ?k (stored_rows st1)"
    by blast
  have src1: "length src = symbols st1" "\<forall>row\<in>set src. length row = symbol_length st1"
    "genuine (symbol_length st1) src b"
    using src gb s1(4,5) by simp_all
  from absorb_tracks_span [OF s1(3,6) src1]
  obtain st2 where s2: "absorb_rows bin st1 b = Some st2" "fits st1 b" "reachable_rows bin st2"
    "symbols st2 = ?k" "symbol_length st2 = symbol_length st" "consistent src st2"
    "m_uncoded st2 = (case b of Coded sd sv \<Rightarrow> m_uncoded st1
                                      | Raw sd i \<Rightarrow> (m_uncoded st1)[i := True])"
    "\<forall>x\<in>stored_rows st2. x \<in> row_span ?k (insert ?vb (stored_rows st1))"
    "?vb \<in> row_span ?k (stored_rows st2)"
    "\<forall>x\<in>stored_rows st1. x \<in> row_span ?k (stored_rows st2)"
    using s1(4,5) by auto
  let ?C = "insert ?va (insert ?vb ?S)"
  have fwd: "\<forall>x\<in>stored_rows st2. x \<in> row_span ?k ?C"
  proof
    fix x assume "x \<in> stored_rows st2"
    then have "x \<in> row_span ?k (insert ?vb (stored_rows st1))" using s2(8) by simp
    then show "x \<in> row_span ?k ?C"
    proof (rule row_span_subset)
      fix c assume c: "c \<in> insert ?vb (stored_rows st1)" "length c = ?k"
      show "c \<in> row_span ?k ?C"
      proof (cases "c = ?vb")
        case True
        then show ?thesis using row_span_base [of c ?C ?k] c by simp
      next
        case False
        then have "c \<in> row_span ?k (insert ?va ?S)" using c s1(8) by simp
        then show ?thesis by (rule row_span_mono) auto
      qed
    qed
  qed
  have va2: "?va \<in> row_span ?k (stored_rows st2)"
    by (rule row_span_subset [OF s1(9)]) (use s2(10) in simp)
  have S2: "\<forall>x\<in>?S. x \<in> row_span ?k (stored_rows st2)"
  proof
    fix x assume "x \<in> ?S"
    then have "x \<in> row_span ?k (stored_rows st1)" using s1(10) by simp
    then show "x \<in> row_span ?k (stored_rows st2)"
      by (rule row_span_subset) (use s2(10) in simp)
  qed
  show ?thesis
    using s1(1,2,3,7) s2(1-7) fwd va2 s2(9) S2 by auto
qed

lemma forward_substitute_to_pivot_reachable_flag:
  assumes "reachable_rows bin (st0 :: 'a::field row_decoder)"
  shows "forward_substitute_to_pivot_rows bin st sd (sv :: 'a list)
           = forward_substitute_to_pivot_rows False st sd sv"
proof (cases bin)
  case True
  then have "\<And>x::'a. x = 0 \<or> x = 1" using reachable_flag [OF assms] by simp
  then have "forward_to_pivot_loop_rows True st [0..< symbols st] sd sv
               = forward_to_pivot_loop_rows False st [0..< symbols st] sd sv"
    by (rule forward_to_pivot_loop_flag)
  then show ?thesis
    using True by (simp add: forward_substitute_to_pivot_rows_def)
next
  case False
  then show ?thesis by simp
qed

text \<open>
  Reachable states that agree on the block geometry, on the uncoded bit set and on the span
  of their stored rows, and whose payloads are consistent with the same source, are equal.
\<close>

lemma reachable_states_equal:
  fixes stA stB :: "'a::field row_decoder"
  assumes rA: "reachable_rows bin stA" and rB: "reachable_rows bin stB"
    and cA: "consistent src stA" and cB: "consistent src stB"
    and k: "symbols stA = symbols stB" and m: "symbol_length stA = symbol_length stB"
    and u: "m_uncoded stA = m_uncoded stB"
    and AB: "\<forall>b\<in>stored_rows stA. b \<in> row_span (symbols stB) (stored_rows stB)"
    and BA: "\<forall>b\<in>stored_rows stB. b \<in> row_span (symbols stA) (stored_rows stA)"
  shows "stA = stB"
proof -
  let ?k = "symbols stA"
  note invA = reachable_inv [OF rA] and invB = reachable_inv [OF rB]
  from invA have wfA: "well_formed stA" and echA: "echelon {} stA"
    and rkA: "m_rank stA = occupied_count stA" by (simp_all add: decoder_inv_def)
  from invB have wfB: "well_formed stB" and echB: "echelon {} stB"
    and rkB: "m_rank stB = occupied_count stB" by (simp_all add: decoder_inv_def)
  note un = echelon_rows_unique [OF invA invB k AB BA]
  have occ: "symbol_exists stA j \<longleftrightarrow> symbol_exists stB j" if "j < ?k" for j
    using un(1) [OF that] .
  have vec: "vector stA j = vector stB j" if "j < ?k" for j
    using un(2) [OF that] .
  have lens: "length (m_vectors stA) = ?k" "length (m_vectors stB) = ?k"
    "length (m_data stA) = ?k" "length (m_data stB) = ?k"
    "length (m_coded stA) = ?k" "length (m_coded stB) = ?k"
    using wfA wfB k by (simp_all add: well_formed_def)
  have V: "m_vectors stA = m_vectors stB"
    using lens vec by (intro nth_equalityI) (simp_all add: vector_def)
  have C: "m_coded stA = m_coded stB"
  proof (rule nth_equalityI)
    show "length (m_coded stA) = length (m_coded stB)" using lens by simp
  next
    fix j assume "j < length (m_coded stA)"
    then have j: "j < ?k" "j < symbols stB" using lens k by simp_all
    have "m_coded stA ! j \<longleftrightarrow> symbol_exists stA j \<and> \<not> m_uncoded stA ! j"
      using echA j(1) unfolding echelon_def symbol_exists_def by blast
    moreover have "m_coded stB ! j \<longleftrightarrow> symbol_exists stB j \<and> \<not> m_uncoded stB ! j"
      using echB j(2) unfolding echelon_def symbol_exists_def by blast
    ultimately show "m_coded stA ! j = m_coded stB ! j" using occ [OF j(1)] u by simp
  qed
  have D: "m_data stA = m_data stB"
  proof (rule nth_equalityI)
    show "length (m_data stA) = length (m_data stB)" using lens by simp
  next
    fix j assume "j < length (m_data stA)"
    then have j: "j < ?k" "j < symbols stB" using lens k by simp_all
    have "symbol_rows stA j = symbol_rows stB j"
    proof (cases "symbol_exists stA j")
      case True
      then have "symbol_exists stB j" using occ j by simp
      then show ?thesis
        using cA cB True j vec [OF j(1)] m by (simp add: consistent_def consistent_row_def)
    next
      case False
      then have "\<not> symbol_exists stB j" using occ j by simp
      then show ?thesis
        using reachable_blank_payload [OF rA j(1) False] reachable_blank_payload [OF rB j(2)] m
        by simp
    qed
    then show "m_data stA ! j = m_data stB ! j" by (simp add: symbol_rows_def)
  qed
  have set_eq: "{j. j < symbols stA \<and> symbol_exists stA j} = {j. j < symbols stB \<and> symbol_exists stB j}"
    using occ k by auto
  have R: "m_rank stA = m_rank stB"
    using rkA rkB set_eq by (simp add: occupied_count_card)
  have M: "m_maximum_pivot stA = m_maximum_pivot stB"
    using reachable_maximum_pivot [OF rA] reachable_maximum_pivot [OF rB] set_eq by simp
  show ?thesis
    using k m u V C D R M by (intro linear_block_decoder.equality) simp_all
qed


text \<open>A coded packet and a raw symbol, in both orders.\<close>

lemma swap_equivalence_rows:
  fixes src :: "'a::field list list"
  assumes k: "0 < k" and flag: "bin \<longrightarrow> (\<forall>x::'a. x = 0 \<or> x = 1)"
    and src: "length src = k" "\<forall>row\<in>set src. length row = m"
    and pre: "\<forall>pkt\<in>set pre. genuine m src pkt"
    and st: "absorb_all_rows bin (initialize_rows k m) pre = Some st"
    and gen: "genuine m src (Coded sd sv)" and i: "i < k"
  shows "\<exists>st1 stA. absorb_rows bin st (Coded sd sv) = Some st1 \<and>
           absorb_rows bin st1 (Raw (src ! i) i) = Some stA \<and>
           absorb_all_rows bin st [Raw (src ! i) i, Coded sd sv] = Some stA \<and>
           (fst (forward_substitute_to_pivot_rows bin st sd sv) = Some i \<longrightarrow>
              m_coded st1 ! i \<and>
              decode_raw_rows bin st1 (src ! i) i = swap_decode_rows bin st1 (src ! i) i)"
proof -
  let ?st0 = "initialize_rows k m :: 'a row_decoder"
  let ?c = "Coded sd sv :: 'a packet" and ?r = "Raw (src ! i) i :: 'a packet"
  have r0: "reachable_rows bin ?st0" by (rule reachable_rows_initialize [OF k flag])
  have con0: "consistent src ?st0"
    by (simp add: consistent_def initialize_rows_def symbol_exists_def)
  have "\<exists>st'. absorb_all_rows bin ?st0 pre = Some st' \<and> reachable_rows bin st' \<and> consistent src st' \<and>
           symbols st' = symbols ?st0 \<and> symbol_length st' = symbol_length ?st0"
    by (rule absorb_all_genuine [OF r0 con0]) (use src pre in \<open>simp_all add: initialize_rows_def\<close>)
  then have r: "reachable_rows bin st" and con: "consistent src st"
    and g: "symbols st = k" "symbol_length st = m"
    using st by (auto simp: initialize_rows_def)
  have s: "length src = symbols st" "\<forall>row\<in>set src. length row = symbol_length st"
    using src g by simp_all
  have gc: "genuine (symbol_length st) src ?c" using gen g by simp
  have gr: "genuine (symbol_length st) src ?r" using i src g by simp
  from absorb_two_tracks_span [OF r con s gc gr]
  obtain st1 stA where A: "absorb_rows bin st ?c = Some st1" "absorb_rows bin st1 ?r = Some stA"
    "reachable_rows bin stA" "consistent src stA" "symbols stA = symbols st"
    "symbol_length stA = symbol_length st"
    "m_uncoded st1 = m_uncoded st" "m_uncoded stA = (m_uncoded st1)[i := True]"
    "\<forall>x\<in>stored_rows stA. x \<in> row_span (symbols st)
       (insert (packet_vector (symbols st) ?c) (insert (packet_vector (symbols st) ?r) (stored_rows st)))"
    "\<forall>x\<in>insert (packet_vector (symbols st) ?c) (insert (packet_vector (symbols st) ?r) (stored_rows st)).
       x \<in> row_span (symbols st) (stored_rows stA)"
    by auto
  from absorb_two_tracks_span [OF r con s gr gc]
  obtain st2 stB where B: "absorb_rows bin st ?r = Some st2" "absorb_rows bin st2 ?c = Some stB"
    "fits st ?r" "fits st2 ?c"
    "reachable_rows bin stB" "consistent src stB" "symbols stB = symbols st"
    "symbol_length stB = symbol_length st"
    "m_uncoded st2 = (m_uncoded st)[i := True]" "m_uncoded stB = m_uncoded st2"
    "\<forall>x\<in>stored_rows stB. x \<in> row_span (symbols st)
       (insert (packet_vector (symbols st) ?r) (insert (packet_vector (symbols st) ?c) (stored_rows st)))"
    "\<forall>x\<in>insert (packet_vector (symbols st) ?r) (insert (packet_vector (symbols st) ?c) (stored_rows st)).
       x \<in> row_span (symbols st) (stored_rows stB)"
    by auto
  have AB: "\<forall>b\<in>stored_rows stA. b \<in> row_span (symbols stB) (stored_rows stB)"
  proof
    fix b assume "b \<in> stored_rows stA"
    then have "b \<in> row_span (symbols st)
       (insert (packet_vector (symbols st) ?c) (insert (packet_vector (symbols st) ?r) (stored_rows st)))"
      using A(9) by simp
    then have "b \<in> row_span (symbols st) (stored_rows stB)"
      by (rule row_span_subset) (use B(12) in auto)
    then show "b \<in> row_span (symbols stB) (stored_rows stB)" using B(7) by simp
  qed
  have BA: "\<forall>b\<in>stored_rows stB. b \<in> row_span (symbols stA) (stored_rows stA)"
  proof
    fix b assume "b \<in> stored_rows stB"
    then have "b \<in> row_span (symbols st)
       (insert (packet_vector (symbols st) ?r) (insert (packet_vector (symbols st) ?c) (stored_rows st)))"
      using B(11) by simp
    then have "b \<in> row_span (symbols st) (stored_rows stA)"
      by (rule row_span_subset) (use A(10) in auto)
    then show "b \<in> row_span (symbols stA) (stored_rows stA)" using A(5) by simp
  qed
  have eq: "stA = stB"
    by (rule reachable_states_equal [OF A(3) B(5) A(4) B(6) _ _ _ AB BA])
       (use A B in simp_all)
  have all: "absorb_all_rows bin st [?r, ?c] = Some stA"
    using B(1-4) eq by (simp del: absorb_rows.simps)
  have swap: "m_coded st1 ! i \<and> decode_raw_rows bin st1 (src ! i) i = swap_decode_rows bin st1 (src ! i) i"
    if piv: "fst (forward_substitute_to_pivot_rows bin st sd sv) = Some i"
  proof -
    note inv = reachable_inv [OF r]
    have len: "length sv = symbols st" "length sd = symbol_length st"
      using gen src g by simp_all
    have lc: "length (m_coded st) = symbols st"
      using inv by (simp add: decoder_inv_def well_formed_def)
    have piv': "fst (forward_substitute_to_pivot_rows False st sd sv) = Some i"
      using piv forward_substitute_to_pivot_reachable_flag [OF r] by simp
    have dec: "map_option fst (decode_with_vector_rows False st sd sv) = Some st1"
      using A(1) decode_with_vector_reachable_flag [OF r] by (simp add: decode_rows_def)
    have "m_coded st1 ! i \<and> \<not> m_uncoded st1 ! i \<and> i < symbols st1"
    proof (rule decode_cases [OF inv len], goal_cases)
      case (1 sd' sv')
      then show ?case using piv' by simp
    next
      case (2 p sd0 sv0 st' sd' sv')
      then have "p = i" "st' = st1" using piv' dec by simp_all
      then show ?case
        using 2(4,5,6,9,10) lc by (simp add: symbol_exists_def)
    qed
    then show ?thesis by (simp add: decode_raw_rows_def)
  qed
  show ?thesis
    using A(1,2) all swap by blast
qed

section \<open>The storage of one vector and the storage of separate rows\<close>

text \<open>
  The decoder and the decoder over separate rows, started together, stay related:
  they make the same decisions and compute the same bit sets, counters and coefficient
  rows, and the same payload rows when the block lies in the storage.
\<close>

lemma unat_product:
  "unat (word_of_nat a * word_of_nat b :: 32 word) = (a * b) mod 2 ^ 32"
  by (simp add: unat_word_ariths unat_of_nat mod_mult_eq)

lemma symbol_offset_mod:
  "symbol_offset st index =
     ((index * symbol_size st) mod 2 ^ 32) * symbol_length st div symbol_size st"
  by (simp add: symbol_offset_def unat_product)

lemma max_data_needed_mod:
  "max_data_needed max_symbols max_symbol_size = (max_symbols * max_symbol_size) mod 2 ^ 32"
  by (simp add: max_data_needed_def unat_product)

lemma symbol_offset_no_wrap:
  assumes "0 < symbol_size st" "index * symbol_size st < 2 ^ 32"
  shows "symbol_offset st index = index * symbol_length st"
proof -
  have "index * symbol_size st * symbol_length st = index * symbol_length st * symbol_size st"
    by (simp add: mult_ac)
  then show ?thesis
    using assms by (simp add: symbol_offset_mod)
qed

lemma length_overwrite [simp]: "length (overwrite data offset row) = length data"
  by (simp add: overwrite_def) 

lemma overwrite_whole: "length row = length data \<Longrightarrow> overwrite data 0 row = row"
  by (simp add: overwrite_def)

lemma concat_rows_read:
  "\<forall>x\<in>set rows. length x = m \<Longrightarrow> i < length rows
   \<Longrightarrow> take m (drop (i * m) (concat rows @ rest)) = rows ! i"
proof (induction rows arbitrary: i)
  case Nil
  then show ?case by simp
next
  case (Cons x rows)
  show ?case
  proof (cases i)
    case 0
    then show ?thesis using Cons.prems by simp
  next
    case (Suc j)
    then show ?thesis using Cons by simp
  qed
qed

lemma length_concat_rows:
  "\<forall>x\<in>set rows. length x = m \<Longrightarrow> length (concat rows) = length rows * m"
  by (induction rows) simp_all

lemma concat_rows_write_aux:
  "\<forall>x\<in>set rows. length x = m \<Longrightarrow> i < length rows \<Longrightarrow> length row = m
   \<Longrightarrow> take (i * m) (concat rows @ rest) @ row @ drop (i * m + m) (concat rows @ rest)
       = concat (rows[i := row]) @ rest"
proof (induction rows arbitrary: i)
  case Nil
  then show ?case by simp
next
  case (Cons x rows)
  show ?case
  proof (cases i)
    case 0
    then show ?thesis using Cons.prems by simp
  next
    case (Suc j)
    have "take (j * m) (concat rows @ rest) @ row @ drop (j * m + m) (concat rows @ rest)
       = concat (rows[j := row]) @ rest"
      using Cons.IH [of j] Cons.prems Suc by simp
    then show ?thesis using Cons.prems Suc by (simp add: add.assoc)
  qed
qed

lemma concat_rows_write:
  assumes "\<forall>x\<in>set rows. length x = m" "i < length rows" "length row = m"
  shows "overwrite (concat rows @ rest) (i * m) row = concat (rows[i := row]) @ rest"
proof -
  have l: "\<forall>x\<in>set (rows[i := row]). length x = m"
    using assms by (auto dest: set_update_subset_insert [THEN subsetD])
  have "length (concat (rows[i := row]) @ rest) = length (concat rows @ rest)"
    using length_concat_rows [OF assms(1)] length_concat_rows [OF l] by simp
  then show ?thesis
    using concat_rows_write_aux [OF assms, of rest] assms(3)
    by (simp add: overwrite_def)
qed

lemma forward_to_pivot_loop_pivot:
  "forward_to_pivot_loop bin st idx sd sv = (Some p, sd', sv')
   \<Longrightarrow> p \<in> set idx \<and> \<not> symbol_exists st p \<and> coefficient p sv' \<noteq> 0"
proof (induction idx arbitrary: sd sv)
  case Nil
  then show ?case by simp
next
  case (Cons i idx)
  then show ?case
    by (auto simp: Let_def split: if_splits)
qed

lemma related_same_fields:
  assumes "related b rest st r"
  shows "symbols r = symbols st" "symbol_length r = symbol_length st" "m_rank r = m_rank st"
    "m_maximum_pivot r = m_maximum_pivot st" "m_uncoded r = m_uncoded st"
    "m_coded r = m_coded st" "m_vectors r = m_vectors st"
    "symbol_exists r i = symbol_exists st i" "vector r i = vector st i"
  using assms by (simp_all add: related_def same_fields_def symbol_exists_def vector_def)

lemma related_symbol:
  assumes rel: "related b rest st r" and b: b and i: "i < symbols st"
  shows "symbol_rows r i = symbol st i" "length (symbol st i) = symbol_length st"
    "symbol_offset st i = i * symbol_length st"
proof -
  from rel b have p: "0 < symbol_size st" "symbols st * symbol_size st < 2 ^ 32"
    "length (m_data r) = symbols st" "\<forall>x\<in>set (m_data r). length x = symbol_length st"
    "m_data st = concat (m_data r) @ rest"
    by (simp_all add: related_def same_payload_def)
  have le: "i * symbol_size st \<le> symbols st * symbol_size st"
    using i by (intro mult_le_mono1) simp
  have "i * symbol_size st < 2 ^ 32" by (rule le_less_trans [OF le p(2)])
  then show off: "symbol_offset st i = i * symbol_length st"
    using p(1) by (rule symbol_offset_no_wrap [rotated])
  have il: "i < length (m_data r)" using i p(3) by simp
  show eq: "symbol_rows r i = symbol st i"
    using concat_rows_read [OF p(4) il, of rest] by (simp add: symbol_def symbol_rows_def off p(5))
  show "length (symbol st i) = symbol_length st"
    using p(4) il eq [symmetric] by (simp add: symbol_rows_def)
qed

lemma related_write:
  assumes rel: "related b rest st r" and i: "i < symbols st"
    and buf: "related_buffers b (symbol_length st) x y"
    and st': "symbols st' = symbols st" "symbol_length st' = symbol_length st"
      "symbol_size st' = symbol_size st"
      "m_data st' = overwrite (m_data st) (symbol_offset st i) x"
    and r': "m_data r' = (m_data r)[i := y]"
    and same: "same_fields st' r'"
  shows "related b rest st' r'"
proof (cases b)
  case False
  then show ?thesis using same by (simp add: related_def)
next
  case True
  from rel True have p: "0 < symbol_size st" "symbols st * symbol_size st < 2 ^ 32"
    "length (m_data r) = symbols st" "\<forall>x\<in>set (m_data r). length x = symbol_length st"
    "m_data st = concat (m_data r) @ rest"
    by (simp_all add: related_def same_payload_def)
  from buf True have xy: "x = y" "length x = symbol_length st"
    by (auto simp: related_buffers_def)
  have il: "i < length (m_data r)" using i p(3) by simp
  have l: "\<forall>z\<in>set ((m_data r)[i := y]). length z = symbol_length st"
    using p(4) xy by (auto dest: set_update_subset_insert [THEN subsetD])
  have "m_data st' = concat ((m_data r)[i := y]) @ rest"
    using concat_rows_write [OF p(4) il xy(2), of rest] xy(1)
    by (simp add: st'(4) related_symbol(3) [OF rel True i] p(5))
  then have "same_payload rest st' r'"
    using p l st' r' by (simp add: same_payload_def)
  then show ?thesis using same by (simp add: related_def)
qed

lemma related_buffers_subtract:
  assumes "related b rest st r" "i < symbols st" "related_buffers b (symbol_length st) x y"
  shows "related_buffers b (symbol_length st) (subtract x (symbol st i)) (subtract y (symbol_rows r i))"
    "related_buffers b (symbol_length st) (multiply_subtract x (symbol st i) c)
       (multiply_subtract y (symbol_rows r i) c)"
    "related_buffers b (symbol_length st) (subtract (symbol st i) x) (subtract (symbol_rows r i) y)"
    "related_buffers b (symbol_length st) (multiply_subtract (symbol st i) x c)
       (multiply_subtract (symbol_rows r i) y c)"
  using assms related_symbol [OF assms(1) _ assms(2)]
  by (auto simp: related_buffers_def)

lemma forward_to_pivot_loop_related:
  assumes rel: "related b rest st r"
  shows "\<forall>i\<in>set idx. i < symbols st \<Longrightarrow> related_buffers b (symbol_length st) x y
    \<Longrightarrow> fst (forward_to_pivot_loop bin st idx x sv) = fst (forward_to_pivot_loop_rows bin r idx y sv) \<and>
        snd (snd (forward_to_pivot_loop bin st idx x sv))
          = snd (snd (forward_to_pivot_loop_rows bin r idx y sv)) \<and>
        related_buffers b (symbol_length st)
          (fst (snd (forward_to_pivot_loop bin st idx x sv)))
          (fst (snd (forward_to_pivot_loop_rows bin r idx y sv)))"
proof (induction idx arbitrary: x y sv)
  case Nil
  then show ?case by simp
next
  case (Cons i idx)
  have i: "i < symbols st" and rest: "\<forall>i\<in>set idx. i < symbols st" using Cons.prems(1) by simp_all
  note f = related_same_fields(8,9) [OF rel, of i]
  note rb = related_buffers_subtract(1,2) [OF rel i Cons.prems(2)]
  show ?case
  proof (cases bin)
    case True
    show ?thesis
      using Cons.IH [OF rest Cons.prems(2)] Cons.IH [OF rest rb(1)] f Cons.prems(2)
      by (simp add: Let_def True)
  next
    case False
    show ?thesis
      using Cons.IH [OF rest Cons.prems(2)] Cons.IH [OF rest rb(2)] f Cons.prems(2)
      by (simp add: Let_def False)
  qed
qed

lemma forward_from_pivot_step_related:
  assumes rel: "related b rest st r" and i: "i < symbols st"
    and buf: "related_buffers b (symbol_length st) x y"
  shows "snd (forward_from_pivot_step bin st i (x, sv)) = snd (forward_from_pivot_step_rows bin r i (y, sv)) \<and>
         related_buffers b (symbol_length st)
           (fst (forward_from_pivot_step bin st i (x, sv)))
           (fst (forward_from_pivot_step_rows bin r i (y, sv)))"
  using related_same_fields(8,9) [OF rel, of i] related_buffers_subtract(1,2) [OF rel i buf] buf
  by (simp add: forward_from_pivot_step_def forward_from_pivot_step_rows_def Let_def)

lemma forward_from_pivot_fold_related:
  assumes rel: "related b rest st r"
  shows "\<forall>i\<in>set idx. i < symbols st \<Longrightarrow> related_buffers b (symbol_length st) x y
    \<Longrightarrow> snd (fold (forward_from_pivot_step bin st) idx (x, sv))
          = snd (fold (forward_from_pivot_step_rows bin r) idx (y, sv)) \<and>
        related_buffers b (symbol_length st)
          (fst (fold (forward_from_pivot_step bin st) idx (x, sv)))
          (fst (fold (forward_from_pivot_step_rows bin r) idx (y, sv)))"
proof (induction idx arbitrary: x y sv)
  case Nil
  then show ?case by simp
next
  case (Cons i idx)
  have i: "i < symbols st" and rest: "\<forall>i\<in>set idx. i < symbols st" using Cons.prems(1) by simp_all
  obtain x1 v1 where s1: "forward_from_pivot_step bin st i (x, sv) = (x1, v1)"
    by (cases "forward_from_pivot_step bin st i (x, sv)") auto
  obtain y1 w1 where s2: "forward_from_pivot_step_rows bin r i (y, sv) = (y1, w1)"
    by (cases "forward_from_pivot_step_rows bin r i (y, sv)") auto
  from forward_from_pivot_step_related [OF rel i Cons.prems(2), of bin sv]
  have e: "w1 = v1" "related_buffers b (symbol_length st) x1 y1"
    using s1 s2 by simp_all
  show ?case
    using Cons.IH [OF rest e(2), of v1] s1 s2 e(1) by simp
qed

lemma backward_step_unfold:
  "backward_step bin x sv p i st =
     (if \<not> m_uncoded st ! i \<and> i \<noteq> p \<and> m_coded st ! i \<and> coefficient p (vector st i) \<noteq> 0
      then st\<lparr> m_vectors := (m_vectors st)[i :=
                   if bin then subtract (vector st i) sv
                   else multiply_subtract (vector st i) sv (coefficient p (vector st i))],
               m_data := overwrite (m_data st) (symbol_offset st i)
                 (if bin then subtract (symbol st i) x
                  else multiply_subtract (symbol st i) x (coefficient p (vector st i))) \<rparr>
      else st)"
  by (simp add: backward_step_def Let_def)

lemma backward_step_rows_unfold:
  "backward_step_rows bin y sv p i r =
     (if \<not> m_uncoded r ! i \<and> i \<noteq> p \<and> m_coded r ! i \<and> coefficient p (vector r i) \<noteq> 0
      then r\<lparr> m_vectors := (m_vectors r)[i :=
                   if bin then subtract (vector r i) sv
                   else multiply_subtract (vector r i) sv (coefficient p (vector r i))],
               m_data := (m_data r)[i :=
                 if bin then subtract (symbol_rows r i) y
                 else multiply_subtract (symbol_rows r i) y (coefficient p (vector r i))] \<rparr>
      else r)"
  by (simp add: backward_step_rows_def Let_def)

lemma backward_fold_unchanged:
  "symbols (fold (backward_step bin x sv p) idx st) = symbols st \<and>
   symbol_length (fold (backward_step bin x sv p) idx st) = symbol_length st \<and>
   symbol_size (fold (backward_step bin x sv p) idx st) = symbol_size st \<and>
   m_rank (fold (backward_step bin x sv p) idx st) = m_rank st \<and>
   m_maximum_pivot (fold (backward_step bin x sv p) idx st) = m_maximum_pivot st \<and>
   m_uncoded (fold (backward_step bin x sv p) idx st) = m_uncoded st \<and>
   m_coded (fold (backward_step bin x sv p) idx st) = m_coded st \<and>
   length (m_vectors (fold (backward_step bin x sv p) idx st)) = length (m_vectors st) \<and>
   length (m_data (fold (backward_step bin x sv p) idx st)) = length (m_data st)"
  by (induction idx arbitrary: st) (simp_all add: backward_step_unfold)

lemma backward_fold_rows_unchanged:
  "symbols (fold (backward_step_rows bin y sv p) idx r) = symbols r \<and>
   m_uncoded (fold (backward_step_rows bin y sv p) idx r) = m_uncoded r \<and>
   m_coded (fold (backward_step_rows bin y sv p) idx r) = m_coded r"
  by (induction idx arbitrary: r) (simp_all add: backward_step_rows_unfold)

lemma backward_step_related:
  assumes rel: "related b rest st r" and i: "i < symbols st"
    and buf: "related_buffers b (symbol_length st) x y"
  shows "related b rest (backward_step bin x sv p i st) (backward_step_rows bin y sv p i r)"
proof -
  note f = related_same_fields [OF rel]
  let ?c = "coefficient p (vector st i)"
  let ?u = "\<not> m_uncoded st ! i \<and> i \<noteq> p \<and> m_coded st ! i \<and> ?c \<noteq> 0"
  show ?thesis
  proof (cases ?u)
    case False
    have e1: "backward_step bin x sv p i st = st"
      unfolding backward_step_unfold using False by (rule if_not_P)
    have "\<not> (\<not> m_uncoded r ! i \<and> i \<noteq> p \<and> m_coded r ! i \<and> coefficient p (vector r i) \<noteq> 0)"
      using False f by simp
    then have e2: "backward_step_rows bin y sv p i r = r"
      unfolding backward_step_rows_unfold by (rule if_not_P)
    show ?thesis using rel by (simp only: e1 e2)
  next
    case True
    let ?x = "if bin then subtract (symbol st i) x else multiply_subtract (symbol st i) x ?c"
    let ?y = "if bin then subtract (symbol_rows r i) y else multiply_subtract (symbol_rows r i) y ?c"
    let ?v = "if bin then subtract (vector st i) sv else multiply_subtract (vector st i) sv ?c"
    let ?st' = "st\<lparr> m_vectors := (m_vectors st)[i := ?v],
                    m_data := overwrite (m_data st) (symbol_offset st i) ?x \<rparr>"
    let ?r' = "r\<lparr> m_vectors := (m_vectors r)[i := ?v], m_data := (m_data r)[i := ?y] \<rparr>"
    have e1: "backward_step bin x sv p i st = ?st'"
      using True by (simp add: backward_step_unfold)
    have e2: "backward_step_rows bin y sv p i r = ?r'"
      using True f by (simp add: backward_step_rows_unfold)
    have rb: "related_buffers b (symbol_length st) ?x ?y"
      using related_buffers_subtract(3,4) [OF rel i buf] by simp
    have same: "same_fields ?st' ?r'"
      using rel by (simp add: related_def same_fields_def)
    have "related b rest ?st' ?r'"
      by (rule related_write [OF rel i rb _ _ _ _ _ same]) simp_all
    then show ?thesis by (simp only: e1 e2)
  qed
qed

lemma backward_fold_related:
  "\<forall>i\<in>set idx. i < symbols st \<Longrightarrow> related b rest st r
   \<Longrightarrow> related_buffers b (symbol_length st) x y
   \<Longrightarrow> related b rest (fold (backward_step bin x sv p) idx st)
         (fold (backward_step_rows bin y sv p) idx r)"
proof (induction idx arbitrary: st r)
  case Nil
  then show ?case by simp
next
  case (Cons i idx)
  let ?st = "backward_step bin x sv p i st" and ?r = "backward_step_rows bin y sv p i r"
  have i: "i < symbols st" using Cons.prems(1) by simp
  note u = backward_fold_unchanged [of bin x sv p "[i]" st, simplified]
  have rel1: "related b rest ?st ?r"
    by (rule backward_step_related [OF Cons.prems(2) i Cons.prems(3)])
  have idx: "\<forall>i\<in>set idx. i < symbols ?st" using Cons.prems(1) u by simp
  have buf: "related_buffers b (symbol_length ?st) x y" using Cons.prems(3) u by simp
  show ?case
    using Cons.IH [OF idx rel1 buf] by simp
qed

lemma store_coded_symbol_related:
  assumes rel: "related b rest st r" and p: "p < symbols st"
    and buf: "related_buffers b (symbol_length st) x y"
    and emp: "\<not> m_uncoded st ! p" "\<not> m_coded st ! p"
  shows "store_coded_symbol st x sv p =
           Some (st\<lparr> m_vectors := (m_vectors st)[p := sv],
                      m_data := overwrite (m_data st) (symbol_offset st p) x \<rparr>)"
    "store_coded_symbol_rows r y sv p =
           Some (r\<lparr> m_vectors := (m_vectors r)[p := sv], m_data := (m_data r)[p := y] \<rparr>)"
    "related b rest (st\<lparr> m_vectors := (m_vectors st)[p := sv],
                      m_data := overwrite (m_data st) (symbol_offset st p) x \<rparr>)
       (r\<lparr> m_vectors := (m_vectors r)[p := sv], m_data := (m_data r)[p := y] \<rparr>)"
proof -
  note f = related_same_fields [OF rel]
  show "store_coded_symbol st x sv p =
           Some (st\<lparr> m_vectors := (m_vectors st)[p := sv],
                      m_data := overwrite (m_data st) (symbol_offset st p) x \<rparr>)"
    using emp by (simp add: store_coded_symbol_def)
  show "store_coded_symbol_rows r y sv p =
           Some (r\<lparr> m_vectors := (m_vectors r)[p := sv], m_data := (m_data r)[p := y] \<rparr>)"
    using emp f by (simp add: store_coded_symbol_rows_def)
  have same: "same_fields (st\<lparr> m_vectors := (m_vectors st)[p := sv],
                      m_data := overwrite (m_data st) (symbol_offset st p) x \<rparr>)
       (r\<lparr> m_vectors := (m_vectors r)[p := sv], m_data := (m_data r)[p := y] \<rparr>)"
    using rel by (simp add: related_def same_fields_def)
  show "related b rest (st\<lparr> m_vectors := (m_vectors st)[p := sv],
                      m_data := overwrite (m_data st) (symbol_offset st p) x \<rparr>)
       (r\<lparr> m_vectors := (m_vectors r)[p := sv], m_data := (m_data r)[p := y] \<rparr>)"
    by (rule related_write [OF rel p buf _ _ _ _ _ same]) simp_all
qed

lemma store_uncoded_symbol_related:
  assumes rel: "related b rest st r" and p: "p < symbols st"
    and buf: "related_buffers b (symbol_length st) x y"
    and emp: "\<not> m_uncoded st ! p" "\<not> m_coded st ! p"
  shows "store_uncoded_symbol st x p =
           Some (st\<lparr> m_data := overwrite (m_data st) (symbol_offset st p) x,
                      m_vectors := (m_vectors st)[p := set_coefficient p (vector st p) 1] \<rparr>)"
    "store_uncoded_symbol_rows r y p =
           Some (r\<lparr> m_data := (m_data r)[p := y],
                     m_vectors := (m_vectors r)[p := set_coefficient p (vector st p) 1] \<rparr>)"
    "related b rest (st\<lparr> m_data := overwrite (m_data st) (symbol_offset st p) x,
                      m_vectors := (m_vectors st)[p := set_coefficient p (vector st p) 1] \<rparr>)
       (r\<lparr> m_data := (m_data r)[p := y],
                     m_vectors := (m_vectors r)[p := set_coefficient p (vector st p) 1] \<rparr>)"
proof -
  note f = related_same_fields [OF rel]
  show "store_uncoded_symbol st x p =
           Some (st\<lparr> m_data := overwrite (m_data st) (symbol_offset st p) x,
                      m_vectors := (m_vectors st)[p := set_coefficient p (vector st p) 1] \<rparr>)"
    using emp by (simp add: store_uncoded_symbol_def)
  show "store_uncoded_symbol_rows r y p =
           Some (r\<lparr> m_data := (m_data r)[p := y],
                     m_vectors := (m_vectors r)[p := set_coefficient p (vector st p) 1] \<rparr>)"
    using emp f by (simp add: store_uncoded_symbol_rows_def)
  have same: "same_fields (st\<lparr> m_data := overwrite (m_data st) (symbol_offset st p) x,
                      m_vectors := (m_vectors st)[p := set_coefficient p (vector st p) 1] \<rparr>)
       (r\<lparr> m_data := (m_data r)[p := y],
                     m_vectors := (m_vectors r)[p := set_coefficient p (vector st p) 1] \<rparr>)"
    using rel by (simp add: related_def same_fields_def)
  show "related b rest (st\<lparr> m_data := overwrite (m_data st) (symbol_offset st p) x,
                      m_vectors := (m_vectors st)[p := set_coefficient p (vector st p) 1] \<rparr>)
       (r\<lparr> m_data := (m_data r)[p := y],
                     m_vectors := (m_vectors r)[p := set_coefficient p (vector st p) 1] \<rparr>)"
    by (rule related_write [OF rel p buf _ _ _ _ _ same]) simp_all
qed

lemma forward_substitute_to_pivot_related:
  assumes rel: "related b rest st r" and buf: "related_buffers b (symbol_length st) x y"
  shows "fst (forward_substitute_to_pivot bin st x sv)
           = fst (forward_substitute_to_pivot_rows bin r y sv)"
    "snd (snd (forward_substitute_to_pivot bin st x sv))
           = snd (snd (forward_substitute_to_pivot_rows bin r y sv))"
    "related_buffers b (symbol_length st)
       (fst (snd (forward_substitute_to_pivot bin st x sv)))
       (fst (snd (forward_substitute_to_pivot_rows bin r y sv)))"
proof -
  have idx: "\<forall>i\<in>set [0..< symbols st]. i < symbols st" by simp
  note l = forward_to_pivot_loop_related [OF rel idx buf, of bin sv]
  note f = related_same_fields(1) [OF rel]
  show "fst (forward_substitute_to_pivot bin st x sv)
           = fst (forward_substitute_to_pivot_rows bin r y sv)"
    "snd (snd (forward_substitute_to_pivot bin st x sv))
           = snd (snd (forward_substitute_to_pivot_rows bin r y sv))"
    "related_buffers b (symbol_length st)
       (fst (snd (forward_substitute_to_pivot bin st x sv)))
       (fst (snd (forward_substitute_to_pivot_rows bin r y sv)))"
    using l f by (simp_all add: forward_substitute_to_pivot_def forward_substitute_to_pivot_rows_def)
qed

lemma decode_with_vector_no_pivot:
  "forward_substitute_to_pivot bin st sd sv = (None, sd', sv')
   \<Longrightarrow> decode_with_vector bin st sd sv = Some (st, sd', sv')"
  by (simp add: decode_with_vector_def)

lemma related_buffers_multiply:
  "related_buffers b m x y \<Longrightarrow> related_buffers b m (multiply x c) (multiply y c)"
  by (auto simp: related_buffers_def)

lemma decode_with_vector_related:
  assumes rel: "related b rest st r" and M: "m_maximum_pivot st < symbols st"
    and buf: "related_buffers b (symbol_length st) x y"
  shows "\<exists>st' x' v' r' y'.
           decode_with_vector bin st x sv = Some (st', x', v') \<and>
           decode_with_vector_rows bin r y sv = Some (r', y', v') \<and>
           related b rest st' r' \<and> geometry st' = geometry st \<and>
           related_buffers b (symbol_length st) x' y' \<and>
           (fst (forward_substitute_to_pivot bin st x sv) = None \<longrightarrow> st' = st)"
proof -
  note f = related_same_fields [OF rel]
  obtain po x0 v0 where run: "forward_substitute_to_pivot bin st x sv = (po, x0, v0)"
    by (cases "forward_substitute_to_pivot bin st x sv") auto
  obtain po' y0 w0 where run': "forward_substitute_to_pivot_rows bin r y sv = (po', y0, w0)"
    by (cases "forward_substitute_to_pivot_rows bin r y sv") auto
  from forward_substitute_to_pivot_related [OF rel buf, of bin sv] run run'
  have e: "po' = po" "w0 = v0" and b0: "related_buffers b (symbol_length st) x0 y0"
    by simp_all
  show ?thesis
  proof (cases po)
    case None
    have "decode_with_vector bin st x sv = Some (st, x0, v0)"
      using run None by (simp add: decode_with_vector_def)
    moreover have "decode_with_vector_rows bin r y sv = Some (r, y0, v0)"
      using run' None e by (simp add: decode_with_vector_rows_def)
    ultimately show ?thesis using rel b0 by simp
  next
    case (Some p)
    from run Some have piv: "p \<in> set [0..< symbols st]" "\<not> symbol_exists st p" "coefficient p v0 \<noteq> 0"
      using forward_to_pivot_loop_pivot [of bin st "[0..< symbols st]" x sv p x0 v0]
      by (simp_all add: forward_substitute_to_pivot_def)
    then have p: "p < symbols st" "\<not> m_uncoded st ! p" "\<not> m_coded st ! p"
      by (simp_all add: symbol_exists_def)
    let ?c = "invert (coefficient p v0)"
    define x1 where "x1 = (if bin then x0 else multiply x0 ?c)"
    define y1 where "y1 = (if bin then y0 else multiply y0 ?c)"
    define v1 where "v1 = (if bin then v0 else multiply v0 ?c)"
    have norm: "(if \<not> bin then normalize_symbol st x0 v0 p else Some (x0, v0)) = Some (x1, v1)"
      using p piv(3) by (simp add: normalize_symbol_def x1_def v1_def Let_def)
    have norm': "(if \<not> bin then normalize_symbol r y0 v0 p else Some (y0, v0)) = Some (y1, v1)"
      using p piv(3) f by (simp add: normalize_symbol_def y1_def v1_def Let_def)
    have b1: "related_buffers b (symbol_length st) x1 y1"
      using b0 related_buffers_multiply [OF b0] by (simp add: x1_def y1_def)
    let ?idx = "[p + 1..< m_maximum_pivot st + 1]"
    obtain x2 v2 where fold: "fold (forward_from_pivot_step bin st) ?idx (x1, v1) = (x2, v2)"
      by (cases "fold (forward_from_pivot_step bin st) ?idx (x1, v1)") auto
    obtain y2 w2 where fold': "fold (forward_from_pivot_step_rows bin r) ?idx (y1, v1) = (y2, w2)"
      by (cases "fold (forward_from_pivot_step_rows bin r) ?idx (y1, v1)") auto
    have idx: "\<forall>i\<in>set ?idx. i < symbols st" using M by auto
    from forward_from_pivot_fold_related [OF rel idx b1, of bin v1] fold fold'
    have e2: "w2 = v2" and b2: "related_buffers b (symbol_length st) x2 y2"
      by simp_all
    have fwd: "forward_substitute_from_pivot bin st x1 v1 p = Some (x2, v2)"
      using p fold by (simp add: forward_substitute_from_pivot_def)
    have fwd': "forward_substitute_from_pivot_rows bin r y1 v1 p = Some (y2, v2)"
      using p fold' e2 f by (simp add: forward_substitute_from_pivot_rows_def)
    let ?bidx = "[0..< m_maximum_pivot st + 1]"
    define st1 where "st1 = fold (backward_step bin x2 v2 p) ?bidx st"
    define r1 where "r1 = fold (backward_step_rows bin y2 v2 p) ?bidx r"
    have bidx: "\<forall>i\<in>set ?bidx. i < symbols st" using M by auto
    have rel1: "related b rest st1 r1"
      unfolding st1_def r1_def by (rule backward_fold_related [OF bidx rel b2])
    note u = backward_fold_unchanged [of bin x2 v2 p ?bidx st, folded st1_def]
    note f1 = related_same_fields [OF rel1]
    have bwd: "backward_substitute bin st x2 v2 p = Some st1"
      using p by (simp add: backward_substitute_def st1_def)
    have bwd': "backward_substitute_rows bin r y2 v2 p = Some r1"
      using p f by (simp add: backward_substitute_rows_def r1_def)
    have p1: "p < symbols st1" "\<not> m_uncoded st1 ! p" "\<not> m_coded st1 ! p"
      using p u by simp_all
    have b2': "related_buffers b (symbol_length st1) x2 y2" using b2 u by simp
    note sc = store_coded_symbol_related [OF rel1 p1(1) b2' p1(2,3), of v2]
    let ?st2 = "st1\<lparr> m_vectors := (m_vectors st1)[p := v2],
                    m_data := overwrite (m_data st1) (symbol_offset st1 p) x2 \<rparr>"
    let ?r2 = "r1\<lparr> m_vectors := (m_vectors r1)[p := v2], m_data := (m_data r1)[p := y2] \<rparr>"
    let ?st' = "?st2\<lparr> m_rank := m_rank st + 1, m_coded := (m_coded st)[p := True],
                      m_maximum_pivot := max p (m_maximum_pivot st) \<rparr>"
    let ?r' = "?r2\<lparr> m_rank := m_rank st + 1, m_coded := (m_coded st)[p := True],
                      m_maximum_pivot := max p (m_maximum_pivot st) \<rparr>"
    have d: "decode_with_vector bin st x sv = Some (?st', x2, v2)"
      using run Some norm fwd bwd sc(1) u
      by (auto simp: decode_with_vector_def max_def)
    have d': "decode_with_vector_rows bin r y sv = Some (?r', y2, v2)"
      using run' Some e norm' fwd' bwd' sc(2) f f1 u
      by (auto simp: decode_with_vector_rows_def max_def)
    have rel': "related b rest ?st' ?r'"
      using sc(3) by (auto simp: related_def same_fields_def same_payload_def)
    have g: "geometry ?st' = geometry st"
      using u by (simp add: geometry_def)
    show ?thesis
      using d d' rel' g b2 run Some by simp
  qed
qed

lemma related_update_counters:
  "related b rest st r \<Longrightarrow>
   related b rest (st\<lparr> m_rank := a, m_uncoded := u, m_maximum_pivot := c \<rparr>)
     (r\<lparr> m_rank := a, m_uncoded := u, m_maximum_pivot := c \<rparr>)"
  "related b rest st r \<Longrightarrow>
   related b rest (st\<lparr> m_rank := a, m_uncoded := u \<rparr>) (r\<lparr> m_rank := a, m_uncoded := u \<rparr>)"
  "related b rest st r \<Longrightarrow>
   related b rest (st\<lparr> m_uncoded := u \<rparr>) (r\<lparr> m_uncoded := u \<rparr>)"
  "related b rest st r \<Longrightarrow>
   related b rest (st\<lparr> m_vectors := w \<rparr>) (r\<lparr> m_vectors := w \<rparr>)"
  by (auto simp: related_def same_fields_def same_payload_def)

lemma swap_state_related:
  assumes rel: "related b rest st r" and p: "p < symbols st"
    and buf: "related_buffers b (symbol_length st) sd sd"
  shows "related b rest (swap_state st sd p) (swap_state_rows r sd p)"
    "geometry (swap_state st sd p) = geometry st"
    "m_maximum_pivot (swap_state st sd p) = m_maximum_pivot st"
    "related_buffers b (symbol_length st) (subtract (symbol st p) sd) (subtract (symbol_rows r p) sd)"
proof -
  note f = related_same_fields [OF rel]
  show rb: "related_buffers b (symbol_length st) (subtract (symbol st p) sd) (subtract (symbol_rows r p) sd)"
    by (rule related_buffers_subtract(3) [OF rel p buf])
  have same: "same_fields (swap_state st sd p) (swap_state_rows r sd p)"
    using rel by (simp add: related_def same_fields_def swap_state_def swap_state_rows_def vector_def)
  show "related b rest (swap_state st sd p) (swap_state_rows r sd p)"
    by (rule related_write [OF rel p rb _ _ _ _ _ same])
       (simp_all add: swap_state_def swap_state_rows_def)
  show "geometry (swap_state st sd p) = geometry st"
    "m_maximum_pivot (swap_state st sd p) = m_maximum_pivot st"
    by (simp_all add: geometry_def swap_state_def)
qed

lemma swap_decode_steps:
  assumes "m_coded st ! p" "\<not> m_uncoded st ! p" "coefficient p (vector st p) = 1"
    and "decode_with_vector bin (swap_state st sd p)
           (subtract (symbol st p) sd) (set_coefficient p (vector st p) 0) = Some (st3, x, v)"
  shows "swap_decode bin st sd p =
     store_uncoded_symbol
             (st3\<lparr> m_data := overwrite (m_data st3) (symbol_offset st3 p) x,
                    m_vectors := (m_vectors st3)[p := replicate (symbols st3) 0] \<rparr>) sd p
       \<bind> (\<lambda>st6. Some (st6\<lparr> m_uncoded := (m_uncoded st6)[p := True] \<rparr>))"
  using assms
  by (simp add: swap_decode_def swap_state_def Let_def vector_def symbol_def symbol_offset_def
      vector_length_def)

lemma swap_decode_rows_steps:
  assumes "m_coded r ! p" "\<not> m_uncoded r ! p" "coefficient p (vector r p) = 1"
    and "decode_with_vector_rows bin (swap_state_rows r sd p)
           (subtract (symbol_rows r p) sd) (set_coefficient p (vector r p) 0) = Some (r3, y, v)"
  shows "swap_decode_rows bin r sd p =
     store_uncoded_symbol_rows
             (r3\<lparr> m_data := (m_data r3)[p := y],
                   m_vectors := (m_vectors r3)[p := replicate (symbols r3) 0] \<rparr>) sd p
       \<bind> (\<lambda>r6. Some (r6\<lparr> m_uncoded := (m_uncoded r6)[p := True] \<rparr>))"
  using assms
  by (simp add: swap_decode_rows_def swap_state_rows_def Let_def vector_def symbol_rows_def
      vector_length_def)

lemma swap_decode_related:
  assumes rel: "related b rest st r" and p: "p < symbols st"
    and M: "m_maximum_pivot st < symbols st"
    and buf: "related_buffers b (symbol_length st) sd sd"
  shows "(swap_decode bin st sd p = None \<and> swap_decode_rows bin r sd p = None) \<or>
         (\<exists>st' r'. swap_decode bin st sd p = Some st' \<and> swap_decode_rows bin r sd p = Some r' \<and>
             related b rest st' r' \<and> geometry st' = geometry st)"
proof (cases "m_coded st ! p \<and> \<not> m_uncoded st ! p \<and> coefficient p (vector st p) = 1")
  case False
  note f = related_same_fields [OF rel]
  have "swap_decode bin st sd p = None"
    using False by (auto simp: swap_decode_def Let_def vector_def)
  moreover have "swap_decode_rows bin r sd p = None"
    using False f by (auto simp: swap_decode_rows_def Let_def vector_def)
  ultimately show ?thesis by simp
next
  case True
  note f = related_same_fields [OF rel]
  let ?st2 = "swap_state st sd p" and ?r2 = "swap_state_rows r sd p"
  let ?w = "set_coefficient p (vector st p) 0"
  note sw = swap_state_related [OF rel p buf]
  have g2: "symbols ?st2 = symbols st" "symbol_length ?st2 = symbol_length st"
    using sw(2) by (simp_all add: geometry_def)
  have M2: "m_maximum_pivot ?st2 < symbols ?st2" using M sw(3) g2 by simp
  have buf2: "related_buffers b (symbol_length ?st2) (subtract (symbol st p) sd)
                (subtract (symbol_rows r p) sd)"
    using sw(4) g2 by simp
  from decode_with_vector_related [OF sw(1) M2 buf2, of bin ?w]
  obtain st3 x v r3 y where d:
    "decode_with_vector bin ?st2 (subtract (symbol st p) sd) ?w = Some (st3, x, v)"
    "decode_with_vector_rows bin ?r2 (subtract (symbol_rows r p) sd) ?w = Some (r3, y, v)"
    "related b rest st3 r3" "geometry st3 = geometry ?st2"
    "related_buffers b (symbol_length ?st2) x y"
    by blast
  note f3 = related_same_fields [OF d(3)]
  have g3: "symbols st3 = symbols st" "symbol_length st3 = symbol_length st"
    "geometry st3 = geometry st"
    using d(4) sw(2) by (simp_all add: geometry_def)
  have p3: "p < symbols st3" using p g3 by simp
  have buf3: "related_buffers b (symbol_length st3) x y" using d(5) g2 g3 by simp
  let ?st4 = "st3\<lparr> m_data := overwrite (m_data st3) (symbol_offset st3 p) x,
                    m_vectors := (m_vectors st3)[p := replicate (symbols st3) 0] \<rparr>"
  let ?r4 = "r3\<lparr> m_data := (m_data r3)[p := y],
                  m_vectors := (m_vectors r3)[p := replicate (symbols r3) 0] \<rparr>"
  have same4: "same_fields ?st4 ?r4"
    using d(3) by (simp add: related_def same_fields_def)
  have rel4: "related b rest ?st4 ?r4"
    by (rule related_write [OF d(3) p3 buf3 _ _ _ _ _ same4]) simp_all
  have e: "swap_decode bin st sd p =
     store_uncoded_symbol ?st4 sd p
       \<bind> (\<lambda>st6. Some (st6\<lparr> m_uncoded := (m_uncoded st6)[p := True] \<rparr>))"
    by (rule swap_decode_steps [OF _ _ _ d(1)]) (use True in simp_all)
  have e': "swap_decode_rows bin r sd p =
     store_uncoded_symbol_rows ?r4 sd p
       \<bind> (\<lambda>r6. Some (r6\<lparr> m_uncoded := (m_uncoded r6)[p := True] \<rparr>))"
    by (rule swap_decode_rows_steps [OF _ _ _ d(2) [folded f(9) [of p]]]) (use True f in simp_all)
  show ?thesis
  proof (cases "\<not> m_uncoded st3 ! p \<and> \<not> m_coded st3 ! p")
    case False
    have "store_uncoded_symbol ?st4 sd p = None"
      using False by (auto simp: store_uncoded_symbol_def)
    moreover have "store_uncoded_symbol_rows ?r4 sd p = None"
      using False f3 by (auto simp: store_uncoded_symbol_rows_def)
    ultimately show ?thesis using e e' by simp
  next
    case emp: True
    have p4: "p < symbols ?st4" using p3 by simp
    have emp4: "\<not> m_uncoded ?st4 ! p" "\<not> m_coded ?st4 ! p" using emp by simp_all
    have buf4: "related_buffers b (symbol_length ?st4) sd sd" using buf g3 by simp
    note su = store_uncoded_symbol_related [OF rel4 p4 buf4 emp4]
    let ?st6 = "?st4\<lparr> m_data := overwrite (m_data ?st4) (symbol_offset ?st4 p) sd,
                     m_vectors := (m_vectors ?st4)[p := set_coefficient p (vector ?st4 p) 1] \<rparr>"
    let ?r6 = "?r4\<lparr> m_data := (m_data ?r4)[p := sd],
                     m_vectors := (m_vectors ?r4)[p := set_coefficient p (vector ?st4 p) 1] \<rparr>"
    have s1: "swap_decode bin st sd p = Some (?st6\<lparr> m_uncoded := (m_uncoded ?st6)[p := True] \<rparr>)"
      unfolding e su(1) by simp
    have s2: "swap_decode_rows bin r sd p = Some (?r6\<lparr> m_uncoded := (m_uncoded ?r6)[p := True] \<rparr>)"
      unfolding e' su(2) by simp
    have rel6: "related b rest (?st6\<lparr> m_uncoded := (m_uncoded ?st6)[p := True] \<rparr>)
                  (?r6\<lparr> m_uncoded := (m_uncoded ?r6)[p := True] \<rparr>)"
      using related_update_counters(3) [OF su(3), of "(m_uncoded ?st6)[p := True]"] f3 by simp
    have g: "geometry (?st6\<lparr> m_uncoded := (m_uncoded ?st6)[p := True] \<rparr>) = geometry st"
      using g3(3) by (simp add: geometry_def)
    show ?thesis
      using s1 s2 rel6 g by blast
  qed
qed

lemma decode_raw_related:
  assumes rel: "related b rest st r" and M: "m_maximum_pivot st < symbols st"
    and buf: "related_buffers b (symbol_length st) sd sd"
  shows "(decode_raw bin st sd i = None \<and> decode_raw_rows bin r sd i = None) \<or>
         (\<exists>st' r'. decode_raw bin st sd i = Some st' \<and> decode_raw_rows bin r sd i = Some r' \<and>
             related b rest st' r' \<and> geometry st' = geometry st)"
proof -
  note f = related_same_fields [OF rel]
  consider (abort) "\<not> i < symbols st" | (duplicate) "i < symbols st" "m_uncoded st ! i"
    | (swap) "i < symbols st" "\<not> m_uncoded st ! i" "m_coded st ! i"
    | (empty) "i < symbols st" "\<not> m_uncoded st ! i" "\<not> m_coded st ! i"
    by blast
  then show ?thesis
  proof cases
    case abort
    then show ?thesis using f by (simp add: decode_raw_def decode_raw_rows_def)
  next
    case duplicate
    then show ?thesis using f rel by (simp add: decode_raw_def decode_raw_rows_def)
  next
    case swap
    have "decode_raw bin st sd i = swap_decode bin st sd i"
      "decode_raw_rows bin r sd i = swap_decode_rows bin r sd i"
      using swap f by (simp_all add: decode_raw_def decode_raw_rows_def)
    then show ?thesis using swap_decode_related [OF rel swap(1) M buf, of bin] by simp
  next
    case empty
    note su = store_uncoded_symbol_related [OF rel empty(1) buf empty(2,3)]
    let ?e = "set_coefficient i (vector st i) 1"
    let ?st1 = "st\<lparr> m_data := overwrite (m_data st) (symbol_offset st i) sd,
                    m_vectors := (m_vectors st)[i := ?e] \<rparr>"
    let ?r1 = "r\<lparr> m_data := (m_data r)[i := sd], m_vectors := (m_vectors r)[i := ?e] \<rparr>"
    let ?idx = "[0..< m_maximum_pivot st + 1]"
    define st2 where "st2 = fold (backward_step bin sd (vector ?st1 i) i) ?idx ?st1"
    define r2 where "r2 = fold (backward_step_rows bin sd (vector ?st1 i) i) ?idx ?r1"
    have idx: "\<forall>j\<in>set ?idx. j < symbols ?st1" using M by auto
    have buf1: "related_buffers b (symbol_length ?st1) sd sd" using buf by simp
    have rel2: "related b rest st2 r2"
      unfolding st2_def r2_def by (rule backward_fold_related [OF idx su(3) buf1])
    note u = backward_fold_unchanged [of bin sd "vector ?st1 i" i ?idx ?st1, folded st2_def]
    note f2 = related_same_fields [OF rel2]
    have v1: "vector ?r1 i = vector ?st1 i" using f by (simp add: vector_def)
    have bwd: "backward_substitute bin ?st1 sd (vector ?st1 i) i = Some st2"
      using empty(1) by (simp add: backward_substitute_def st2_def)
    have "backward_substitute_rows bin ?r1 sd (vector ?st1 i) i = Some r2"
      using empty(1) f(1,4) by (simp add: backward_substitute_rows_def r2_def)
    then have bwd': "backward_substitute_rows bin ?r1 sd (vector ?r1 i) i = Some r2"
      by (simp only: v1)
    let ?st' = "st2\<lparr> m_rank := m_rank st + 1, m_uncoded := (m_uncoded st)[i := True],
                     m_maximum_pivot := max i (m_maximum_pivot st) \<rparr>"
    let ?r' = "r2\<lparr> m_rank := m_rank st + 1, m_uncoded := (m_uncoded st)[i := True],
                     m_maximum_pivot := max i (m_maximum_pivot st) \<rparr>"
    have d: "decode_raw bin st sd i = Some ?st'"
      using empty su(1) bwd u by (auto simp: decode_raw_def max_def)
    have d': "decode_raw_rows bin r sd i = Some ?r'"
      using empty su(2) bwd' f f2 u by (auto simp: decode_raw_rows_def max_def)
    have g: "geometry ?st' = geometry st" using u by (simp add: geometry_def)
    show ?thesis
      using d d' related_update_counters(1) [OF rel2] g by simp
  qed
qed

lemma block_in_storage_geometry:
  "geometry st' = geometry st \<Longrightarrow> block_in_storage st' = block_in_storage st"
  by (simp add: geometry_def block_in_storage_def)

lemma concat_replicate_rows:
  "concat (replicate k (replicate m x)) = replicate (k * m) x"
  by (induction k) (simp_all add: replicate_add)

lemma related_initialize:
  "related (block_in_storage (initialize data_size k row_size m :: 'a::field decoder))
     (replicate (data_size * m div row_size - k * m) 0)
     (initialize data_size k row_size m :: 'a decoder) (initialize_rows k m)"
proof -
  let ?st = "initialize data_size k row_size m :: 'a decoder"
  let ?L = "data_size * m div row_size"
  have same: "same_fields ?st (initialize_rows k m)"
    by (simp add: same_fields_def initialize_def initialize_rows_def)
  have "same_payload (replicate (?L - k * m) 0) ?st (initialize_rows k m)"
    if b: "block_in_storage ?st"
  proof -
    from b have p: "0 < row_size" "k * row_size < 2 ^ 32" "k * m \<le> ?L"
      by (simp_all add: block_in_storage_def initialize_def)
    have "replicate ?L (0::'a) = replicate (k * m) 0 @ replicate (?L - k * m) 0"
      using p(3) by (simp add: replicate_add [symmetric])
    then show ?thesis
      using p by (simp add: same_payload_def initialize_def initialize_rows_def concat_replicate_rows)
  qed
  then show ?thesis using same by (simp add: related_def)
qed

lemma related_maximum_pivot:
  assumes "related b rest st r" "decoder_inv r"
  shows "m_maximum_pivot st < symbols st"
  using assms related_same_fields(1,4) [OF assms(1)]
  by (simp add: decoder_inv_def well_formed_def)

lemma decode_related:
  assumes rel: "related b rest st r" and inv: "decoder_inv r"
    and buf: "b \<longrightarrow> length sd = symbol_length st"
  shows "\<exists>st' x' v' r' y'.
           decode bin st sd sv = Some (st', x', v') \<and>
           decode_rows bin r sd sv = Some (r', y', v') \<and>
           related b rest st' r' \<and> geometry st' = geometry st \<and>
           (fst (forward_substitute_to_pivot bin st sd sv) = None \<longrightarrow> st' = st)"
proof -
  have rb: "related_buffers b (symbol_length st) sd sd" using buf by (simp add: related_buffers_def)
  from decode_with_vector_related [OF rel related_maximum_pivot [OF rel inv] rb, of bin sv]
  show ?thesis by (auto simp: decode_def decode_rows_def)
qed

lemma decode_raw_related':
  assumes rel: "related b rest st r" and inv: "decoder_inv r"
    and buf: "b \<longrightarrow> length sd = symbol_length st"
  shows "(decode_raw bin st sd i = None \<and> decode_raw_rows bin r sd i = None) \<or>
         (\<exists>st' r'. decode_raw bin st sd i = Some st' \<and> decode_raw_rows bin r sd i = Some r' \<and>
             related b rest st' r' \<and> geometry st' = geometry st)"
proof -
  have rb: "related_buffers b (symbol_length st) sd sd" using buf by (simp add: related_buffers_def)
  show ?thesis
    by (rule decode_raw_related [OF rel related_maximum_pivot [OF rel inv] rb])
qed

lemma reachable_related:
  assumes "reachable bin st"
  shows "\<exists>r rest. reachable_rows bin r \<and> related (block_in_storage st) rest st r"
  using assms
proof (induction rule: reachable.induct)
  case (reachable_initialize k data_size row_size m)
  have "reachable_rows bin (initialize_rows k m :: 'a row_decoder)"
    by (rule reachable_rows_initialize [OF reachable_initialize])
  then show ?case using related_initialize by blast
next
  case (reachable_decode st symbol_data symbol_id st' sd' sv')
  then obtain r rest where r: "reachable_rows bin r" "related (block_in_storage st) rest st r"
    by blast
  note f = related_same_fields [OF r(2)]
  have buf: "block_in_storage st \<longrightarrow> length symbol_data = symbol_length st"
    using reachable_decode(2) by simp
  from decode_related [OF r(2) reachable_inv [OF r(1)] buf, of bin symbol_id]
  obtain r' y' where d: "decode_rows bin r symbol_data symbol_id = Some (r', y', sv')"
    "related (block_in_storage st) rest st' r'" "geometry st' = geometry st"
    using reachable_decode(4) by auto
  have "reachable_rows bin r'"
    by (rule reachable_rows_decode [OF r(1) _ _ d(1)]) (use reachable_decode(2,3) f in simp_all)
  then show ?case
    using d(2) block_in_storage_geometry [OF d(3)] by auto
next
  case (reachable_decode_raw st symbol_data symbol_index st')
  then obtain r rest where r: "reachable_rows bin r" "related (block_in_storage st) rest st r"
    by blast
  note f = related_same_fields [OF r(2)]
  have buf: "block_in_storage st \<longrightarrow> length symbol_data = symbol_length st"
    using reachable_decode_raw(2) by simp
  from decode_raw_related' [OF r(2) reachable_inv [OF r(1)] buf, of bin symbol_index]
  obtain r' where d: "decode_raw_rows bin r symbol_data symbol_index = Some r'"
    "related (block_in_storage st) rest st' r'" "geometry st' = geometry st"
    using reachable_decode_raw(3) by auto
  have "reachable_rows bin r'"
    by (rule reachable_rows_decode_raw [OF r(1) _ d(1)]) (use reachable_decode_raw(2) f in simp_all)
  then show ?case
    using d(2) block_in_storage_geometry [OF d(3)] by auto
qed

lemma absorb_related:
  assumes rel: "related b rest st r" and inv: "decoder_inv r" and fit: "fits st pkt"
  shows "(absorb bin st pkt = None \<and> absorb_rows bin r pkt = None) \<or>
         (\<exists>st' r'. absorb bin st pkt = Some st' \<and> absorb_rows bin r pkt = Some r' \<and>
             related b rest st' r' \<and> geometry st' = geometry st)"
proof (cases pkt)
  case (Coded sd sv)
  have buf: "b \<longrightarrow> length sd = symbol_length st" using fit Coded by simp
  from decode_related [OF rel inv buf, of bin sv]
  show ?thesis using Coded by auto
next
  case (Raw sd i)
  have buf: "b \<longrightarrow> length sd = symbol_length st" using fit Raw by simp
  from decode_raw_related' [OF rel inv buf, of bin i]
  show ?thesis using Raw by auto
qed

lemma fits_related: "related b rest st r \<Longrightarrow> fits r pkt = fits st pkt"
  using related_same_fields(1,2) [of b rest st r] by (cases pkt) simp_all

lemma absorb_all_related:
  "reachable_rows bin r \<Longrightarrow> related b rest st r
   \<Longrightarrow> (absorb_all bin st pkts = None \<and> absorb_all_rows bin r pkts = None) \<or>
       (\<exists>st' r'. absorb_all bin st pkts = Some st' \<and> absorb_all_rows bin r pkts = Some r' \<and>
           reachable_rows bin r' \<and> related b rest st' r' \<and> geometry st' = geometry st)"
proof (induction pkts arbitrary: st r)
  case Nil
  then show ?case by simp
next
  case (Cons pkt pkts)
  note ff = fits_related [OF Cons.prems(2), of pkt]
  show ?case
  proof (cases "fits st pkt")
    case False
    then show ?thesis using ff by simp
  next
    case True
    from absorb_related [OF Cons.prems(2) reachable_inv [OF Cons.prems(1)] True, of bin]
    show ?thesis
    proof (elim disjE exE conjE)
      assume "absorb bin st pkt = None" "absorb_rows bin r pkt = None"
      then show ?thesis using True ff by simp
    next
      fix st1 r1
      assume a: "absorb bin st pkt = Some st1" "absorb_rows bin r pkt = Some r1"
        "related b rest st1 r1" "geometry st1 = geometry st"
      have r1: "reachable_rows bin r1"
        by (rule absorb_rows_reachable [OF Cons.prems(1) _ a(2)]) (use True ff in simp)
      from Cons.IH [OF r1 a(3)]
      show ?thesis using a True ff by (auto simp del: absorb.simps absorb_rows.simps)
    qed
  qed
qed

lemma absorb_reachable:
  "reachable bin st \<Longrightarrow> fits st pkt \<Longrightarrow> absorb bin st pkt = Some st' \<Longrightarrow> reachable bin st'"
  by (cases pkt) (auto intro: reachable_decode reachable_decode_raw)

lemma absorb_all_reachable:
  "reachable bin st \<Longrightarrow> absorb_all bin st pkts = Some st' \<Longrightarrow> reachable bin st'"
proof (induction pkts arbitrary: st)
  case Nil
  then show ?case by simp
next
  case (Cons pkt pkts)
  then show ?case
    by (auto split: if_splits option.splits dest: absorb_reachable)
qed

lemma reachable_the_absorb_all:
  assumes "reachable bin st" "absorb_all bin st pkts \<noteq> None"
  shows "reachable bin (the (absorb_all bin st pkts))"
  using assms absorb_all_reachable by fastforce

lemma reachable_binary_initialize:
  "0 < k \<Longrightarrow> reachable True (initialize data_size k row_size m :: gf2 decoder)"
  by (rule reachable_initialize) (use gf2_cases in auto)

lemma reachable_coded_first_state: "reachable True coded_first_state"
  unfolding coded_first_state_def
  by (rule reachable_the_absorb_all [OF reachable_binary_initialize]) (simp, code_simp)

lemma reachable_swapped_first_state: "reachable True swapped_first_state"
  unfolding swapped_first_state_def
  by (rule reachable_the_absorb_all [OF reachable_binary_initialize]) (simp, code_simp)


lemma dependent_packet_rows:
  assumes r: "reachable_rows bin st" and len: "length sd = symbol_length st"
    and sp: "sv \<in> row_span (symbols st) (stored_rows st)"
  shows "fst (forward_substitute_to_pivot_rows False st sd sv) = None"
proof -
  let ?k = "symbols st"
  note inv = reachable_inv [OF r]
  then have wf: "well_formed st" and ech: "echelon {} st" by (simp_all add: decoder_inv_def)
  have lv: "length sv = ?k" by (rule row_span_length [OF sp])
  show ?thesis
  proof (rule decode_cases [OF inv lv len], goal_cases)
    case (1 sd' sv')
    then show ?case by simp
  next
    case (2 p sd0 sv0 st' sd' sv')
    have res: "\<forall>c\<in>{}. c < ?k \<longrightarrow> sv ! c = 0" by simp
    note sh = forward_substitute_to_pivot_shape [OF wf ech lv len res 2(1)]
    have p: "p < ?k" "\<not> symbol_exists st p" "sv0 ! p \<noteq> 0" "\<forall>c<p. sv0 ! c = 0"
      using sh(5) [of p] by simp_all
    have lb: "\<And>b. b \<in> stored_rows st \<Longrightarrow> length b = ?k"
      using wf by (auto simp: stored_rows_def well_formed_def)
    have in_span: "sv0 \<in> row_span ?k (stored_rows st)"
      by (rule forward_substitute_to_pivot_in_span [OF sp subset_refl lb 2(1)])
    have "sv0 ! p = (\<Sum>j | j < ?k \<and> symbol_exists st j. sv0 ! j * vector st j ! p)"
      by (rule row_span_coordinates [OF wf ech in_span p(1)])
    also have "\<dots> = (\<Sum>j | j < ?k \<and> symbol_exists st j. 0)"
    proof (intro sum.cong refl)
      fix j assume "j \<in> {j. j < ?k \<and> symbol_exists st j}"
      then have j: "j < ?k" "symbol_exists st j" by simp_all
      then have "j \<noteq> p" using p(2) by auto
      then consider "j < p" | "p < j" by (meson nat_neq_iff)
      then show "sv0 ! j * vector st j ! p = 0"
      proof cases
        case 1
        then show ?thesis using p(4) by simp
      next
        case 2
        then show ?thesis using echelon_row(2) [OF wf ech j] by simp
      qed
    qed
    finally have "sv0 ! p = 0" by simp
    then show ?case using p(3) by simp
  qed
qed

lemma stored_rows_related: "related b rest st r \<Longrightarrow> stored_rows r = stored_rows st"
  using related_same_fields(1,8,9) [of b rest st r] by (simp add: stored_rows_def)

lemma forward_pivot_related:
  fixes st :: "'a::field decoder" and r0 :: "'a row_decoder"
  assumes rr: "reachable_rows bin r0" and rel: "related b rest st r"
    and buf: "related_buffers b (symbol_length st) x y"
  shows "fst (forward_substitute_to_pivot bin st x sv)
           = fst (forward_substitute_to_pivot_rows False r y sv)"
  using forward_substitute_to_pivot_related(1) [OF rel buf, of bin sv]
    forward_substitute_to_pivot_reachable_flag [OF rr, of r y sv]
  by simp





lemma block_in_storage_initialize:
  assumes "0 < row_size" "k * row_size \<le> max_data_needed max_symbols max_symbol_size"
  shows "block_in_storage
           (initialize (max_data_needed max_symbols max_symbol_size) k row_size m :: 'a::field decoder)"
proof -
  let ?D = "max_data_needed max_symbols max_symbol_size"
  have "?D < 2 ^ 32" by (simp add: max_data_needed_mod)
  then have a: "k * row_size < 2 ^ 32" using assms(2) by simp
  have "k * row_size * m \<le> ?D * m" by (rule mult_le_mono1 [OF assms(2)])
  then have "k * m * row_size \<le> ?D * m" by (simp add: mult_ac)
  then have "k * m \<le> ?D * m div row_size"
    using assms(1) by (simp add: less_eq_div_iff_mult_less_eq)
  then show ?thesis using assms(1) a by (simp add: block_in_storage_def initialize_def)
qed

lemma related_unique:
  assumes "related True rest st1 r" "related True rest st2 r" "symbol_size st1 = symbol_size st2"
  shows "st1 = st2"
proof (rule decoder.equality)
  from assms(1) have a: "same_fields st1 r" "m_data st1 = concat (m_data r) @ rest"
    by (simp_all add: related_def same_payload_def)
  from assms(2) have b: "same_fields st2 r" "m_data st2 = concat (m_data r) @ rest"
    by (simp_all add: related_def same_payload_def)
  show "symbols st1 = symbols st2" using a(1) b(1) unfolding same_fields_def by metis
  show "symbol_length st1 = symbol_length st2" using a(1) b(1) unfolding same_fields_def by metis
  show "m_rank st1 = m_rank st2" using a(1) b(1) unfolding same_fields_def by metis
  show "m_maximum_pivot st1 = m_maximum_pivot st2"
    using a(1) b(1) unfolding same_fields_def by metis
  show "m_uncoded st1 = m_uncoded st2" using a(1) b(1) unfolding same_fields_def by metis
  show "m_coded st1 = m_coded st2" using a(1) b(1) unfolding same_fields_def by metis
  show "m_vectors st1 = m_vectors st2" using a(1) b(1) unfolding same_fields_def by metis
  show "m_data st1 = m_data st2" using a(2) b(2) by simp
  show "symbol_size st1 = symbol_size st2" by (rule assms(3))
  show "decoder.more st1 = decoder.more st2" by simp
qed

lemma absorb_all_transfer:
  fixes st :: "'a::field decoder"
  assumes rr: "reachable_rows bin r" and rel: "related b rest st r"
    and rows: "absorb_all_rows bin r pkts = Some r'"
  obtains st' where "absorb_all bin st pkts = Some st'" "related b rest st' r'"
    "geometry st' = geometry st" "reachable_rows bin r'"
  using absorb_all_related [OF rr rel, of pkts] rows by auto

lemma absorb_all_transfer_back:
  fixes st :: "'a::field decoder"
  assumes rr: "reachable_rows bin r" and rel: "related b rest st r"
    and run: "absorb_all bin st pkts = Some st'"
  obtains r' where "absorb_all_rows bin r pkts = Some r'" "related b rest st' r'"
    "geometry st' = geometry st" "reachable_rows bin r'"
  using absorb_all_related [OF rr rel, of pkts] run by auto

section \<open>Runs of a decoder whose block does not fit\<close>

lemma forward_to_pivot_loop_first:
  assumes "\<forall>c\<in>set xs. sv ! c = 0" "sv ! p \<noteq> 0" "\<not> symbol_exists st p"
  shows "forward_to_pivot_loop bin st (xs @ p # ys) sd sv = (Some p, sd, sv)"
  using assms by (induction xs) (simp_all add: coefficient_def)

lemma upt_split: "p < k \<Longrightarrow> [i..<k] = [i..<p] @ p # [Suc p..<k]" if "i \<le> p"
proof -
  assume p: "p < k"
  have "[i..<k] = [i..<p] @ [p..<k]"
    using that p by (metis le_Suc_ex less_imp_le_nat upt_add_eq_append)
  then show ?thesis using p by (simp add: upt_conv_Cons)
qed

lemma forward_substitute_to_pivot_first:
  assumes "p < symbols st" "\<forall>c<p. sv ! c = 0" "sv ! p \<noteq> 0" "\<not> symbol_exists st p"
  shows "forward_substitute_to_pivot bin st sd sv = (Some p, sd, sv)"
proof -
  have "[0..< symbols st] = [0..<p] @ p # [Suc p..< symbols st]"
    by (rule upt_split [OF _ assms(1)]) simp
  then show ?thesis
    unfolding forward_substitute_to_pivot_def
    using forward_to_pivot_loop_first [of "[0..<p]" sv p st bin "[Suc p..< symbols st]" sd] assms(2-4)
    by simp
qed

lemma subtract_self: "subtract (x :: 'a::field list) x = replicate (length x) 0"
  by (rule nth_equalityI) simp_all

text \<open>The first coded packet, with coefficients 1 at the columns 0 and \<open>j\<close>.\<close>

lemma wide_decode:
  fixes P :: "'a::field list"
  assumes j: "0 < j" "j < k" and mem: "D * m div s = m" and len: "length P = m"
    and sv: "sv = (replicate k 0)[0 := 1, j := 1]"
  shows "decode True (initialize D k s m) P sv =
           Some (\<lparr> symbols = k, symbol_length = m, m_rank = Suc 0, m_maximum_pivot = 0,
                   m_uncoded = replicate k False,
                   m_coded = (replicate k False)[0 := True],
                   m_vectors = (initialize_vectors k)[0 := sv],
                   m_data = P, symbol_size = s \<rparr>, P, sv)"
proof -
  let ?st = "initialize D k s m :: 'a decoder"
  have o: "symbol_offset ?st 0 = 0" by (simp add: symbol_offset_def)
  have f: "forward_substitute_to_pivot True ?st P sv = (Some 0, P, sv)"
    by (rule forward_substitute_to_pivot_first)
       (use j in \<open>simp_all add: sv initialize_def symbol_exists_def\<close>)
  show ?thesis
    using j len mem
    by (simp add: decode_def decode_with_vector_def f forward_substitute_from_pivot_def
        backward_substitute_def backward_step_def store_coded_symbol_def assert_that_def o
        overwrite_whole)
       (simp add: initialize_def overwrite_whole)
qed

lemma symbol_offset_zero [simp]: "symbol_offset st 0 = 0"
  by (simp add: symbol_offset_def)

text \<open>
  A raw symbol for an empty slot \<open>j\<close> whose row starts at offset 0, as the row of the
  coded slot 0 does, in a storage of one row: the payload is copied to the common row and
  the backward substitution subtracts it from that row.
\<close>

lemma aliased_decode_raw:
  fixes st :: "'a::field decoder"
  assumes j: "0 < j" "j < symbols st" and wrap: "symbol_offset st j = 0"
    and mp: "m_maximum_pivot st = 0"
    and bits: "m_coded st ! 0" "\<not> m_uncoded st ! 0" "\<not> m_coded st ! j" "\<not> m_uncoded st ! j"
    and v: "vector st 0 ! j \<noteq> 0" and lv: "j < length (m_vectors st)"
    and len: "length (m_data st) = symbol_length st" "length Q = symbol_length st"
  shows "\<exists>st'. decode_raw True st Q j = Some st' \<and>
               symbol st' j = replicate (symbol_length st) 0"
proof -
  define st1 where
    "st1 = st\<lparr> m_data := Q, m_vectors := (m_vectors st)[j := set_coefficient j (vector st j) 1] \<rparr>"
  define st2 where
    "st2 = st1\<lparr> m_vectors := (m_vectors st1)[0 := subtract (vector st1 0) (vector st1 j)],
                   m_data := replicate (symbol_length st) 0 \<rparr>"
  have f1: "symbols st1 = symbols st" "m_maximum_pivot st1 = 0" "m_coded st1 = m_coded st"
    "m_uncoded st1 = m_uncoded st" "symbol_offset st1 0 = 0" "symbol_length st1 = symbol_length st"
    "m_data st1 = Q"
    by (simp_all add: st1_def mp)
  have s1: "store_uncoded_symbol st Q j = Some st1"
    using bits len
    by (simp add: store_uncoded_symbol_def assert_that_def wrap overwrite_whole st1_def)
  have v1: "coefficient j (vector st1 0) \<noteq> 0"
    using j v by (simp add: coefficient_def vector_def st1_def)
  have b: "backward_step True Q (vector st1 j) j 0 st1 = st2"
    using j bits v1 len
    by (simp add: backward_step_def f1 symbol_def overwrite_whole subtract_self st2_def)
  have f2: "m_data st2 = replicate (symbol_length st) 0" "symbol_length st2 = symbol_length st"
    "symbol_size st2 = symbol_size st" "m_maximum_pivot st2 = 0"
    by (simp_all add: st2_def st1_def mp)
  have o: "symbol_offset st' j = 0"
    if "symbol_size st' = symbol_size st" "symbol_length st' = symbol_length st" for st' :: "'a decoder"
    using wrap that by (simp add: symbol_offset_def)
  have "\<exists>st'. decode_raw True st Q j = Some st' \<and> m_data st' = replicate (symbol_length st) 0 \<and>
          symbol_length st' = symbol_length st \<and> symbol_size st' = symbol_size st"
    using j bits
    by (simp add: decode_raw_def s1 backward_substitute_def assert_that_def f1 b f2)
  then show ?thesis using o by (auto simp: symbol_def)
qed

text \<open>
  The raw symbol for the coded slot 0 in such a state, when the coefficient row of slot 0
  has its next non-zero coefficient at the empty slot \<open>j\<close>: the evicted row moves to
  slot \<open>j\<close>, which is the same row of the storage, and the raw payload is then copied
  over it.
\<close>

lemma aliased_swap:
  fixes st :: "'a::field decoder"
  assumes j: "0 < j" "j < symbols st" and wrap: "symbol_offset st j = 0"
    and mp: "m_maximum_pivot st = 0"
    and bits: "m_coded st ! 0" "\<not> m_uncoded st ! 0" "\<not> m_coded st ! j" "\<not> m_uncoded st ! j"
    and v: "vector st 0 ! 0 = 1" "\<forall>c<j. 0 < c \<longrightarrow> vector st 0 ! c = 0" "vector st 0 ! j \<noteq> 0"
    and lv: "j < length (vector st 0)" "j < length (m_vectors st)" "j < length (m_coded st)"
    and len: "length (m_data st) = symbol_length st" "length Q = symbol_length st"
  shows "\<exists>st'. decode_raw True st Q 0 = Some st' \<and> symbol st' 0 = Q"
proof -
  define sd where "sd = subtract (symbol st 0) Q"
  define sv where "sv = set_coefficient 0 (vector st 0) 0"
  define st2 where "st2 = swap_state st Q 0"
  have sym: "symbol st 0 = m_data st" using len by (simp add: symbol_def)
  have lsd: "length sd = symbol_length st" using len by (simp add: sd_def sym)
  have f2: "symbols st2 = symbols st" "m_maximum_pivot st2 = 0" "m_uncoded st2 = m_uncoded st"
    "m_coded st2 = (m_coded st)[0 := False]" "symbol_length st2 = symbol_length st"
    "symbol_size st2 = symbol_size st" "m_data st2 = sd"
    "m_vectors st2 = (m_vectors st)[0 := sv]"
    using len by (simp_all add: st2_def swap_state_def mp sd_def sv_def overwrite_whole sym)
  have o2: "symbol_offset st2 j = 0" using wrap by (simp add: symbol_offset_def f2)
  have l0: "0 < length (m_coded st)" "0 < length (vector st 0)" "0 < length (m_vectors st)"
    using j lv by auto
  have e2: "\<not> symbol_exists st2 j" "\<not> m_coded st2 ! 0" "\<not> m_coded st2 ! j"
    using j bits lv l0 by (simp_all add: symbol_exists_def f2)
  have "\<forall>c<j. sv ! c = 0"
  proof (intro allI impI)
    fix c assume c: "c < j"
    show "sv ! c = 0"
    proof (cases "c = 0")
      case True
      then show ?thesis using l0 by (simp add: sv_def set_coefficient_def)
    next
      case False
      then show ?thesis using v(2) c by (simp add: sv_def set_coefficient_def)
    qed
  qed
  moreover have "sv ! j \<noteq> 0" using v(3) j by (simp add: sv_def set_coefficient_def)
  ultimately have f: "forward_substitute_to_pivot True st2 sd sv = (Some j, sd, sv)"
    using j e2 by (intro forward_substitute_to_pivot_first) (simp_all add: f2)
  define st3 where
    "st3 = st2\<lparr> m_vectors := (m_vectors st2)[j := sv], m_data := sd, m_rank := m_rank st2 + 1,
                   m_coded := (m_coded st2)[j := True], m_maximum_pivot := j \<rparr>"
  have b: "backward_step True sd sv j 0 st2 = st2"
    using j bits lv l0 by (simp add: backward_step_def f2)
  have d: "decode_with_vector True st2 sd sv = Some (st3, sd, sv)"
    using j bits lsd lv
    by (simp add: decode_with_vector_def f forward_substitute_from_pivot_def assert_that_def
        f2 backward_substitute_def b store_coded_symbol_def o2 overwrite_whole st3_def)
  have f3: "m_uncoded st3 = m_uncoded st" "m_coded st3 = (m_coded st)[0 := False, j := True]"
    "symbol_length st3 = symbol_length st" "symbol_size st3 = symbol_size st" "m_data st3 = sd"
    by (simp_all add: st3_def f2)
  have c3: "\<not> m_coded st3 ! 0" using j lv l0 by (simp add: f3)
  have c1: "coefficient 0 (vector st 0) = 1" using v(1) by (simp add: coefficient_def)
  note steps = swap_decode_steps [OF bits(1,2) c1 d [unfolded st2_def sd_def sv_def]]
  have "\<exists>st'. swap_decode True st Q 0 = Some st' \<and> m_data st' = Q \<and>
          symbol_length st' = symbol_length st"
    using bits len lsd c3
    by (simp add: steps store_uncoded_symbol_def assert_that_def f3 overwrite_whole)
  then obtain st' where t: "swap_decode True st Q 0 = Some st'" "m_data st' = Q"
    "symbol_length st' = symbol_length st"
    by blast
  have "symbol st' 0 = Q" using t(2,3) len(2) by (simp add: symbol_def)
  moreover have "decode_raw True st Q 0 = Some st'"
    using bits j t(1) by (simp add: decode_raw_def assert_that_def)
  ultimately show ?thesis by blast
qed

text \<open>The raw symbol for slot 0 arriving first.\<close>

lemma wide_decode_raw:
  fixes A :: "'a::field list"
  assumes k: "0 < k" and mem: "D * m div s = m" and len: "length A = m"
  shows "decode_raw True (initialize D k s m) A 0 =
           Some \<lparr> symbols = k, symbol_length = m, m_rank = Suc 0, m_maximum_pivot = 0,
                  m_uncoded = (replicate k False)[0 := True],
                  m_coded = replicate k False,
                  m_vectors = (initialize_vectors k)[0 := (replicate k 0)[0 := 1]],
                  m_data = A, symbol_size = s \<rparr>"
proof -
  let ?st = "initialize D k s m :: 'a decoder"
  define st1 where
    "st1 = ?st\<lparr> m_data := A, m_vectors := (m_vectors ?st)[0 := set_coefficient 0 (vector ?st 0) 1] \<rparr>"
  have f1: "symbols st1 = k" "m_maximum_pivot st1 = 0" "m_uncoded st1 = replicate k False"
    by (simp_all add: st1_def initialize_def)
  have s1: "store_uncoded_symbol ?st A 0 = Some st1"
    using k len mem
    by (simp add: store_uncoded_symbol_def assert_that_def st1_def overwrite_whole)
       (simp add: initialize_def overwrite_whole)
  have b: "backward_step True A v 0 0 st1 = st1" for v
    using k by (simp add: backward_step_def f1)
  show ?thesis
    using k
    by (simp add: decode_raw_def s1 backward_substitute_def assert_that_def f1 b)
       (simp add: st1_def initialize_def initialize_vectors_def vector_def set_coefficient_def)
qed

text \<open>
  A coded packet whose first coefficient meets the uncoded slot 0 and whose next non-zero
  coefficient is at the empty slot \<open>j\<close>, in a storage of one row that both slots share:
  the payload, reduced by the row of slot 0, is stored for slot \<open>j\<close> over that row.
\<close>

lemma aliased_decode:
  fixes st :: "'a::field decoder"
  assumes j: "0 < j" "j < symbols st" and wrap: "symbol_offset st j = 0"
    and mp: "m_maximum_pivot st = 0"
    and bits: "m_uncoded st ! 0" "\<not> m_coded st ! j" "\<not> m_uncoded st ! j"
    and v: "sv ! 0 \<noteq> 0" "\<forall>c<j. 0 < c \<longrightarrow> subtract sv (vector st 0) ! c = 0"
      "subtract sv (vector st 0) ! j \<noteq> 0"
    and len: "length (m_data st) = symbol_length st" "length P = symbol_length st"
  shows "\<exists>st' sd' sv'. decode True st P sv = Some (st', sd', sv') \<and>
           symbol st' 0 = subtract P (m_data st)"
proof -
  define sd where "sd = subtract P (symbol st 0)"
  define sw where "sw = subtract sv (vector st 0)"
  have sym: "symbol st 0 = m_data st" using len by (simp add: symbol_def)
  have lsd: "length sd = symbol_length st" using len by (simp add: sd_def sym)
  have e: "symbol_exists st 0" "\<not> symbol_exists st j"
    using bits by (simp_all add: symbol_exists_def)
  have u: "[0..< symbols st] = 0 # [Suc 0..< symbols st]"
    using j by (simp add: upt_conv_Cons)
  have w: "[Suc 0..< symbols st] = [Suc 0..<j] @ j # [Suc j..< symbols st]"
    by (rule upt_split [OF _ j(2)]) (use j in simp)
  have z: "\<forall>c\<in>set [Suc 0..<j]. sw ! c = 0" using v(2) by (simp add: sw_def)
  have "forward_substitute_to_pivot True st P sv =
          forward_to_pivot_loop True st [Suc 0..< symbols st] sd sw"
    unfolding forward_substitute_to_pivot_def u
    using v(1) e(1) by (simp add: coefficient_def sd_def sw_def)
  also have "\<dots> = (Some j, sd, sw)"
    unfolding w
    by (rule forward_to_pivot_loop_first [OF z _ e(2)]) (use v(3) in \<open>simp add: sw_def\<close>)
  finally have f: "forward_substitute_to_pivot True st P sv = (Some j, sd, sw)" .
  have b: "backward_step True sd sw j 0 st = st"
    using bits by (simp add: backward_step_def)
  have "\<exists>st'. decode True st P sv = Some (st', sd, sw) \<and> m_data st' = sd \<and>
          symbol_length st' = symbol_length st"
    using j bits lsd len
    by (simp add: decode_def decode_with_vector_def f forward_substitute_from_pivot_def
        assert_that_def mp backward_substitute_def b store_coded_symbol_def wrap overwrite_whole)
  then obtain st' where t: "decode True st P sv = Some (st', sd, sw)" "m_data st' = sd"
    "symbol_length st' = symbol_length st"
    by blast
  have "symbol st' 0 = sd" using t(2,3) lsd by (simp add: symbol_def)
  then have "symbol st' 0 = subtract P (m_data st)" by (simp only: sd_def sym)
  then show ?thesis using t(1) by blast
qed

lemma subtract_replicate:
  "subtract (replicate n (a :: 'a::field)) (replicate n b) = replicate n (a - b)"
  by (rule nth_equalityI) simp_all

text \<open>
  The three runs on a decoder whose storage is a single row, shared by the slots 0 and
  \<open>j\<close>.
\<close>

lemma aliased_slot_scenario:
  fixes P Q :: "gf2 list"
  assumes j: "0 < j" "j < k" and mem: "D * m div s = m"
    and wrap: "unat (word_of_nat j * word_of_nat s :: 32 word) = 0"
    and len: "length P = m" "length Q = m"
    and sv: "sv = (replicate k 0)[0 := 1, j := 1]"
  shows "\<exists>st st'. decode True (initialize D k s m) P sv = Some (st, P, sv) \<and>
           reachable True st \<and> j < symbols st \<and> \<not> m_uncoded st ! j \<and> \<not> m_coded st ! j \<and>
           length Q = symbol_length st \<and>
           decode_raw True st Q j = Some st' \<and> symbol st' j = replicate m 0"
proof -
  let ?st0 = "initialize D k s m :: gf2 decoder"
  define st1 :: "gf2 decoder" where
    "st1 = \<lparr> symbols = k, symbol_length = m, m_rank = Suc 0, m_maximum_pivot = 0,
             m_uncoded = replicate k False, m_coded = (replicate k False)[0 := True],
             m_vectors = (initialize_vectors k)[0 := sv], m_data = P, symbol_size = s \<rparr>"
  have d: "decode True ?st0 P sv = Some (st1, P, sv)"
    unfolding st1_def by (rule wide_decode [OF j mem len(1) sv])
  have k: "0 < k" using j by simp
  have r0: "reachable True ?st0" by (rule reachable_binary_initialize [OF k])
  have r1: "reachable True st1"
    by (rule reachable_decode [OF r0 _ _ d]) (simp_all add: initialize_def len sv)
  have f: "symbols st1 = k" "symbol_length st1 = m" "m_maximum_pivot st1 = 0"
    "m_uncoded st1 = replicate k False" "m_coded st1 = (replicate k False)[0 := True]"
    "m_vectors st1 = (initialize_vectors k)[0 := sv]" "m_data st1 = P" "symbol_size st1 = s"
    by (simp_all add: st1_def)
  have o: "symbol_offset st1 j = 0" by (simp add: symbol_offset_def f wrap)
  have v: "vector st1 0 = sv" using k by (simp add: vector_def f initialize_vectors_def)
  have "\<exists>st'. decode_raw True st1 Q j = Some st' \<and>
          symbol st' j = replicate (symbol_length st1) 0"
    by (rule aliased_decode_raw [OF j(1) _ o])
       (use j k len in \<open>simp_all add: f v sv initialize_vectors_def\<close>)
  then show ?thesis using d r1 j len by (auto simp: f)
qed

lemma swap_order_scenario:
  fixes P A :: "gf2 list"
  assumes j: "0 < j" "j < k" and mem: "D * m div s = m"
    and wrap: "unat (word_of_nat j * word_of_nat s :: 32 word) = 0"
    and len: "length P = m" "length A = m"
    and sv: "sv = (replicate k 0)[0 := 1, j := 1]"
  shows "fst (forward_substitute_to_pivot True (initialize D k s m) P sv) = Some 0 \<and>
         (\<exists>st1 stA stB.
            absorb True (initialize D k s m) (Coded P sv) = Some st1 \<and> m_coded st1 ! 0 \<and>
            decode_raw True st1 A 0 = swap_decode True st1 A 0 \<and>
            absorb True st1 (Raw A 0) = Some stA \<and>
            absorb_all True (initialize D k s m) [Raw A 0, Coded P sv] = Some stB \<and>
            symbol stA 0 = A \<and> symbol stB 0 = subtract P A)"
proof -
  let ?st0 = "initialize D k s m :: gf2 decoder"
  define st1 :: "gf2 decoder" where
    "st1 = \<lparr> symbols = k, symbol_length = m, m_rank = Suc 0, m_maximum_pivot = 0,
             m_uncoded = replicate k False, m_coded = (replicate k False)[0 := True],
             m_vectors = (initialize_vectors k)[0 := sv], m_data = P, symbol_size = s \<rparr>"
  define st2 :: "gf2 decoder" where
    "st2 = \<lparr> symbols = k, symbol_length = m, m_rank = Suc 0, m_maximum_pivot = 0,
             m_uncoded = (replicate k False)[0 := True], m_coded = replicate k False,
             m_vectors = (initialize_vectors k)[0 := (replicate k 0)[0 := 1]],
             m_data = A, symbol_size = s \<rparr>"
  have k: "0 < k" using j by simp
  have p: "fst (forward_substitute_to_pivot True ?st0 P sv) = Some 0"
    using forward_substitute_to_pivot_first [of 0 ?st0 sv True P] j
    by (simp add: sv initialize_def symbol_exists_def)
  have d1: "decode True ?st0 P sv = Some (st1, P, sv)"
    unfolding st1_def by (rule wide_decode [OF j mem len(1) sv])
  have d2: "decode_raw True ?st0 A 0 = Some st2"
    unfolding st2_def by (rule wide_decode_raw [OF k mem len(2)])
  have f1: "symbols st1 = k" "symbol_length st1 = m" "m_maximum_pivot st1 = 0"
    "m_uncoded st1 = replicate k False" "m_coded st1 = (replicate k False)[0 := True]"
    "m_vectors st1 = (initialize_vectors k)[0 := sv]" "m_data st1 = P" "symbol_size st1 = s"
    by (simp_all add: st1_def)
  have f2: "symbols st2 = k" "symbol_length st2 = m" "m_maximum_pivot st2 = 0"
    "m_uncoded st2 = (replicate k False)[0 := True]" "m_coded st2 = replicate k False"
    "m_vectors st2 = (initialize_vectors k)[0 := (replicate k 0)[0 := 1]]" "m_data st2 = A"
    "symbol_size st2 = s"
    by (simp_all add: st2_def)
  have o: "symbol_offset st1 j = 0" "symbol_offset st2 j = 0"
    by (simp_all add: symbol_offset_def f1 f2 wrap)
  have v1: "vector st1 0 = sv" using k by (simp add: vector_def f1 initialize_vectors_def)
  have v2: "vector st2 0 = (replicate k 0)[0 := 1]"
    using k by (simp add: vector_def f2 initialize_vectors_def)
  have "\<exists>st'. decode_raw True st1 A 0 = Some st' \<and> symbol st' 0 = A"
    by (rule aliased_swap [OF j(1) _ o(1)])
       (use j k len in \<open>simp_all add: f1 v1 sv initialize_vectors_def\<close>)
  then obtain stA where a: "decode_raw True st1 A 0 = Some stA" "symbol stA 0 = A" by blast
  have "\<exists>st' sd' sv'. decode True st2 P sv = Some (st', sd', sv') \<and>
          symbol st' 0 = subtract P (m_data st2)"
    by (rule aliased_decode [OF j(1) _ o(2)])
       (use j k len in \<open>simp_all add: f2 v2 sv\<close>)
  then obtain stB sd' sv' where b: "decode True st2 P sv = Some (stB, sd', sv')"
    "symbol stB 0 = subtract P A"
    by (auto simp: f2)
  have c: "m_coded st1 ! 0" using k by (simp add: f1)
  have sw: "decode_raw True st1 A 0 = swap_decode True st1 A 0"
    using k by (simp add: decode_raw_def assert_that_def f1)
  have "absorb_all True ?st0 [Raw A 0, Coded P sv] = Some stB"
    using d2 b(1) len by (simp add: initialize_def f2 sv)
  then show ?thesis using p d1 a b(2) c sw by simp
qed




lemma encode_pair:
  fixes B :: "'a::field list"
  assumes j: "0 < j" "j < k" and len: "length B = m"
  shows "encode m ((replicate k (replicate m 0))[j := B]) ((replicate k 0)[0 := 1, j := 1]) = B"
proof (rule nth_equalityI)
  show "length (encode m ((replicate k (replicate m 0))[j := B]) ((replicate k 0)[0 := 1, j := 1]))
          = length B"
    using len by simp
next
  fix e
  assume "e < length (encode m ((replicate k (replicate m 0))[j := B])
                        ((replicate k 0)[0 := 1, j := 1]))"
  then have e: "e < m" by simp
  let ?src = "(replicate k (replicate m 0))[j := B]"
  let ?sv = "(replicate k 0)[0 := 1, j := 1] :: 'a list"
  have "(\<Sum>i<length ?src. ?sv ! i * ?src ! i ! e) = (\<Sum>i<k. if i = j then B ! e else 0)"
    using j e by (intro sum.cong) (auto simp: nth_list_update)
  also have "\<dots> = B ! e" using j by simp
  finally show "encode m ?src ?sv ! e = B ! e" using e by (simp add: nth_encode)
qed

lemma wide_geometry:
  "max_data_needed 65537 65536 = 65536"
  "max_data_needed 65537 65536 * 524288 div 65536 = 524288"
  "unat (word_of_nat 65536 * word_of_nat 65536 :: 32 word) = 0"
  by (simp_all add: max_data_needed_mod unat_product)

lemma wide_coded_run:
  "absorb True wide_decoder wide_coded_packet = Some wide_coded_state"
  "reachable True wide_coded_state" "65536 < symbols wide_coded_state"
  "\<not> m_uncoded wide_coded_state ! 65536" "\<not> m_coded wide_coded_state ! 65536"
  "symbol_length wide_coded_state = 524288"
  "decode_raw True wide_coded_state (replicate 524288 1) 65536 = Some wide_aliased_state"
  "symbol wide_aliased_state 65536 = replicate 524288 0"
proof -
  have "\<exists>st st'. decode True wide_decoder (replicate 524288 1) wide_vector
                = Some (st, replicate 524288 1, wide_vector) \<and>
      reachable True st \<and> 65536 < symbols st \<and>
      \<not> m_uncoded st ! 65536 \<and> \<not> m_coded st ! 65536 \<and>
      length (replicate 524288 (1::gf2)) = symbol_length st \<and>
      decode_raw True st (replicate 524288 1) 65536 = Some st' \<and>
      symbol st' 65536 = replicate 524288 0"
    using aliased_slot_scenario [of 65536 65537 "max_data_needed 65537 65536" 524288 65536
         "replicate 524288 1" "replicate 524288 1" wide_vector] wide_geometry
    by (simp add: wide_decoder_def wide_vector_def)
  then obtain st st' where
    r: "decode True wide_decoder (replicate 524288 1) wide_vector
          = Some (st, replicate 524288 1, wide_vector)"
      "reachable True st" "65536 < symbols st"
      "\<not> m_uncoded st ! 65536" "\<not> m_coded st ! 65536"
      "length (replicate 524288 (1::gf2)) = symbol_length st"
      "decode_raw True st (replicate 524288 1) 65536 = Some st'"
      "symbol st' 65536 = replicate 524288 0"
    by blast
  have a: "absorb True wide_decoder wide_coded_packet = Some st"
    using r(1) by (simp add: wide_coded_packet_def)
  then have e: "wide_coded_state = st" by (simp add: wide_coded_state_def)
  have e': "wide_aliased_state = st'" using r(7) by (simp add: wide_aliased_state_def e)
  show "absorb True wide_decoder wide_coded_packet = Some wide_coded_state"
    "reachable True wide_coded_state" "65536 < symbols wide_coded_state"
    "\<not> m_uncoded wide_coded_state ! 65536" "\<not> m_coded wide_coded_state ! 65536"
    "symbol_length wide_coded_state = 524288"
    "decode_raw True wide_coded_state (replicate 524288 1) 65536 = Some wide_aliased_state"
    "symbol wide_aliased_state 65536 = replicate 524288 0"
    using a r by (simp_all add: e e')
qed

lemma wide_swap_run:
  "fst (forward_substitute_to_pivot True wide_decoder (replicate 524288 1) wide_vector) = Some 0"
  "m_coded wide_coded_state ! 0"
  "decode_raw True wide_coded_state (wide_source ! 0) 0
     = swap_decode True wide_coded_state (wide_source ! 0) 0"
  "absorb True wide_coded_state (Raw (wide_source ! 0) 0) = Some wide_coded_then_raw_state"
  "absorb_all True wide_decoder [Raw (wide_source ! 0) 0, wide_coded_packet]
     = Some wide_raw_then_coded_state"
  "symbol wide_coded_then_raw_state 0 = replicate 524288 0"
  "symbol wide_raw_then_coded_state 0 = replicate 524288 1"
proof -
  have s: "wide_source ! 0 = replicate 524288 0" by (simp add: wide_source_def)
  have "fst (forward_substitute_to_pivot True wide_decoder (replicate 524288 1) wide_vector) = Some 0 \<and>
    (\<exists>st1 stA stB. absorb True wide_decoder (Coded (replicate 524288 1) wide_vector) = Some st1 \<and>
      m_coded st1 ! 0 \<and>
      decode_raw True st1 (replicate 524288 0) 0 = swap_decode True st1 (replicate 524288 0) 0 \<and>
      absorb True st1 (Raw (replicate 524288 0) 0) = Some stA \<and>
      absorb_all True wide_decoder
         [Raw (replicate 524288 0) 0, Coded (replicate 524288 1) wide_vector] = Some stB \<and>
      symbol stA 0 = replicate 524288 0 \<and> symbol stB 0 = replicate 524288 1)"
    using swap_order_scenario [of 65536 65537 "max_data_needed 65537 65536" 524288 65536
         "replicate 524288 1" "replicate 524288 0" wide_vector] wide_geometry
    by (simp add: wide_decoder_def wide_vector_def subtract_replicate)
  then obtain st1 stA stB where
    r: "fst (forward_substitute_to_pivot True wide_decoder (replicate 524288 1) wide_vector) = Some 0"
      "absorb True wide_decoder (Coded (replicate 524288 1) wide_vector) = Some st1"
      "m_coded st1 ! 0"
      "decode_raw True st1 (replicate 524288 0) 0 = swap_decode True st1 (replicate 524288 0) 0"
      "absorb True st1 (Raw (replicate 524288 0) 0) = Some stA"
      "absorb_all True wide_decoder
         [Raw (replicate 524288 0) 0, Coded (replicate 524288 1) wide_vector] = Some stB"
      "symbol stA 0 = replicate 524288 0" "symbol stB 0 = replicate 524288 1"
    by blast
  have e1: "wide_coded_state = st1"
    unfolding wide_coded_state_def wide_coded_packet_def r(2) by simp
  have eA: "wide_coded_then_raw_state = stA"
    using r(5) unfolding wide_coded_then_raw_state_def e1 s by simp
  have eB: "wide_raw_then_coded_state = stB"
    using r(6) unfolding wide_raw_then_coded_state_def wide_coded_packet_def s by simp
  show "fst (forward_substitute_to_pivot True wide_decoder (replicate 524288 1) wide_vector) = Some 0"
    by (rule r(1))
  show "m_coded wide_coded_state ! 0" unfolding e1 by (rule r(3))
  show "decode_raw True wide_coded_state (wide_source ! 0) 0
     = swap_decode True wide_coded_state (wide_source ! 0) 0"
    unfolding e1 s by (rule r(4))
  show "absorb True wide_coded_state (Raw (wide_source ! 0) 0) = Some wide_coded_then_raw_state"
    unfolding e1 eA s by (rule r(5))
  show "absorb_all True wide_decoder [Raw (wide_source ! 0) 0, wide_coded_packet]
     = Some wide_raw_then_coded_state"
    unfolding eB s wide_coded_packet_def by (rule r(6))
  show "symbol wide_coded_then_raw_state 0 = replicate 524288 0" unfolding eA by (rule r(7))
  show "symbol wide_raw_then_coded_state 0 = replicate 524288 1" unfolding eB by (rule r(8))
qed

lemma wide_source_rows:
  "length wide_source = 65537" "\<forall>row\<in>set wide_source. length row = 524288"
  "map length wide_source = replicate 65537 524288"
proof -
  show l: "length wide_source = 65537" by (simp add: wide_source_def)
  show rows: "\<forall>row\<in>set wide_source. length row = 524288"
    using set_update_subset_insert [of "replicate 65537 (replicate 524288 (0::gf2))" 65536
            "replicate 524288 1"]
    by (auto simp: wide_source_def)
  show "map length wide_source = replicate 65537 524288"
    by (rule nth_equalityI) (use l rows in simp_all)
qed


section \<open>The claims\<close>




text \<open>
  C2: in every state reached by \<open>initialize\<close>, \<open>decode\<close> and \<open>decode_raw\<close> (the swap
  path included), the rank is the number of slots that are marked coded or uncoded.
\<close>

theorem rank_counts_occupied:
  assumes "reachable bin st"
  shows "rank st = card {i. i < symbols st \<and> (m_uncoded st ! i \<or> m_coded st ! i)}"
proof -
  from reachable_related [OF assms]
  obtain r rest where r: "reachable_rows bin r" "related (block_in_storage st) rest st r"
    by blast
  note f = related_same_fields [OF r(2)]
  have "{i. i < symbols st \<and> (m_uncoded st ! i \<or> m_coded st ! i)}
          = {i. i < symbols r \<and> symbol_exists r i}"
    using f by (auto simp: symbol_exists_def)
  then show ?thesis
    using reachable_inv [OF r(1)] f by (simp add: decoder_inv_def rank_def occupied_count_card)
qed

theorem rank_counts_occupied_witness:
  "reachable True swapped_first_state \<and> rank swapped_first_state = 1 \<and>
   card {i. i < symbols swapped_first_state \<and>
            (m_uncoded swapped_first_state ! i \<or> m_coded swapped_first_state ! i)} = 1"
proof -
  have r: "rank swapped_first_state = 1"
    unfolding swapped_first_state_def by code_simp
  show ?thesis
    using rank_counts_occupied [OF reachable_swapped_first_state] reachable_swapped_first_state r
    by simp
qed




text \<open>
  C4: in a reachable state, \<open>decode\<close> of a packet whose coefficient vector lies in the span
  of the stored coefficient rows returns the very same decoder state (rank, maximum pivot,
  both bit sets and all rows); only the two buffers of the caller come back changed.
\<close>

theorem dependent_packet_leaves_state:
  assumes r: "reachable bin st" and len: "length sd = symbol_length st"
    and sp: "sv \<in> row_span (symbols st) (stored_rows st)"
  shows "\<exists>sd' sv'. decode bin st sd sv = Some (st, sd', sv')"
proof -
  from reachable_related [OF r]
  obtain r rest where r: "reachable_rows bin r" "related (block_in_storage st) rest st r"
    by blast
  note f = related_same_fields [OF r(2)]
  have buf: "related_buffers (block_in_storage st) (symbol_length st) sd sd"
    using len by (simp add: related_buffers_def)
  have "fst (forward_substitute_to_pivot_rows False r sd sv) = None"
    by (rule dependent_packet_rows [OF r(1)]) (use len sp f stored_rows_related [OF r(2)] in simp_all)
  then have "fst (forward_substitute_to_pivot bin st sd sv) = None"
    using forward_pivot_related [OF r(1) r(2) buf] by simp
  then obtain sd' sv' where "forward_substitute_to_pivot bin st sd sv = (None, sd', sv')"
    by (cases "forward_substitute_to_pivot bin st sd sv") auto
  then have "decode_with_vector bin st sd sv = Some (st, sd', sv')"
    by (rule decode_with_vector_no_pivot)
  then show ?thesis by (simp add: decode_def)
qed

theorem dependent_packet_leaves_state_witness:
  "reachable True coded_first_state \<and> length (octet 0xAA) = symbol_length coded_first_state \<and>
   [1, 0] \<in> row_span (symbols coded_first_state) (stored_rows coded_first_state) \<and>
   (\<exists>sd' sv'. decode True coded_first_state (octet 0xAA) [1, 0]
                = Some (coded_first_state, sd', sv'))"
proof -
  have h: "length (octet 0xAA) = symbol_length coded_first_state"
    unfolding coded_first_state_def by code_simp
  have v: "(0::nat) < symbols coded_first_state" "symbol_exists coded_first_state 0"
    "vector coded_first_state 0 = [1, 0]" "symbols coded_first_state = 2"
    unfolding coded_first_state_def by code_simp+
  have "vector coded_first_state 0 \<in> stored_rows coded_first_state"
    by (rule stored_rowsI [OF v(1,2)])
  then have s: "[1, 0] \<in> row_span (symbols coded_first_state) (stored_rows coded_first_state)"
    using row_span_base [of "[1, 0]" "stored_rows coded_first_state" 2] v(3,4) by simp
  show ?thesis
    using dependent_packet_leaves_state [OF reachable_coded_first_state h s]
      reachable_coded_first_state h s
    by simp
qed




text \<open>
  C6, as stated: after the coded packet \<open>(11, 66 66)\<close> and the raw symbol \<open>CC DD\<close> at
  index 1, both slots are uncoded. The decoder does not mark slot 0 uncoded.
\<close>

theorem scenario_uncoded_counterexample:
  "map_option m_uncoded coded_then_raw_scenario \<noteq> Some [True, True]"
  by code_simp

text \<open>
  C6, amended: after the coded packet \<open>(11, 66 66)\<close> and the raw symbol \<open>CC DD\<close> at
  index 1, slot 0 is still coded and slot 1 is uncoded, the rank is 2, and the payload
  rows are \<open>AA BB\<close> and \<open>CC DD\<close>, which is all there is in \<open>m_data\<close>.
\<close>

theorem scenario_coded_then_raw:
  "map_option m_uncoded coded_then_raw_scenario = Some [False, True] \<and>
   map_option m_coded coded_then_raw_scenario = Some [True, False] \<and>
   map_option m_rank coded_then_raw_scenario = Some 2 \<and>
   map_option (\<lambda>st. symbol st 0) coded_then_raw_scenario = Some (octets [0xAA, 0xBB]) \<and>
   map_option (\<lambda>st. symbol st 1) coded_then_raw_scenario = Some (octets [0xCC, 0xDD]) \<and>
   map_option m_data coded_then_raw_scenario
     = Some (octets [0xAA, 0xBB] @ octets [0xCC, 0xDD])"
  by code_simp

text \<open>
  C7, as stated: both orders end with the same payload rows. In the decoder built with
  \<open>construct(65537, 65536)\<close> the coded packet with coefficients 1 at the columns 0 and
  65536 is genuine for the source symbols above and resolves to pivot 0 in the fresh
  decoder. Followed by the raw source symbol 0, which takes the swap path, it leaves the
  evicted row to slot 65536 and then the raw payload \<open>00 ... 00\<close> in the row the two slots
  share; during the swap no loop visits a stored row. In the other order the coded packet
  is reduced by the row of slot 0 and stored for slot 65536 over that row, which then
  holds \<open>FF ... FF\<close>.
\<close>

theorem swap_order_counterexample:
  "max_data_needed 65537 65536 = 65536 \<and>
   genuine 524288 wide_source wide_coded_packet \<and>
   genuine 524288 wide_source (Raw (wide_source ! 0) 0) \<and>
   fst (forward_substitute_to_pivot True wide_decoder (replicate 524288 1) wide_vector) = Some 0 \<and>
   absorb True wide_decoder wide_coded_packet = Some wide_coded_state \<and>
   m_coded wide_coded_state ! 0 \<and>
   decode_raw True wide_coded_state (wide_source ! 0) 0
     = swap_decode True wide_coded_state (wide_source ! 0) 0 \<and>
   absorb True wide_coded_state (Raw (wide_source ! 0) 0) = Some wide_coded_then_raw_state \<and>
   absorb_all True wide_decoder [Raw (wide_source ! 0) 0, wide_coded_packet]
     = Some wide_raw_then_coded_state \<and>
   symbol wide_coded_then_raw_state 0 = replicate 524288 0 \<and>
   symbol wide_raw_then_coded_state 0 = replicate 524288 1 \<and>
   wide_coded_then_raw_state \<noteq> wide_raw_then_coded_state"
proof -
  have g: "genuine 524288 wide_source wide_coded_packet"
    using encode_pair [of 65536 65537 "replicate 524288 (1::gf2)" 524288]
    by (simp add: wide_source_def wide_vector_def wide_coded_packet_def)
  have g': "genuine 524288 wide_source (Raw (wide_source ! 0) 0)"
    by (simp add: wide_source_rows(1))
  have n: "replicate 524288 (0::gf2) \<noteq> replicate 524288 1" by simp
  have "wide_coded_then_raw_state \<noteq> wide_raw_then_coded_state"
    using wide_swap_run(6,7) n by auto
  then show ?thesis
    using g g' wide_geometry(1) wide_coded_run(1) wide_swap_run by simp
qed

text \<open>
  C7, amended: let the block lie in the storage, that is, let the decoder be built by
  \<open>construct(max_symbols, max_symbol_size)\<close> and initialised for \<open>k\<close> symbols of
  \<open>row_size > 0\<close> bytes with \<open>k * row_size\<close> at most \<open>max_data_needed\<close>. Let a state be
  reached from the fresh decoder by genuine packets for the source symbols \<open>src\<close>, and
  take a genuine coded packet and the raw source symbol \<open>i\<close>. Absorbing the coded packet
  and then the raw symbol succeeds and ends in the very state that absorbing the raw
  symbol and then the coded packet ends in: the same payload storage, coefficient rows,
  bit sets, rank and maximum pivot. When the coded packet resolves to pivot \<open>i\<close>, the raw
  symbol arriving second finds slot \<open>i\<close> coded and is handled by \<open>swap_decode\<close>.
\<close>

theorem swap_equivalence:
  fixes src :: "'a::field list list"
  assumes k: "0 < k" and flag: "bin \<longrightarrow> (\<forall>x::'a. x = 0 \<or> x = 1)"
    and src: "length src = k" "\<forall>row\<in>set src. length row = m"
    and pre: "\<forall>pkt\<in>set pre. genuine m src pkt"
    and fit: "0 < row_size" "k * row_size \<le> max_data_needed max_symbols max_symbol_size"
    and st: "absorb_all bin
               (initialize (max_data_needed max_symbols max_symbol_size) k row_size m) pre
             = Some st"
    and gen: "genuine m src (Coded sd sv)" and i: "i < k"
  shows "\<exists>st1 stA. absorb bin st (Coded sd sv) = Some st1 \<and>
           absorb bin st1 (Raw (src ! i) i) = Some stA \<and>
           absorb_all bin st [Raw (src ! i) i, Coded sd sv] = Some stA \<and>
           (fst (forward_substitute_to_pivot bin st sd sv) = Some i \<longrightarrow>
              m_coded st1 ! i \<and>
              decode_raw bin st1 (src ! i) i = swap_decode bin st1 (src ! i) i)"
proof -
  let ?st0 = "initialize (max_data_needed max_symbols max_symbol_size) k row_size m :: 'a decoder"
  let ?r0 = "initialize_rows k m :: 'a row_decoder"
  let ?c = "Coded sd sv :: 'a packet" and ?w = "Raw (src ! i) i :: 'a packet"
  have B: "block_in_storage ?st0" by (rule block_in_storage_initialize [OF fit])
  define rest :: "'a list" where
    "rest = replicate (max_data_needed max_symbols max_symbol_size * m div row_size - k * m) 0"
  have rel0: "related True rest ?st0 ?r0"
    using related_initialize [where ?'a = 'a, of "max_data_needed max_symbols max_symbol_size" k row_size m] B
    by (simp add: rest_def)
  have rr0: "reachable_rows bin ?r0" by (rule reachable_rows_initialize [OF k flag])
  from absorb_all_transfer_back [OF rr0 rel0 st]
  obtain r where r: "absorb_all_rows bin ?r0 pre = Some r" "related True rest st r"
    "geometry st = geometry ?st0" "reachable_rows bin r"
    by blast
  note f = related_same_fields [OF r(2)]
  have g: "symbols st = k" "symbol_length st = m"
    using r(3) by (simp_all add: geometry_def initialize_def)
  from swap_equivalence_rows [OF k flag src pre r(1) gen i]
  obtain r1 rA where R: "absorb_rows bin r ?c = Some r1" "absorb_rows bin r1 ?w = Some rA"
    "absorb_all_rows bin r [?w, ?c] = Some rA"
    "fst (forward_substitute_to_pivot_rows bin r sd sv) = Some i \<longrightarrow>
       m_coded r1 ! i \<and> decode_raw_rows bin r1 (src ! i) i = swap_decode_rows bin r1 (src ! i) i"
    by blast
  have fc: "fits st ?c" using gen src g by simp
  from absorb_related [OF r(2) reachable_inv [OF r(4)] fc, of bin] R(1)
  obtain st1 where s1: "absorb bin st ?c = Some st1" "related True rest st1 r1"
    "geometry st1 = geometry st"
    by auto
  have rr1: "reachable_rows bin r1"
    by (rule absorb_rows_reachable [OF r(4) _ R(1)]) (use fc f in simp)
  have g1: "symbols st1 = k" "symbol_length st1 = m" "symbol_size st1 = symbol_size st"
    using s1(3) g by (simp_all add: geometry_def)
  have fr1: "fits st1 ?w" using src i g1 by simp
  from absorb_related [OF s1(2) reachable_inv [OF rr1] fr1, of bin] R(2)
  obtain stA where sA: "absorb bin st1 ?w = Some stA" "related True rest stA rA"
    "geometry stA = geometry st1"
    by auto
  from absorb_all_transfer [OF r(4) r(2) R(3)]
  obtain stB where sB: "absorb_all bin st [?w, ?c] = Some stB" "related True rest stB rA"
    "geometry stB = geometry st"
    by blast
  have "symbol_size stA = symbol_size stB"
    using sA(3) sB(3) s1(3) by (simp add: geometry_def)
  then have eq: "stA = stB" by (rule related_unique [OF sA(2) sB(2)])
  have swap: "m_coded st1 ! i \<and> decode_raw bin st1 (src ! i) i = swap_decode bin st1 (src ! i) i"
    if piv: "fst (forward_substitute_to_pivot bin st sd sv) = Some i"
  proof -
    have buf: "related_buffers True (symbol_length st) sd sd"
      using fc by (simp add: related_buffers_def)
    have "fst (forward_substitute_to_pivot_rows bin r sd sv) = Some i"
      using forward_substitute_to_pivot_related(1) [OF r(2) buf, of bin sv] piv by simp
    then have c: "m_coded r1 ! i" using R(4) by simp
    note f1 = related_same_fields [OF s1(2)]
    have i1: "i < symbols r1" using i g1 f1 by simp
    have "\<not> m_uncoded r1 ! i"
      using reachable_inv [OF rr1] c i1 by (auto simp: decoder_inv_def echelon_def)
    then show ?thesis
      using c i g1 f1 by (simp add: decode_raw_def)
  qed
  show ?thesis
    using s1(1) sA(1) sB(1) eq swap by blast
qed

theorem swap_equivalence_witness:
  "max_data_needed 2 2 = 4 \<and>
   fst (forward_substitute_to_pivot True (initialize (max_data_needed 2 2) 2 2 16)
          (octets [0x66, 0x66]) [1, 1]) = Some 0 \<and>
   (\<exists>st1 stA. absorb True (initialize (max_data_needed 2 2) 2 2 16)
                 (Coded (octets [0x66, 0x66]) [1, 1]) = Some st1 \<and>
      absorb True st1 (Raw (octets [0xAA, 0xBB]) 0) = Some stA \<and>
      absorb_all True (initialize (max_data_needed 2 2) 2 2 16)
        [Raw (octets [0xAA, 0xBB]) 0, Coded (octets [0x66, 0x66]) [1, 1]] = Some stA \<and>
      m_coded st1 ! 0 \<and>
      decode_raw True st1 (octets [0xAA, 0xBB]) 0 = swap_decode True st1 (octets [0xAA, 0xBB]) 0)"
proof -
  have k: "(0::nat) < 2" by simp
  have flag: "True \<longrightarrow> (\<forall>x::gf2. x = 0 \<or> x = 1)" using gf2_cases by simp
  have src: "length scenario_source = 2" "\<forall>row\<in>set scenario_source. length row = 16"
    unfolding scenario_source_def by code_simp+
  have pre: "\<forall>pkt\<in>set []. genuine 16 scenario_source pkt" by simp
  have d: "max_data_needed 2 2 = 4" by (simp add: max_data_needed_mod)
  have fit: "(0::nat) < 2" "2 * 2 \<le> max_data_needed 2 2" by (simp_all add: d)
  have st: "absorb_all True (initialize (max_data_needed 2 2) 2 2 16) []
              = Some (initialize (max_data_needed 2 2) 2 2 16 :: gf2 decoder)" by simp
  have gen: "genuine 16 scenario_source (Coded (octets [0x66, 0x66]) [1, 1])"
    unfolding scenario_source_def by code_simp
  have s: "scenario_source ! 0 = octets [0xAA, 0xBB]"
    by (simp add: scenario_source_def)
  have piv: "fst (forward_substitute_to_pivot True (initialize 4 2 2 16) (octets [0x66, 0x66]) [1, 1 :: gf2])
               = Some 0"
    by code_simp
  show ?thesis
    using swap_equivalence [OF k flag src pre fit st gen k] piv s d
    by simp
qed




text \<open>
  C9: whenever the pivot search of the coded-packet algorithm returns a pivot, for any
  decoder state and any buffers (so also for the call made inside \<open>swap_decode\<close>), the
  coefficient of the working vector at that pivot is not zero, and every assertion of
  \<open>normalize\<close> holds: it returns the two rows scaled by the inverse of that coefficient.
\<close>

theorem normalize_never_inverts_zero:
  assumes "forward_substitute_to_pivot bin st sd sv = (Some p, sd', sv')"
  shows "coefficient p sv' \<noteq> 0 \<and>
         normalize_symbol st sd' sv' p =
           Some (multiply sd' (invert (coefficient p sv')),
                 multiply sv' (invert (coefficient p sv')))"
proof -
  from assms have "p \<in> set [0..< symbols st]" "\<not> symbol_exists st p" "coefficient p sv' \<noteq> 0"
    using forward_to_pivot_loop_pivot [of bin st "[0..< symbols st]" sd sv p sd' sv']
    by (simp_all add: forward_substitute_to_pivot_def)
  then show ?thesis
    by (simp add: normalize_symbol_def symbol_exists_def Let_def)
qed

theorem normalize_never_inverts_zero_witness:
  "forward_substitute_to_pivot False (initialize 2 2 1 1) [5] [0, 3 :: rat] = (Some 1, [5], [0, 3])
   \<and> coefficient 1 [0, 3 :: rat] \<noteq> 0
   \<and> normalize_symbol (initialize 2 2 1 1 :: rat decoder) [5] [0, 3 :: rat] 1
       = Some ([5 / 3], [0, 1])"
proof -
  have h: "forward_substitute_to_pivot False (initialize 2 2 1 1) [5] [0, 3 :: rat]
             = (Some 1, [5], [0, 3])"
    by code_simp
  show ?thesis
    using h normalize_never_inverts_zero [OF h]
    by (simp add: multiply_def invert_def coefficient_def)
qed

text \<open>
  C10: in every reachable state the coefficient row of a slot that is neither coded nor
  uncoded is all zero; and \<open>store_uncoded_symbol\<close> on such a slot copies the payload and
  sets the one coefficient at column \<open>i\<close>, leaving the rest of the row as it was.
\<close>

theorem empty_slot_row_is_zero:
  assumes "reachable bin st" "i < symbols st" "\<not> m_uncoded st ! i" "\<not> m_coded st ! i"
  shows "vector st i = zero_row (symbols st) \<and>
         store_uncoded_symbol st sd i =
           Some (st\<lparr> m_data := overwrite (m_data st) (symbol_offset st i) sd,
                      m_vectors := (m_vectors st)[i := (vector st i)[i := 1]] \<rparr>)"
proof -
  from reachable_related [OF assms(1)]
  obtain r rest where r: "reachable_rows bin r" "related (block_in_storage st) rest st r"
    by blast
  note f = related_same_fields [OF r(2)]
  have "vector r i = zero_row (symbols r)"
    using reachable_inv [OF r(1)] assms(2-4) f
    by (simp add: decoder_inv_def blank_rows_def symbol_exists_def)
  then show ?thesis
    using assms(3,4) f by (simp add: store_uncoded_symbol_def set_coefficient_def)
qed

theorem empty_slot_row_is_zero_witness:
  "reachable True coded_first_state \<and> (1::nat) < symbols coded_first_state \<and>
   \<not> m_uncoded coded_first_state ! 1 \<and> \<not> m_coded coded_first_state ! 1 \<and>
   vector coded_first_state 1 = [0, 0]"
proof -
  have h: "(1::nat) < symbols coded_first_state" "\<not> m_uncoded coded_first_state ! 1"
    "\<not> m_coded coded_first_state ! 1"
    unfolding coded_first_state_def by code_simp+
  have z: "zero_row (symbols coded_first_state) = [0, 0 :: gf2]"
    unfolding coded_first_state_def by code_simp
  show ?thesis
    using empty_slot_row_is_zero [OF reachable_coded_first_state h] reachable_coded_first_state h z
    by simp
qed

end
